(* ===== verification/Prelude.thy ===== *)
theory Prelude
  imports Complex_Main
begin

text \<open>
  Shared notions of the development: the arithmetic of Go's \<^verbatim>\<open>int\<close> as the layout and terminal
  code uses it (division truncates towards zero, \<^verbatim>\<open>min\<close>, \<^verbatim>\<open>max\<close>, \<^verbatim>\<open>clamp\<close>), rectangles of
  character cells, and the generic list and map lemmas that several components share.
  Screen coordinates are far below the range of a 64-bit integer, so they are \<open>int\<close>.
\<close>

named_theorems layout_simps "unfoldings of the layout components"
named_theorems ring_simps "unfoldings of the scrollback ring"
named_theorems rep_simps "heap representation of layout trees"

subsection \<open>Integers\<close>

text \<open>Go's \<^verbatim>\<open>/\<close> on integers truncates towards zero.\<close>

definition go_div :: "int \<Rightarrow> int \<Rightarrow> int" where
  "go_div a b = sgn a * sgn b * (\<bar>a\<bar> div \<bar>b\<bar>)"

lemma go_div_nonneg: "0 \<le> a \<Longrightarrow> 0 < b \<Longrightarrow> go_div a b = a div b"
  by (cases "a = 0") (auto simp: go_div_def)

lemma go_div_numeral [simp]: "0 \<le> a \<Longrightarrow> go_div a (numeral k) = a div numeral k"
  by (rule go_div_nonneg) simp_all

text \<open>Go's \<^verbatim>\<open>%\<close> takes the sign of the dividend.\<close>

definition go_mod :: "int \<Rightarrow> int \<Rightarrow> int" where
  "go_mod a b = a - go_div a b * b"

lemma go_mod_nonneg: "0 \<le> a \<Longrightarrow> 0 < b \<Longrightarrow> go_mod a b = a mod b"
  by (simp add: go_mod_def go_div_nonneg minus_div_mult_eq_mod)

subsection \<open>Rectangles of cells\<close>

record rect =
  rx :: int
  ry :: int
  rw :: int
  rh :: int

definition mk_rect :: "int \<Rightarrow> int \<Rightarrow> int \<Rightarrow> int \<Rightarrow> rect" where
  "mk_rect x y w h = \<lparr>rx = x, ry = y, rw = w, rh = h\<rparr>"

lemma mk_rect_sel [simp]:
  "rx (mk_rect x y w h) = x" "ry (mk_rect x y w h) = y"
  "rw (mk_rect x y w h) = w" "rh (mk_rect x y w h) = h"
  by (simp_all add: mk_rect_def)

lemma mk_rect_eta [simp]: "mk_rect (rx r) (ry r) (rw r) (rh r) = r"
  by (simp add: mk_rect_def)

text \<open>The cells a rectangle covers; none when a side is not positive.\<close>

definition cells :: "rect \<Rightarrow> (int \<times> int) set" where
  "cells r = {rx r..<rx r + rw r} \<times> {ry r..<ry r + rh r}"

lemma mem_cells:
  "(x, y) \<in> cells r \<longleftrightarrow> rx r \<le> x \<and> x < rx r + rw r \<and> ry r \<le> y \<and> y < ry r + rh r"
  by (auto simp: cells_def)

definition rect_in :: "rect \<Rightarrow> rect \<Rightarrow> bool" where
  "rect_in r b \<longleftrightarrow> rx b \<le> rx r \<and> rx r + rw r \<le> rx b + rw b \<and> ry b \<le> ry r \<and> ry r + rh r \<le> ry b + rh b"

lemma rect_in_refl [simp, intro]: "rect_in r r"
  by (simp add: rect_in_def)

lemma rect_in_trans [trans]: "rect_in a b \<Longrightarrow> rect_in b c \<Longrightarrow> rect_in a c"
  by (auto simp: rect_in_def)

lemma rect_in_cells: "rect_in r b \<Longrightarrow> cells r \<subseteq> cells b"
  by (auto simp: rect_in_def cells_def)

definition positive_rect :: "rect \<Rightarrow> bool" where
  "positive_rect r \<longleftrightarrow> 1 \<le> rw r \<and> 1 \<le> rh r"

subsection \<open>Lists\<close>

text \<open>The last \<open>n\<close> elements of a list.\<close>

definition lastn :: "nat \<Rightarrow> 'a list \<Rightarrow> 'a list" where
  "lastn n xs = drop (length xs - n) xs"

lemma length_lastn [simp]: "length (lastn n xs) = min n (length xs)"
  by (simp add: lastn_def)

lemma lastn_all: "length xs \<le> n \<Longrightarrow> lastn n xs = xs"
  by (simp add: lastn_def)

lemma lastn_snoc: "length (lastn n xs @ [x]) \<le> n \<Longrightarrow> lastn n (lastn n xs @ [x]) = lastn n (xs @ [x])"
  by (auto simp: lastn_def split: if_splits)

lemma lastn_append: "lastn n (xs @ ys) = lastn (n - length ys) xs @ lastn n ys"
proof (cases "length ys \<le> n")
  case True
  then have "length xs + length ys - n = length xs - (n - length ys)" by arith
  with True show ?thesis by (simp add: lastn_def)
qed (simp add: lastn_def)

lemma lastn_lastn [simp]: "m \<le> n \<Longrightarrow> lastn m (lastn n xs) = lastn m xs"
proof (cases "n \<le> length xs")
  case True
  then have "m \<le> n \<Longrightarrow> n - m + (length xs - n) = length xs - m" by arith
  with True show "m \<le> n \<Longrightarrow> ?thesis" by (simp add: lastn_def)
qed (simp add: lastn_def)

lemma lastn_lastn_append: "lastn n (lastn n xs @ ys) = lastn n (xs @ ys)"
  by (simp add: lastn_append)

lemma list_update_take_drop:
  "i < length xs \<Longrightarrow> xs[i := v] = take i xs @ v # drop (Suc i) xs"
  by (rule upd_conv_take_nth_drop)

text \<open>Inserting at an index, as \<^verbatim>\<open>append\<close> and \<^verbatim>\<open>copy\<close> do on a slice.\<close>

definition insert_at :: "nat \<Rightarrow> 'a \<Rightarrow> 'a list \<Rightarrow> 'a list" where
  "insert_at i x xs = take i xs @ x # drop i xs"

lemma length_insert_at [simp]: "length (insert_at i x xs) = Suc (length xs)"
  by (simp add: insert_at_def)

lemma set_insert_at [simp]: "set (insert_at i x xs) = insert x (set xs)"
  unfolding insert_at_def by (metis append_take_drop_id list.simps(15) set_append Un_insert_right)

definition remove_nth :: "nat \<Rightarrow> 'a list \<Rightarrow> 'a list" where
  "remove_nth i xs = take i xs @ drop (Suc i) xs"

lemma length_remove_nth [simp]: "i < length xs \<Longrightarrow> length (remove_nth i xs) = length xs - 1"
  by (simp add: remove_nth_def)

lemma set_remove_nth_subset: "set (remove_nth i xs) \<subseteq> set xs"
  by (auto simp: remove_nth_def dest: in_set_takeD in_set_dropD)

definition swap_nth :: "nat \<Rightarrow> nat \<Rightarrow> 'a list \<Rightarrow> 'a list" where
  "swap_nth i j xs = xs[i := xs ! j, j := xs ! i]"

lemma length_swap_nth [simp]: "length (swap_nth i j xs) = length xs"
  by (simp add: swap_nth_def)

end
