(* ===== verification/Float64.thy ===== *)
theory Float64
  imports Prelude
begin

text \<open>
  The \<^verbatim>\<open>float64\<close> arithmetic of the layout code, as an executable function on rationals: a
  finite float is the rational it denotes, and each operation is the exact operation followed by
  rounding to a 53-bit significand, to nearest with ties to even, as IEEE 754 and the Go language
  specify. Exponents are not bounded: the ratios and cell counts of the layouts stay within
  \<open>2 ^ -60\<close> and \<open>2 ^ 60\<close>, far from overflow and from the subnormal range, and NaN and the
  infinities cannot arise because every division is guarded.
\<close>

type_synonym f64 = rat

subsection \<open>Rounding\<close>

function log2i :: "int \<Rightarrow> int" where
  "log2i n = (if n \<le> 1 then 0 else 1 + log2i (n div 2))"
  by pat_completeness auto
termination
  by (relation "measure nat") auto

declare log2i.simps [simp del]

lemma log2i_nonneg: "0 \<le> log2i n"
  by (induction n rule: log2i.induct) (subst log2i.simps, simp)

lemma log2i_bounds: "1 \<le> n \<Longrightarrow> 2 ^ nat (log2i n) \<le> n \<and> n < 2 * 2 ^ nat (log2i n)"
proof (induction n rule: log2i.induct)
  case (1 n)
  show ?case
  proof (cases "n \<le> 1")
    case True
    with "1.prems" have "n = 1" by simp
    then show ?thesis by (simp add: log2i.simps [of 1])
  next
    case False
    then have "2 ^ nat (log2i (n div 2)) \<le> n div 2 \<and> n div 2 < 2 * 2 ^ nat (log2i (n div 2))"
      using "1.IH" by simp
    moreover have "nat (log2i n) = Suc (nat (log2i (n div 2)))"
      using False log2i_nonneg [of "n div 2"] by (subst log2i.simps) (simp add: nat_add_distrib)
    ultimately show ?thesis by simp linarith
  qed
qed

text \<open>The binary exponent of a positive rational: \<open>2 powi binexp x \<le> x < 2 powi (binexp x + 1)\<close>.\<close>

definition binexp :: "rat \<Rightarrow> int" where
  "binexp x =
     (let (p, q) = quotient_of x;
          e = log2i p - log2i q
      in if 2 powi e \<le> x then e else e - 1)"

text \<open>Round to the nearest integer, ties to even.\<close>

definition rne :: "rat \<Rightarrow> int" where
  "rne y = (let f = \<lfloor>y\<rfloor>; d = y - of_int f
            in if d < 1 / 2 then f else if 1 / 2 < d then f + 1 else if even f then f else f + 1)"

definition f64_round :: "rat \<Rightarrow> f64" where
  "f64_round x =
     (if x = 0 then 0
      else let u = 2 powi (binexp \<bar>x\<bar> - 52) in of_int (rne (x / u)) * u)"

subsection \<open>Operations\<close>

definition f64_of_int :: "int \<Rightarrow> f64" where
  "f64_of_int i = f64_round (of_int i)"

definition f64_add :: "f64 \<Rightarrow> f64 \<Rightarrow> f64" where
  "f64_add a b = f64_round (a + b)"

definition f64_mul :: "f64 \<Rightarrow> f64 \<Rightarrow> f64" where
  "f64_mul a b = f64_round (a * b)"

definition f64_div :: "f64 \<Rightarrow> f64 \<Rightarrow> f64" where
  "f64_div a b = f64_round (a / b)"

text \<open>The conversion \<^verbatim>\<open>int(x)\<close> truncates towards zero.\<close>

definition f64_to_int :: "f64 \<Rightarrow> int" where
  "f64_to_int x = (if 0 \<le> x then \<lfloor>x\<rfloor> else - \<lfloor>- x\<rfloor>)"

text \<open>The cells a proportion takes of an extent: \<^verbatim>\<open>int(float64(w) * ratio)\<close>.\<close>

definition scale_cells :: "int \<Rightarrow> f64 \<Rightarrow> int" where
  "scale_cells w r = f64_to_int (f64_mul (f64_of_int w) r)"


subsection \<open>Correctness of the rounding function\<close>

lemma two_powi_diff: "(2::rat) powi (a - b) = 2 powi a / 2 powi b"
  by (simp add: power_int_diff)

lemma two_powi_mono: "a \<le> b \<Longrightarrow> (2::rat) powi a \<le> 2 powi b"
  by (rule power_int_increasing) simp_all

lemma two_powi_pos [simp]: "(0::rat) < 2 powi a"
  by simp

lemma log2i_powi:
  assumes "1 \<le> n"
  shows "(2::rat) powi log2i n \<le> of_int n \<and> of_int n < (2::rat) powi (log2i n + 1)"
proof -
  from log2i_bounds [OF assms] have b: "2 ^ nat (log2i n) \<le> n" "n < 2 ^ Suc (nat (log2i n))" by simp_all
  have e: "(2::rat) powi log2i n = of_int (2 ^ nat (log2i n))"
    using log2i_nonneg [of n] by (simp add: power_int_def)
  have e': "(2::rat) powi (log2i n + 1) = of_int (2 ^ Suc (nat (log2i n)))"
    using log2i_nonneg [of n] by (simp add: power_int_add e)
  show ?thesis unfolding e e' using b by (simp only: of_int_le_iff of_int_less_iff)
qed

lemma binexp_bounds:
  assumes "0 < x"
  shows "2 powi binexp x \<le> x \<and> x < 2 powi (binexp x + 1)"
proof -
  obtain p q where pq: "quotient_of x = (p, q)" by fastforce
  have q: "0 < q" and x: "x = of_int p / of_int q"
    using quotient_of_denom_pos [OF pq] quotient_of_div [OF pq] by auto
  have p: "0 < p" using assms q unfolding x by (simp add: zero_less_divide_iff)
  let ?a = "log2i p" and ?b = "log2i q"
  have lp: "2 powi ?a \<le> (of_int p :: rat)" "(of_int p :: rat) < 2 powi (?a + 1)"
    using log2i_powi [of p] p by auto
  have lq: "2 powi ?b \<le> (of_int q :: rat)" "(of_int q :: rat) < 2 powi (?b + 1)"
    using log2i_powi [of q] q by auto
  have up: "x < 2 powi (?a - ?b + 1)"
  proof -
    have "x < 2 powi (?a + 1) / of_int q" unfolding x using lp(2) q by (simp add: divide_strict_right_mono)
    also have "\<dots> \<le> 2 powi (?a + 1) / 2 powi ?b"
      using lq(1) by (intro divide_left_mono) (auto simp: q intro!: mult_pos_pos)
    also have "\<dots> = 2 powi (?a - ?b + 1)"
      by (simp add: two_powi_diff [symmetric] algebra_simps)
    finally show ?thesis .
  qed
  have lo: "2 powi (?a - ?b - 1) \<le> x"
  proof -
    have "(2::rat) powi (?a - ?b - 1) = 2 powi ?a / 2 powi (?b + 1)"
      by (simp add: two_powi_diff [symmetric] algebra_simps)
    also have "\<dots> \<le> 2 powi ?a / of_int q"
      using lq(2) q by (intro divide_left_mono) (auto intro!: mult_pos_pos)
    also have "\<dots> \<le> x" unfolding x using lp(1) q by (simp add: divide_right_mono)
    finally show ?thesis .
  qed
  show ?thesis using up lo by (auto simp: binexp_def pq Let_def)
qed

lemma rne_error: "\<bar>of_int (rne y) - y\<bar> \<le> 1 / 2"
proof -
  obtain f where f: "\<lfloor>y\<rfloor> = f" "of_int f \<le> y" "y < of_int f + 1"
    using floor_correct [of y] by (metis of_int_1 of_int_add)
  then show ?thesis by (auto simp: rne_def Let_def abs_if)
qed

lemma rne_of_int [simp]: "rne (of_int n) = n"
  by (simp add: rne_def)

lemma rne_mono:
  assumes "x \<le> y"
  shows "rne x \<le> rne y"
proof (cases "\<lfloor>x\<rfloor> = \<lfloor>y\<rfloor>")
  case True
  with assms show ?thesis by (auto simp: rne_def Let_def)
next
  case False
  then have "\<lfloor>x\<rfloor> + 1 \<le> \<lfloor>y\<rfloor>" using floor_mono [OF assms] by simp
  moreover have "rne x \<le> \<lfloor>x\<rfloor> + 1" "\<lfloor>y\<rfloor> \<le> rne y" by (auto simp: rne_def Let_def)
  ultimately show ?thesis by linarith
qed

lemma rne_ge: "of_int n \<le> y \<Longrightarrow> n \<le> rne y"
  using rne_mono [of "of_int n" y] by simp

lemma rne_le: "y \<le> of_int n \<Longrightarrow> rne y \<le> n"
  using rne_mono [of y "of_int n"] by simp

lemma rne_minus: "rne (- y) = - rne y"
proof (cases "y \<in> \<int>")
  case True
  then obtain n where "y = of_int n" by (auto elim: Ints_cases)
  then show ?thesis using rne_of_int [of "- n"] by simp
next
  case False
  then have "y \<noteq> of_int \<lfloor>y\<rfloor>" by (metis Ints_of_int)
  then have "\<lfloor>- y\<rfloor> = - \<lfloor>y\<rfloor> - 1"
    by (intro floor_unique) (simp_all, linarith, metis less_le of_int_floor_le)
  then show ?thesis by (auto simp: rne_def Let_def)
qed

text \<open>The unit in the last place at \<open>x\<close>, and the scaled significand.\<close>

definition ulp :: "rat \<Rightarrow> rat" where
  "ulp x = 2 powi (binexp \<bar>x\<bar> - 52)"

lemma ulp_pos [simp]: "0 < ulp x"
  by (simp add: ulp_def)

lemma ulp_nonzero [simp]: "ulp x \<noteq> 0"
  using ulp_pos [of x] by linarith

lemma f64_round_ulp: "x \<noteq> 0 \<Longrightarrow> f64_round x = of_int (rne (x / ulp x)) * ulp x"
  by (simp add: f64_round_def ulp_def Let_def)

lemma f64_round_zero [simp]: "f64_round 0 = 0"
  by (simp add: f64_round_def)

lemma ulp_bounds:
  assumes "x \<noteq> 0"
  shows "2 ^ 52 * ulp x \<le> \<bar>x\<bar> \<and> \<bar>x\<bar> < 2 ^ 53 * ulp x"
proof -
  have "(2::rat) powi binexp \<bar>x\<bar> = 2 ^ 52 * ulp x"
    by (simp add: ulp_def power_int_diff)
  moreover have "(2::rat) powi (binexp \<bar>x\<bar> + 1) = 2 ^ 53 * ulp x"
    by (simp add: ulp_def power_int_diff power_int_add)
  ultimately show ?thesis using binexp_bounds [of "\<bar>x\<bar>"] assms by simp
qed

lemma f64_round_minus: "f64_round (- x) = - f64_round x"
proof (cases "x = 0")
  case False
  then show ?thesis by (simp add: f64_round_ulp ulp_def rne_minus)
qed simp

lemma f64_round_abs_error: "\<bar>f64_round x - x\<bar> \<le> ulp x / 2"
proof (cases "x = 0")
  case False
  let ?u = "ulp x"
  have "f64_round x - x = (of_int (rne (x / ?u)) - x / ?u) * ?u"
    using False by (simp add: f64_round_ulp algebra_simps)
  also have "\<bar>\<dots>\<bar> \<le> 1 / 2 * ?u"
    unfolding abs_mult using rne_error [of "x / ?u"]
    by (intro mult_mono) (simp_all add: less_imp_le)
  finally show ?thesis by simp
qed (simp add: less_imp_le)

lemma f64_round_rel: "\<exists>d. f64_round x = x * (1 + d) \<and> \<bar>d\<bar> \<le> 1 / 2 ^ 53"
proof (cases "x = 0")
  case False
  let ?d = "(f64_round x - x) / x"
  have "\<bar>?d\<bar> = \<bar>f64_round x - x\<bar> / \<bar>x\<bar>" by (simp add: abs_divide)
  also have "\<dots> \<le> (ulp x / 2) / \<bar>x\<bar>"
    by (rule divide_right_mono [OF f64_round_abs_error]) simp
  also have "\<dots> \<le> (ulp x / 2) / (2 ^ 52 * ulp x)"
    using ulp_bounds [OF False] False by (intro divide_left_mono) (auto intro!: mult_pos_pos)
  also have "\<dots> = 1 / 2 ^ 53" by simp
  finally have "\<bar>?d\<bar> \<le> 1 / 2 ^ 53" .
  moreover have "f64_round x = x * (1 + ?d)" using False by (simp add: field_simps)
  ultimately show ?thesis by blast
qed (auto intro: exI [of _ 0])

lemma f64_round_exact:
  assumes "x = of_int k * ulp x"
  shows "f64_round x = x"
proof (cases "x = 0")
  case False
  have "x / ulp x = of_int k" by (subst assms) simp
  then show ?thesis using False assms by (simp add: f64_round_ulp)
qed simp

lemma binexp_less: "0 < x \<Longrightarrow> x < 2 powi n \<Longrightarrow> binexp x < n"
  using binexp_bounds [of x] two_powi_mono [of n "binexp x"] by linarith

lemma binexp_mono: "0 < x \<Longrightarrow> x \<le> y \<Longrightarrow> binexp x \<le> binexp y"
  using binexp_bounds [of x] binexp_bounds [of y] two_powi_mono [of "binexp y + 1" "binexp x"]
  by linarith

lemma f64_round_of_int_less:
  assumes "\<bar>n\<bar> < 2 ^ 53"
  shows "f64_round (of_int n) = of_int n"
proof (cases "n = 0")
  case False
  let ?x = "of_int n :: rat"
  let ?e = "binexp \<bar>?x\<bar>"
  have "\<bar>?x\<bar> < 2 powi 53" using assms by (simp flip: of_int_abs of_int_power)
  then have "?e \<le> 52"
    using binexp_less [of "\<bar>?x\<bar>" 53] False by simp
  have "1 / ulp ?x = 2 powi (52 - ?e)" by (simp add: ulp_def power_int_diff)
  also have "\<dots> = of_int (2 ^ nat (52 - ?e))" using \<open>?e \<le> 52\<close> by (simp add: power_int_def)
  finally have "?x = of_int (n * 2 ^ nat (52 - ?e)) * ulp ?x"
    by (simp add: field_simps)
  then show ?thesis by (rule f64_round_exact)
qed simp

lemma f64_round_of_int:
  assumes "\<bar>n\<bar> \<le> 2 ^ 53"
  shows "f64_round (of_int n) = of_int n"
proof -
  have top: "f64_round (of_int (2 ^ 53)) = of_int (2 ^ 53)" by code_simp
  consider "\<bar>n\<bar> < 2 ^ 53" | "n = 2 ^ 53" | "n = - (2 ^ 53)" using assms by linarith
  then show ?thesis
    by cases (use top f64_round_of_int_less f64_round_minus [of "of_int (2 ^ 53)"] in simp_all)
qed

lemma f64_round_pos_mono:
  assumes "0 < x" "x \<le> y"
  shows "f64_round x \<le> f64_round y"
proof (cases "binexp x = binexp y")
  case True
  then have u: "ulp x = ulp y" using assms by (simp add: ulp_def)
  have "rne (x / ulp y) \<le> rne (y / ulp y)"
    using assms by (intro rne_mono divide_right_mono) (simp_all add: less_imp_le)
  with assms u show ?thesis by (simp add: f64_round_ulp)
next
  case False
  then have lt: "binexp x + 1 \<le> binexp y" using binexp_mono [OF assms] by simp
  have xb: "x < 2 ^ 53 * ulp x" and yb: "2 ^ 52 * ulp y \<le> y"
    using ulp_bounds [of x] ulp_bounds [of y] assms by auto
  have "x / ulp x \<le> of_int (2 ^ 53)" using xb by (simp add: pos_divide_le_eq)
  then have "rne (x / ulp x) \<le> 2 ^ 53" by (rule rne_le)
  then have "f64_round x \<le> of_int (2 ^ 53) * ulp x"
    using assms by (simp only: f64_round_ulp, intro mult_right_mono) (simp_all add: less_imp_le f64_round_ulp)
  also have "\<dots> = 2 * (2 ^ 52 * ulp x)" by simp
  also have "\<dots> \<le> 2 ^ 52 * ulp y"
  proof -
    have "2 * ulp x = 2 powi (binexp x + 1 - 52)"
      using assms by (simp add: ulp_def power_int_diff power_int_add)
    also have "\<dots> \<le> ulp y" using lt assms unfolding ulp_def by (intro two_powi_mono) simp
    finally show ?thesis by simp
  qed
  also have "\<dots> \<le> f64_round y"
  proof -
    have "of_int (2 ^ 52) \<le> y / ulp y" using yb by (simp add: pos_le_divide_eq)
    then have "2 ^ 52 \<le> rne (y / ulp y)" by (rule rne_ge)
    then have "of_int (2 ^ 52) * ulp y \<le> of_int (rne (y / ulp y)) * ulp y"
      by (intro mult_right_mono) (simp_all add: less_imp_le del: of_int_power)
    then show ?thesis using assms by (simp add: f64_round_ulp)
  qed
  finally show ?thesis .
qed

lemma f64_round_nonneg: "0 \<le> x \<Longrightarrow> 0 \<le> f64_round x"
  using rne_ge [of 0 "x / ulp x"] by (cases "x = 0") (auto simp: f64_round_ulp less_imp_le)

lemma f64_round_mono:
  assumes "x \<le> y"
  shows "f64_round x \<le> f64_round y"
proof -
  consider "0 < x" | "x \<le> 0" "0 \<le> y" | "y < 0" by linarith
  then show ?thesis
  proof cases
    case 2
    then show ?thesis
      using f64_round_nonneg [of y] f64_round_nonneg [of "- x"] by (simp add: f64_round_minus)
  next
    case 3
    then show ?thesis
      using f64_round_pos_mono [of "- y" "- x"] assms by (simp add: f64_round_minus)
  qed (rule f64_round_pos_mono [OF _ assms])
qed


subsection \<open>What the layout code relies on\<close>

text \<open>
  The layouts use three facts of the rounding only: it is monotone, it keeps every integer a
  screen can hold, and its relative error is at most half an ulp. The bounds of a scaled extent
  and the recovery of a cell from the middle of it follow from these alone.
\<close>

locale rounding =
  fixes fl :: "rat \<Rightarrow> rat"
  assumes mono: "x \<le> y \<Longrightarrow> fl x \<le> fl y"
    and exact: "\<bar>n\<bar> \<le> 2 ^ 53 \<Longrightarrow> fl (of_int n) = of_int n"
    and rel_err: "\<exists>d. fl x = x * (1 + d) \<and> \<bar>d\<bar> \<le> 1 / 2 ^ 53"
begin

lemma scaled_bounds:
  assumes "0 \<le> w" "w \<le> 2 ^ 53" "0 \<le> r" "r \<le> 1"
  shows "0 \<le> \<lfloor>fl (fl (of_int w) * r)\<rfloor> \<and> \<lfloor>fl (fl (of_int w) * r)\<rfloor> \<le> w"
proof -
  have w: "fl (of_int w) = of_int w" using assms by (intro exact) simp
  have "fl (of_int 0) \<le> fl (of_int w * r)" using assms by (intro mono) simp
  moreover have "fl (of_int w * r) \<le> fl (of_int w)"
    using assms by (intro mono) (simp add: mult_left_le)
  ultimately show ?thesis
    using exact [of 0] by (simp add: w) (metis floor_mono floor_of_int)
qed

lemma scaled_mono:
  assumes "0 \<le> w" "w \<le> 2 ^ 53" "r \<le> s"
  shows "\<lfloor>fl (fl (of_int w) * r)\<rfloor> \<le> \<lfloor>fl (fl (of_int w) * s)\<rfloor>"
proof -
  have w: "fl (of_int w) = of_int w" using assms by (intro exact) simp
  show ?thesis unfolding w using assms by (intro floor_mono mono mult_left_mono) simp_all
qed

text \<open>Three roundings move the middle of a cell by less than half a cell.\<close>

lemma three_roundings:
  assumes d: "\<bar>d1\<bar> \<le> e" "\<bar>d2\<bar> \<le> e" "\<bar>d3\<bar> \<le> e" and e: "0 \<le> e" "e \<le> (1::rat)"
  shows "\<bar>(1 + d1) * (1 + d2) * (1 + d3) - 1\<bar> \<le> 7 * e"
proof -
  have m: "\<bar>a * b\<bar> \<le> e" if "\<bar>a\<bar> \<le> e" "\<bar>b\<bar> \<le> e" for a b
  proof -
    have "\<bar>a * b\<bar> \<le> e * 1" unfolding abs_mult using that e by (intro mult_mono) auto
    then show ?thesis by simp
  qed
  have "(1 + d1) * (1 + d2) * (1 + d3) - 1 =
      d1 + d2 + d3 + d1 * d2 + d1 * d3 + d2 * d3 + d1 * d2 * d3"
    by (simp add: algebra_simps)
  moreover have "\<bar>d1 * d2\<bar> \<le> e" "\<bar>d1 * d3\<bar> \<le> e" "\<bar>d2 * d3\<bar> \<le> e"
    using m d by blast+
  moreover have "\<bar>d1 * d2 * d3\<bar> \<le> e" using m [OF m [OF d(1,2)] d(3)] .
  ultimately show ?thesis using d by linarith
qed

lemma centre_recovered:
  assumes k: "0 \<le> k" "k < w" and w: "w \<le> 2 ^ 40"
  shows "\<lfloor>fl (fl (of_int w) * fl (fl (fl (of_int k) + 1 / 2) / fl (of_int w)))\<rfloor> = k"
proof -
  let ?W = "of_int w :: rat" and ?c = "of_int k + 1 / 2 :: rat" and ?e = "1 / 2 ^ 53 :: rat"
  have fw: "fl ?W = ?W" and fk: "fl (of_int k) = of_int k" using assms by (auto intro!: exact)
  obtain d1 where d1: "fl ?c = ?c * (1 + d1)" "\<bar>d1\<bar> \<le> ?e" using rel_err by blast
  obtain d2 where d2: "fl (fl ?c / ?W) = fl ?c / ?W * (1 + d2)" "\<bar>d2\<bar> \<le> ?e" using rel_err by blast
  obtain d3 where d3: "fl (?W * fl (fl ?c / ?W)) = ?W * fl (fl ?c / ?W) * (1 + d3)" "\<bar>d3\<bar> \<le> ?e"
    using rel_err by blast
  let ?p = "(1 + d1) * (1 + d2) * (1 + d3)"
  have val: "fl (?W * fl (fl ?c / ?W)) = ?c * ?p"
    unfolding d3(1) unfolding d2(1) unfolding d1(1) using k by simp
  have p: "\<bar>?p - 1\<bar> \<le> 7 * ?e" by (rule three_roundings [OF d1(2) d2(2) d3(2)]) simp_all
  have c: "0 < ?c" "?c \<le> 2 ^ 40"
  proof -
    show "0 < ?c" using k by (simp add: add_nonneg_pos)
    have "k + 1 \<le> 2 ^ 40" using k w by simp
    then have "of_int (k + 1) \<le> (of_int (2 ^ 40) :: rat)" by (simp only: of_int_le_iff)
    then show "?c \<le> 2 ^ 40" by simp
  qed
  have "?c * ?p - ?c = ?c * (?p - 1)" by (simp only: right_diff_distrib mult_1_right)
  then have "\<bar>?c * ?p - ?c\<bar> = ?c * \<bar>?p - 1\<bar>" by (simp only: abs_mult abs_of_pos [OF c(1)])
  also have "\<dots> \<le> 2 ^ 40 * (7 * ?e)" using c p by (intro mult_mono) auto
  also have "\<dots> < 1 / 2" by simp
  finally have "of_int k \<le> ?c * ?p" "?c * ?p < of_int k + 1" by linarith+
  then have "\<lfloor>?c * ?p\<rfloor> = k" by (intro floor_unique) simp_all
  then show ?thesis by (simp add: fw fk val)
qed

end

interpretation f64: rounding f64_round
  by unfold_locales (fact f64_round_mono f64_round_of_int f64_round_rel)+

lemma f64_of_int_exact: "\<bar>n\<bar> \<le> 2 ^ 53 \<Longrightarrow> f64_of_int n = of_int n"
  by (simp add: f64_of_int_def f64_round_of_int)

lemma scale_cells_floor:
  assumes "0 \<le> w" "w \<le> 2 ^ 53" "0 \<le> r"
  shows "scale_cells w r = \<lfloor>f64_round (f64_round (of_int w) * r)\<rfloor>"
  using assms f64_round_nonneg [of "of_int w * r"]
  by (simp add: scale_cells_def f64_to_int_def f64_mul_def f64_of_int_def f64_round_of_int)

lemma scale_cells_bounds:
  assumes "0 \<le> w" "w \<le> 2 ^ 53" "0 \<le> r" "r \<le> 1"
  shows "0 \<le> scale_cells w r" "scale_cells w r \<le> w"
  using f64.scaled_bounds [OF assms] scale_cells_floor [OF assms(1-3)] by simp_all

lemma scale_cells_mono:
  assumes "0 \<le> w" "w \<le> 2 ^ 53" "0 \<le> r" "r \<le> s"
  shows "scale_cells w r \<le> scale_cells w s"
  using f64.scaled_mono [OF assms(1,2,4)] scale_cells_floor [OF assms(1-3)]
    scale_cells_floor [of w s] assms by simp

text \<open>The ratio \<^verbatim>\<open>(float64(k) + 0.5) / float64(w)\<close> names cell \<open>k\<close> of an extent of \<open>w\<close> cells exactly.\<close>

definition centre_ratio :: "int \<Rightarrow> int \<Rightarrow> f64" where
  "centre_ratio k w = f64_div (f64_add (f64_of_int k) (1 / 2)) (f64_of_int w)"

lemma centre_ratio_nonneg: "0 \<le> k \<Longrightarrow> 0 < w \<Longrightarrow> 0 \<le> centre_ratio k w"
  by (simp add: centre_ratio_def f64_div_def f64_add_def f64_of_int_def f64_round_nonneg)

lemma scale_cells_centre:
  assumes "0 \<le> k" "k < w" "w \<le> 2 ^ 40"
  shows "scale_cells w (centre_ratio k w) = k"
  using f64.centre_recovered [OF assms] scale_cells_floor [of w "centre_ratio k w"]
    centre_ratio_nonneg [of k w] assms
  by (simp add: centre_ratio_def f64_div_def f64_add_def f64_of_int_def)

end
