(* ===== verification/BspTree.thy ===== *)
theory BspTree
  imports Float64
begin

text \<open>
  The binary space partition of a workspace (\<^verbatim>\<open>internal/layout/bsp.go\<close>): the node type, the split
  model (\<open>child_bounds\<close>) and everything that is derived from it by walking the tree: the layout
  itself, the minimum extents, resizing a divider, reading ratios back from geometry, the drawn
  separators, the automatic split direction, cloning and serialisation.

  A \<^verbatim>\<open>*TileNode\<close> is a value of type \<open>tile\<close>: \<open>NoTile\<close> is the nil pointer, \<open>Tile\<close> carries the
  fields, and two nodes are the same pointer when their unique \<^verbatim>\<open>ID\<close>s are equal. The \<^verbatim>\<open>Parent\<close>
  links, which a value cannot hold, are the path from the node to the root (\<open>path_to\<close>). The
  operations that rewire pointers are modelled on an explicit heap in theory \<open>BspHeap\<close>, which
  proves that the heap represents these values.
\<close>

subsection \<open>Data\<close>

text \<open>
  \<^verbatim>\<open>SplitType\<close> and \<^verbatim>\<open>AutoScheme\<close> are Go integers: a deserialised tree can hold any value, and the
  code treats a value without a name by its \<^verbatim>\<open>default\<close> branches.
\<close>

datatype split_type = SplitNone | SplitVertical | SplitHorizontal | SplitStacked | SplitOther int

datatype auto_scheme = SchemeLongestSide | SchemeAlternate | SchemeSpiral | SchemeSmartSplit
  | SchemeOther int

fun int_of_split :: "split_type \<Rightarrow> int" where
  "int_of_split SplitNone = 0"
| "int_of_split SplitVertical = 1"
| "int_of_split SplitHorizontal = 2"
| "int_of_split SplitStacked = 3"
| "int_of_split (SplitOther n) = n"

definition split_of_int :: "int \<Rightarrow> split_type" where
  "split_of_int n =
     (if n = 0 then SplitNone else if n = 1 then SplitVertical else if n = 2 then SplitHorizontal
      else if n = 3 then SplitStacked else SplitOther n)"

fun int_of_scheme :: "auto_scheme \<Rightarrow> int" where
  "int_of_scheme SchemeLongestSide = 0"
| "int_of_scheme SchemeAlternate = 1"
| "int_of_scheme SchemeSpiral = 2"
| "int_of_scheme SchemeSmartSplit = 3"
| "int_of_scheme (SchemeOther n) = n"

definition scheme_of_int :: "int \<Rightarrow> auto_scheme" where
  "scheme_of_int n =
     (if n = 0 then SchemeLongestSide else if n = 1 then SchemeAlternate
      else if n = 2 then SchemeSpiral else if n = 3 then SchemeSmartSplit else SchemeOther n)"

fun split_type_string :: "split_type \<Rightarrow> string" where
  "split_type_string SplitNone = ''none''"
| "split_type_string SplitVertical = ''vertical''"
| "split_type_string SplitHorizontal = ''horizontal''"
| "split_type_string SplitStacked = ''stacked''"
| "split_type_string (SplitOther n) = ''unknown''"

fun auto_scheme_string :: "auto_scheme \<Rightarrow> string" where
  "auto_scheme_string SchemeLongestSide = ''longest_side''"
| "auto_scheme_string SchemeAlternate = ''alternate''"
| "auto_scheme_string SchemeSpiral = ''spiral''"
| "auto_scheme_string SchemeSmartSplit = ''smart_split''"
| "auto_scheme_string (SchemeOther n) = ''unknown''"

definition parse_auto_scheme :: "string \<Rightarrow> auto_scheme" where
  "parse_auto_scheme s =
     (if s = ''alternate'' then SchemeAlternate
      else if s = ''spiral'' then SchemeSpiral
      else if s = ''smart_split'' then SchemeSmartSplit
      else SchemeLongestSide)"

datatype tile = NoTile
  | Tile (tid: nat) (twin: int) (tsplit: split_type) (tratio: f64) (tactive: bool)
      (tleft: tile) (tright: tile)

fun is_leaf :: "tile \<Rightarrow> bool" where
  "is_leaf NoTile = False"
| "is_leaf (Tile i w s r a lt rt) = (s = SplitNone)"

text \<open>The default window size of \<^verbatim>\<open>internal/config/constants.go\<close>.\<close>

definition default_window_width :: int where "default_window_width = 20"
definition default_window_height :: int where "default_window_height = 5"

subsection \<open>The split model\<close>

definition vertical_split :: "f64 \<Rightarrow> rect \<Rightarrow> int \<Rightarrow> int" where
  "vertical_split ratio b gap =
     (let splitX = rx b + scale_cells (rw b) ratio
      in if gap > 0 then max (rx b + 1) (min splitX (rx b + rw b - 2)) else splitX)"

definition horizontal_split :: "f64 \<Rightarrow> rect \<Rightarrow> int \<Rightarrow> int" where
  "horizontal_split ratio b gap =
     (let splitY = ry b + scale_cells (rh b) ratio
      in if gap > 0 then max (ry b + 1) (min splitY (ry b + rh b - 2)) else splitY)"

fun child_bounds :: "split_type \<Rightarrow> f64 \<Rightarrow> bool \<Rightarrow> rect \<Rightarrow> int \<Rightarrow> rect \<times> rect" where
  "child_bounds SplitStacked ratio active b gap =
     (if active
      then (mk_rect (rx b) (ry b) (rw b) (rh b - 1), mk_rect (rx b) (ry b + rh b - 1) (rw b) 1)
      else (mk_rect (rx b) (ry b) (rw b) 1, mk_rect (rx b) (ry b + 1) (rw b) (rh b - 1)))"
| "child_bounds SplitVertical ratio active b gap =
     (let splitX = vertical_split ratio b gap
      in (mk_rect (rx b) (ry b) (splitX - rx b) (rh b),
          mk_rect (splitX + gap) (ry b) (rx b + rw b - splitX - gap) (rh b)))"
| "child_bounds _ ratio active b gap =
     (let splitY = horizontal_split ratio b gap
      in (mk_rect (rx b) (ry b) (rw b) (splitY - ry b),
          mk_rect (rx b) (splitY + gap) (rw b) (ry b + rh b - splitY - gap)))"

subsection \<open>Layout\<close>

fun apply_layout_rec :: "tile \<Rightarrow> rect \<Rightarrow> int \<Rightarrow> (int \<rightharpoonup> rect) \<Rightarrow> (int \<rightharpoonup> rect)" where
  "apply_layout_rec NoTile b gap res = res"
| "apply_layout_rec (Tile i w s r a lt rt) b gap res =
     (if s = SplitNone then res(w \<mapsto> mk_rect (rx b) (ry b) (max (rw b) 1) (max (rh b) 1))
      else let (lb, rb) = child_bounds s r a b gap
           in apply_layout_rec rt rb gap (apply_layout_rec lt lb gap res))"

text \<open>The safety net of \<^verbatim>\<open>ApplyLayoutInto\<close>: every rectangle is moved inside the root bounds.\<close>

definition keep_inside :: "rect \<Rightarrow> rect \<Rightarrow> rect" where
  "keep_inside b r =
     mk_rect (max (rx b) (min (rx r) (rx b + rw b - rw r)))
       (max (ry b) (min (ry r) (ry b + rh b - rh r))) (rw r) (rh r)"

definition apply_layout :: "tile \<Rightarrow> rect \<Rightarrow> int \<Rightarrow> (int \<rightharpoonup> rect)" where
  "apply_layout t b gap =
     (if t = NoTile then Map.empty
      else (\<lambda>w. map_option (keep_inside b) (apply_layout_rec t b gap Map.empty w)))"

fun min_extent :: "tile \<Rightarrow> bool \<Rightarrow> int \<Rightarrow> int" where
  "min_extent NoTile vertical gap = 0"
| "min_extent (Tile i w s r a lt rt) vertical gap =
     (if s = SplitNone then (if vertical then default_window_width else default_window_height)
      else let le = min_extent lt vertical gap; re = min_extent rt vertical gap
           in if s = SplitStacked then (if vertical then max le re else max le re + 1)
              else if (s = SplitVertical) \<noteq> vertical then max le re
              else le + re + gap)"

subsection \<open>Walking up: paths, depth, node bounds\<close>

text \<open>The nodes from the target up to the root, which is what following \<^verbatim>\<open>Parent\<close> yields.\<close>

fun path_to :: "nat \<Rightarrow> tile \<Rightarrow> tile list option" where
  "path_to n NoTile = None"
| "path_to n (Tile i w s r a lt rt) =
     (if n = i then Some [Tile i w s r a lt rt]
      else case path_to n lt of
        Some p \<Rightarrow> Some (p @ [Tile i w s r a lt rt])
      | None \<Rightarrow> (case path_to n rt of
          Some p \<Rightarrow> Some (p @ [Tile i w s r a lt rt])
        | None \<Rightarrow> None))"

definition node_depth :: "nat \<Rightarrow> tile \<Rightarrow> nat option" where
  "node_depth n t = map_option (\<lambda>p. length p - 1) (path_to n t)"

text \<open>Pointer equality of a path node with a child.\<close>

fun same_node :: "tile \<Rightarrow> tile \<Rightarrow> bool" where
  "same_node (Tile i w s r a lt rt) (Tile i' w' s' r' a' lt' rt') = (i = i')"
| "same_node _ _ = False"

text \<open>The descent of \<^verbatim>\<open>nodeBounds\<close>, over the path from the root to the target.\<close>

fun bounds_along :: "tile list \<Rightarrow> rect \<Rightarrow> int \<Rightarrow> rect option" where
  "bounds_along (n # c # p) b gap =
     (if is_leaf n then None
      else let (lb, rb) = child_bounds (tsplit n) (tratio n) (tactive n) b gap
           in bounds_along (c # p) (if same_node c (tleft n) then lb else rb) gap)"
| "bounds_along _ b gap = Some b"

definition node_bounds :: "tile \<Rightarrow> nat \<Rightarrow> rect \<Rightarrow> int \<Rightarrow> rect option" where
  "node_bounds t n b gap =
     (case path_to n t of None \<Rightarrow> None | Some p \<Rightarrow> bounds_along (rev p) b gap)"

subsection \<open>Resizing a divider\<close>

datatype resize_edge = EdgeRight | EdgeLeft | EdgeBottom | EdgeTop

fun edge_vertical :: "resize_edge \<Rightarrow> bool" where
  "edge_vertical e = (e = EdgeRight \<or> e = EdgeLeft)"

fun edge_far :: "resize_edge \<Rightarrow> bool" where
  "edge_far e = (e = EdgeRight \<or> e = EdgeBottom)"

text \<open>The leaf of a window: \<^verbatim>\<open>WindowToNode\<close> as a function of the tree (see \<open>BspHeap\<close>).\<close>

fun find_leaf :: "int \<Rightarrow> tile \<Rightarrow> nat option" where
  "find_leaf win NoTile = None"
| "find_leaf win (Tile i w s r a lt rt) =
     (if s = SplitNone then (if w = win then Some i else None)
      else case find_leaf win lt of Some n \<Rightarrow> Some n | None \<Rightarrow> find_leaf win rt)"

text \<open>
  The walk up from the leaf: the first ancestor that splits on the edge's axis with the window's
  subtree on the side the edge faces. Stacked ancestors are skipped.
\<close>

fun find_divider :: "resize_edge \<Rightarrow> tile list \<Rightarrow> tile option" where
  "find_divider e (cur # p # ps) =
     (if tsplit p = SplitStacked then find_divider e (p # ps)
      else if (tsplit p = SplitVertical) \<noteq> edge_vertical e then find_divider e (p # ps)
      else if edge_far e = same_node cur (tleft p) then Some p
      else find_divider e (p # ps))"
| "find_divider e _ = None"

fun set_ratio :: "nat \<Rightarrow> f64 \<Rightarrow> tile \<Rightarrow> tile" where
  "set_ratio n q NoTile = NoTile"
| "set_ratio n q (Tile i w s r a lt rt) =
     Tile i w s (if i = n then q else r) a (set_ratio n q lt) (set_ratio n q rt)"

text \<open>\<open>None\<close> is the result \<^verbatim>\<open>false\<close>, which leaves the tree alone.\<close>

definition resize_split :: "tile \<Rightarrow> int \<Rightarrow> resize_edge \<Rightarrow> int \<Rightarrow> rect \<Rightarrow> int \<Rightarrow> tile option" where
  "resize_split t win e pos b gap =
     (case find_leaf win t of None \<Rightarrow> None
      | Some leaf \<Rightarrow>
     (case Option.bind (path_to leaf t) (find_divider e) of None \<Rightarrow> None
      | Some node \<Rightarrow>
     (case node_bounds t (tid node) b gap of None \<Rightarrow> None
      | Some rct \<Rightarrow>
        let line = (if edge_far e then pos else pos - gap);
            origin = (if edge_vertical e then rx rct else ry rct);
            extent = (if edge_vertical e then rw rct else rh rct)
        in if extent \<le> 0 then None
           else let lo = origin + min_extent (tleft node) (edge_vertical e) gap;
                    hi = origin + extent - gap - min_extent (tright node) (edge_vertical e) gap
                in if lo > hi then None
                   else let line' = max lo (min line hi)
                        in Some (set_ratio (tid node) (centre_ratio (line' - origin) extent) t))))"

subsection \<open>Reading ratios back from geometry\<close>

fun any_window :: "tile \<Rightarrow> int" where
  "any_window NoTile = - 1"
| "any_window (Tile i w s r a lt rt) =
     (if s = SplitNone then w
      else let id = any_window lt in if id \<noteq> - 1 then id else any_window rt)"

text \<open>The rectangle of some window of a subtree, when one is known.\<close>

definition known_rect :: "tile \<Rightarrow> (int \<rightharpoonup> rect) \<Rightarrow> rect option" where
  "known_rect t ws = (let id = any_window t in if id \<noteq> - 1 then ws id else None)"

definition vertical_line :: "tile \<Rightarrow> tile \<Rightarrow> (int \<rightharpoonup> rect) \<Rightarrow> int \<Rightarrow> int option" where
  "vertical_line lt rt ws gap =
     (case known_rect rt ws of Some r \<Rightarrow> Some (rx r - gap)
      | None \<Rightarrow> (case known_rect lt ws of Some r \<Rightarrow> Some (rx r + rw r) | None \<Rightarrow> None))"

definition horizontal_line :: "tile \<Rightarrow> tile \<Rightarrow> (int \<rightharpoonup> rect) \<Rightarrow> int \<Rightarrow> int option" where
  "horizontal_line lt rt ws gap =
     (case known_rect rt ws of Some r \<Rightarrow> Some (ry r - gap)
      | None \<Rightarrow> (case known_rect lt ws of Some r \<Rightarrow> Some (ry r + rh r) | None \<Rightarrow> None))"

fun sync_ratios_rec :: "tile \<Rightarrow> rect \<Rightarrow> (int \<rightharpoonup> rect) \<Rightarrow> int \<Rightarrow> tile" where
  "sync_ratios_rec NoTile b ws gap = NoTile"
| "sync_ratios_rec (Tile i w s r a lt rt) b ws gap =
     (if s = SplitNone then Tile i w s r a lt rt
      else if s = SplitStacked then
        let content = mk_rect (rx b) (ry b) (rw b) (rh b - 1);
            title = mk_rect (rx b) (ry b + rh b - 1) (rw b) 1
        in if a
           then Tile i w s r a (sync_ratios_rec lt content ws gap) (sync_ratios_rec rt title ws gap)
           else Tile i w s r a
             (sync_ratios_rec lt (title\<lparr>ry := ry b\<rparr>) ws gap)
             (sync_ratios_rec rt (content\<lparr>ry := ry b + 1\<rparr>) ws gap)
      else let (lb, rb) = child_bounds s r a b gap
      in if s = SplitVertical then
        (case vertical_line lt rt ws gap of
          None \<Rightarrow> Tile i w s r a lt rt
        | Some splitX \<Rightarrow>
            if splitX \<noteq> rx lb + rw lb
            then Tile i w s
              (if rw b > 0 then f64_div (f64_of_int (splitX - rx b)) (f64_of_int (rw b)) else r) a
              (sync_ratios_rec lt (mk_rect (rx b) (ry b) (splitX - rx b) (rh b)) ws gap)
              (sync_ratios_rec rt
                (mk_rect (splitX + gap) (ry b) (rx b + rw b - splitX - gap) (rh b)) ws gap)
            else Tile i w s r a (sync_ratios_rec lt lb ws gap) (sync_ratios_rec rt rb ws gap))
      else
        (case horizontal_line lt rt ws gap of
          None \<Rightarrow> Tile i w s r a lt rt
        | Some splitY \<Rightarrow>
            if splitY \<noteq> ry lb + rh lb
            then Tile i w s
              (if rh b > 0 then f64_div (f64_of_int (splitY - ry b)) (f64_of_int (rh b)) else r) a
              (sync_ratios_rec lt (mk_rect (rx b) (ry b) (rw b) (splitY - ry b)) ws gap)
              (sync_ratios_rec rt
                (mk_rect (rx b) (splitY + gap) (rw b) (ry b + rh b - splitY - gap)) ws gap)
            else Tile i w s r a (sync_ratios_rec lt lb ws gap) (sync_ratios_rec rt rb ws gap)))"

definition sync_ratios :: "tile \<Rightarrow> (int \<rightharpoonup> rect) \<Rightarrow> rect \<Rightarrow> int \<Rightarrow> tile" where
  "sync_ratios t ws b gap = (if t = NoTile then t else sync_ratios_rec t b ws gap)"

subsection \<open>The automatic split direction\<close>

definition cell_aspect :: int where "cell_aspect = 2"

fun count_internal :: "tile \<Rightarrow> nat" where
  "count_internal NoTile = 0"
| "count_internal (Tile i w s r a lt rt) =
     (if s = SplitNone then 0 else 1 + count_internal lt + count_internal rt)"

fun find_any_leaf :: "tile \<Rightarrow> nat option" where
  "find_any_leaf NoTile = None"
| "find_any_leaf (Tile i w s r a lt rt) =
     (if s = SplitNone then Some i
      else case find_any_leaf lt of Some n \<Rightarrow> Some n | None \<Rightarrow> find_any_leaf rt)"

text \<open>\<open>depth\<close> is the target's depth and \<open>trect\<close> the result of \<^verbatim>\<open>nodeBounds\<close> on it.\<close>

definition determine_auto_split ::
    "auto_scheme \<Rightarrow> tile \<Rightarrow> nat \<Rightarrow> rect option \<Rightarrow> rect \<Rightarrow> split_type" where
  "determine_auto_split scheme t depth trect b =
     (case scheme of
        SchemeLongestSide \<Rightarrow> if rw b \<ge> rh b * cell_aspect then SplitVertical else SplitHorizontal
      | SchemeAlternate \<Rightarrow> if even (count_internal t) then SplitVertical else SplitHorizontal
      | SchemeSpiral \<Rightarrow>
          (let vertical = even depth;
               vertical' = (if rw b < rh b * cell_aspect then \<not> vertical else vertical)
           in if vertical' then SplitVertical else SplitHorizontal)
      | SchemeSmartSplit \<Rightarrow>
          (let r = (case trect of Some r \<Rightarrow> r | None \<Rightarrow> b); w = rw r; h = rh r * cell_aspect
           in if w > h * 2 then SplitVertical
              else if h > w then SplitHorizontal
              else if even depth then SplitVertical else SplitHorizontal)
      | SchemeOther n \<Rightarrow> SplitVertical)"

fun max_leaf_depth :: "tile \<Rightarrow> nat \<Rightarrow> nat" where
  "max_leaf_depth NoTile d = 0"
| "max_leaf_depth (Tile i w s r a lt rt) d =
     (if s = SplitNone then d
      else let le = max_leaf_depth lt (d + 1); re = max_leaf_depth rt (d + 1)
           in if le > re then le else re)"

definition next_split_direction :: "auto_scheme \<Rightarrow> tile \<Rightarrow> string" where
  "next_split_direction scheme t =
     (if scheme = SchemeSpiral
      then if even (max_leaf_depth t 0) then ''V'' else ''H''
      else if even (count_internal t) then ''V'' else ''H'')"

subsection \<open>Equal ratios, separators, window lists\<close>

fun equalize_ratios :: "tile \<Rightarrow> tile" where
  "equalize_ratios NoTile = NoTile"
| "equalize_ratios (Tile i w s r a lt rt) =
     (if s = SplitNone then Tile i w s r a lt rt
      else Tile i w s (1 / 2) a (equalize_ratios lt) (equalize_ratios rt))"

record split_line =
  sl_vertical :: bool
  sl_pos :: int
  sl_from :: int
  sl_to :: int

fun collect_splits_rec :: "tile \<Rightarrow> rect \<Rightarrow> int \<Rightarrow> split_line list" where
  "collect_splits_rec NoTile b gap = []"
| "collect_splits_rec (Tile i w s r a lt rt) b gap =
     (if s = SplitNone then []
      else let (lb, rb) = child_bounds s r a b gap
           in (if s = SplitStacked then []
               else if s = SplitVertical
               then [\<lparr>sl_vertical = True, sl_pos = rx b + rw lb, sl_from = ry b,
                      sl_to = ry b + rh b - 1\<rparr>]
               else [\<lparr>sl_vertical = False, sl_pos = ry b + rh lb, sl_from = rx b,
                      sl_to = rx b + rw b - 1\<rparr>])
              @ collect_splits_rec lt lb gap @ collect_splits_rec rt rb gap)"

definition collect_splits :: "tile \<Rightarrow> rect \<Rightarrow> int \<Rightarrow> split_line list" where
  "collect_splits t b gap = (if t = NoTile \<or> gap \<le> 0 then [] else collect_splits_rec t b gap)"

fun window_ids :: "tile \<Rightarrow> int list" where
  "window_ids NoTile = []"
| "window_ids (Tile i w s r a lt rt) =
     (if s = SplitNone then [w] else window_ids lt @ window_ids rt)"

end
