(* ===== verification/BspLayout.thy ===== *)
theory BspLayout
  imports BspTree
begin

text \<open>
  The geometry of a BSP layout: what one split does to a rectangle (\<open>rect_split\<close>), and by
  induction what the whole tree does to the screen. The panes and the drawn separators form an
  exact cover of the region: every cell belongs to exactly one pane or one separator.
\<close>

subsection \<open>Exact covers\<close>

fun exact_cover :: "'a set list \<Rightarrow> 'a set \<Rightarrow> bool" where
  "exact_cover [] S = (S = {})"
| "exact_cover (X # Xs) S = (X \<subseteq> S \<and> exact_cover Xs (S - X))"

lemma exact_cover_append:
  "exact_cover Xs A \<Longrightarrow> exact_cover Ys B \<Longrightarrow> A \<inter> B = {} \<Longrightarrow> exact_cover (Xs @ Ys) (A \<union> B)"
proof (induction Xs arbitrary: A)
  case (Cons X Xs)
  have "(A - X) \<union> B = (A \<union> B) - X" using Cons.prems by auto
  moreover have "exact_cover (Xs @ Ys) ((A - X) \<union> B)" using Cons by (intro Cons.IH) auto
  ultimately show ?case using Cons.prems by auto
qed simp

lemma exact_cover_Union: "exact_cover Xs S \<Longrightarrow> \<Union> (set Xs) = S"
  by (induction Xs arbitrary: S) auto

lemma exact_cover_disjoint:
  "exact_cover Xs S \<Longrightarrow> i < j \<Longrightarrow> j < length Xs \<Longrightarrow> Xs ! i \<inter> Xs ! j = {}"
proof (induction Xs arbitrary: S i j)
  case (Cons X Xs)
  show ?case
  proof (cases i)
    case 0
    have "Xs ! (j - 1) \<in> set Xs" using Cons.prems 0 by simp
    then have "Xs ! (j - 1) \<subseteq> S - X"
      using Cons.prems exact_cover_Union [of Xs "S - X"] by auto
    with 0 Cons.prems show ?thesis by (auto simp: nth_Cons')
  next
    case (Suc k)
    with Cons.prems Cons.IH [of "S - X" k "j - 1"] show ?thesis by (auto simp: nth_Cons')
  qed
qed simp

subsection \<open>One split\<close>

text \<open>
  What a client of the split model needs: the two parts stay inside the rectangle, and together
  with the divider between them they cover it exactly.
\<close>

locale rect_split =
  fixes part :: "'n \<Rightarrow> rect \<Rightarrow> rect \<times> rect"
    and divider :: "'n \<Rightarrow> rect \<Rightarrow> (int \<times> int) set"
    and ok :: "'n \<Rightarrow> rect \<Rightarrow> bool"
  assumes inside: "ok n b \<Longrightarrow> part n b = (l, r) \<Longrightarrow> rect_in l b \<and> rect_in r b"
    and cover: "ok n b \<Longrightarrow> part n b = (l, r) \<Longrightarrow> exact_cover [divider n b, cells l, cells r] (cells b)"
begin

lemma parts_disjoint:
  assumes "ok n b" "part n b = (l, r)"
  shows "cells l \<inter> cells r = {}" "divider n b \<inter> (cells l \<union> cells r) = {}"
    "cells b = divider n b \<union> (cells l \<union> cells r)"
  using cover [OF assms] by auto

lemma combine:
  assumes "ok n b" "part n b = (l, r)"
    and "exact_cover Ls (cells l)" "exact_cover Rs (cells r)"
  shows "exact_cover (divider n b # Ls @ Rs) (cells b)"
proof -
  note p = parts_disjoint [OF assms(1,2)]
  have "exact_cover (Ls @ Rs) (cells l \<union> cells r)"
    by (rule exact_cover_append) (use assms p in auto)
  moreover have "cells b - divider n b = cells l \<union> cells r" using p by auto
  ultimately show ?thesis using p by simp
qed

lemma inside_within:
  assumes "ok n b" "part n b = (l, r)" "rect_in x l \<or> rect_in x r"
  shows "rect_in x b"
  using inside [OF assms(1,2)] assms(3) rect_in_trans by blast

end

text \<open>The cells between the two children of a node: \<open>gap\<close> columns or rows, none when stacked.\<close>

definition split_divider :: "split_type \<times> f64 \<times> bool \<times> int \<Rightarrow> rect \<Rightarrow> (int \<times> int) set" where
  "split_divider n b =
     (case n of (s, r, a, gap) \<Rightarrow>
       if s = SplitStacked then {}
       else if s = SplitVertical
       then cells (mk_rect (vertical_split r b gap) (ry b) gap (rh b))
       else cells (mk_rect (rx b) (horizontal_split r b gap) (rw b) gap))"

text \<open>A split the layout can carry out: the ratio is a proportion and both children get a cell.\<close>

definition split_ok :: "split_type \<times> f64 \<times> bool \<times> int \<Rightarrow> rect \<Rightarrow> bool" where
  "split_ok n b =
     (case n of (s, r, a, gap) \<Rightarrow>
       0 \<le> gap \<and> 0 \<le> r \<and> r \<le> 1 \<and> positive_rect b \<and> rw b \<le> 2 ^ 40 \<and> rh b \<le> 2 ^ 40
       \<and> positive_rect (fst (child_bounds s r a b gap))
       \<and> positive_rect (snd (child_bounds s r a b gap)))"

lemma child_bounds_other:
  "s \<noteq> SplitStacked \<Longrightarrow> s \<noteq> SplitVertical \<Longrightarrow>
   child_bounds s r a b gap =
     (let splitY = horizontal_split r b gap
      in (mk_rect (rx b) (ry b) (rw b) (splitY - ry b),
          mk_rect (rx b) (splitY + gap) (rw b) (ry b + rh b - splitY - gap)))"
  by (cases s) simp_all

lemma child_bounds_inside:
  assumes "split_ok (s, r, a, gap) b" "child_bounds s r a b gap = (l, rr)"
  shows "rect_in l b \<and> rect_in rr b"
  using assms
  by (cases "s = SplitStacked"; cases "s = SplitVertical")
    (auto simp: split_ok_def rect_in_def positive_rect_def child_bounds_other Let_def split: if_splits)

lemma child_bounds_cover:
  assumes "split_ok (s, r, a, gap) b" "child_bounds s r a b gap = (l, rr)"
  shows "exact_cover [split_divider (s, r, a, gap) b, cells l, cells rr] (cells b)"
proof -
  consider "s = SplitStacked" | "s = SplitVertical" | "s \<noteq> SplitStacked" "s \<noteq> SplitVertical" by blast
  then show ?thesis
    using assms
    by cases
      (auto simp: split_ok_def split_divider_def positive_rect_def child_bounds_other Let_def cells_def
        split: if_splits)
qed

interpretation tile_split: rect_split
    "\<lambda>(s, r, a, gap) b. child_bounds s r a b gap" split_divider split_ok
proof (unfold_locales, goal_cases)
  case (1 n b l r)
  then show ?case using child_bounds_inside by (cases n) simp
next
  case (2 n b l r)
  then show ?case using child_bounds_cover by (cases n) (simp del: exact_cover.simps)
qed

declare child_bounds.simps [simp del]

subsection \<open>The whole tree\<close>

text \<open>
  A tree fits a rectangle when every split can be carried out: ratios are proportions, and every
  node on the way down, each leaf included, is handed at least one cell.
\<close>

fun fits :: "tile \<Rightarrow> rect \<Rightarrow> int \<Rightarrow> bool" where
  "fits NoTile b gap = False"
| "fits (Tile i w s r a lt rt) b gap =
     (if s = SplitNone then positive_rect b
      else split_ok (s, r, a, gap) b
        \<and> fits lt (fst (child_bounds s r a b gap)) gap
        \<and> fits rt (snd (child_bounds s r a b gap)) gap)"

text \<open>The rectangle of every leaf, in order, and every cell set the tree divides the screen into.\<close>

fun parts :: "tile \<Rightarrow> rect \<Rightarrow> int \<Rightarrow> (int \<times> rect) list" where
  "parts NoTile b gap = []"
| "parts (Tile i w s r a lt rt) b gap =
     (if s = SplitNone then [(w, b)]
      else parts lt (fst (child_bounds s r a b gap)) gap
        @ parts rt (snd (child_bounds s r a b gap)) gap)"

fun tree_cells :: "tile \<Rightarrow> rect \<Rightarrow> int \<Rightarrow> (int \<times> int) set list" where
  "tree_cells NoTile b gap = []"
| "tree_cells (Tile i w s r a lt rt) b gap =
     (if s = SplitNone then [cells b]
      else split_divider (s, r, a, gap) b
        # tree_cells lt (fst (child_bounds s r a b gap)) gap
        @ tree_cells rt (snd (child_bounds s r a b gap)) gap)"

lemma tree_cells_cover: "fits t b gap \<Longrightarrow> exact_cover (tree_cells t b gap) (cells b)"
proof (induction t b gap rule: tree_cells.induct)
  case (2 i w s r a lt rt b gap)
  show ?case
  proof (cases "s = SplitNone")
    case False
    then have "exact_cover (split_divider (s, r, a, gap) b
        # tree_cells lt (fst (child_bounds s r a b gap)) gap
        @ tree_cells rt (snd (child_bounds s r a b gap)) gap) (cells b)"
      using "2.IH" "2.prems" by (intro tile_split.combine) auto
    with False show ?thesis by (simp del: exact_cover.simps)
  qed simp
qed simp

lemma map_fst_parts [simp]: "map fst (parts t b gap) = window_ids t"
  by (induction t b gap rule: parts.induct) simp_all

lemma parts_inside: "fits t b gap \<Longrightarrow> (w, x) \<in> set (parts t b gap) \<Longrightarrow> rect_in x b \<and> positive_rect x"
proof (induction t b gap rule: parts.induct)
  case (2 i w' s r a lt rt b gap)
  show ?case
  proof (cases "s = SplitNone")
    case False
    then have "rect_in x (fst (child_bounds s r a b gap)) \<or> rect_in x (snd (child_bounds s r a b gap))"
      and "positive_rect x"
      using "2.IH" "2.prems" by auto
    then show ?thesis
      using False "2.prems" tile_split.inside_within [of "(s, r, a, gap)" b
          "fst (child_bounds s r a b gap)" "snd (child_bounds s r a b gap)" x] by simp
  qed (use "2.prems" in auto)
qed simp

lemma apply_layout_rec_parts:
  "fits t b gap \<Longrightarrow> apply_layout_rec t b gap m = m ++ map_of (rev (parts t b gap))"
proof (induction t b gap m rule: apply_layout_rec.induct)
  case (2 i w s r a lt rt b gap m)
  show ?case
  proof (cases "s = SplitNone")
    case True
    then have "max (rw b) 1 = rw b" "max (rh b) 1 = rh b"
      using "2.prems" by (auto simp: positive_rect_def)
    with True show ?thesis by (simp add: fun_eq_iff map_add_def)
  next
    case False
    obtain lb rb where "child_bounds s r a b gap = (lb, rb)" by fastforce
    with False show ?thesis using "2.IH" "2.prems" by simp
  qed
qed simp

lemma keep_inside_id: "rect_in r b \<Longrightarrow> keep_inside b r = r"
  by (auto simp: keep_inside_def rect_in_def max_def min_def)

lemma apply_layout_parts:
  assumes "fits t b gap" "distinct (window_ids t)"
  shows "apply_layout t b gap = map_of (parts t b gap)"
proof
  fix w
  have ne: "t \<noteq> NoTile" using assms by auto
  have d: "distinct (map fst (parts t b gap))" using assms by simp
  then have "map_of (rev (parts t b gap)) = map_of (parts t b gap)"
    by (intro map_of_inject_set [THEN iffD2]) (simp_all add: rev_map [symmetric])
  then have "apply_layout t b gap w = map_option (keep_inside b) (map_of (parts t b gap) w)"
    using ne by (simp add: apply_layout_def apply_layout_rec_parts [OF assms(1)])
  also have "\<dots> = map_of (parts t b gap) w"
    using parts_inside [OF assms(1)] keep_inside_id
    by (cases "map_of (parts t b gap) w") (auto dest!: map_of_SomeD)
  finally show "apply_layout t b gap w = map_of (parts t b gap) w" .
qed

subsection \<open>Counting the owners of a cell\<close>

definition owners :: "(int \<times> int) set list \<Rightarrow> int \<times> int \<Rightarrow> nat" where
  "owners Xs c = length (filter (\<lambda>X. c \<in> X) Xs)"

lemma owners_simps [simp]:
  "owners [] c = 0"
  "owners (X # Xs) c = (if c \<in> X then Suc (owners Xs c) else owners Xs c)"
  "owners (Xs @ Ys) c = owners Xs c + owners Ys c"
  by (simp_all add: owners_def)

lemma owners_cover: "exact_cover Xs S \<Longrightarrow> owners Xs c = (if c \<in> S then 1 else 0)"
  by (induction Xs arbitrary: S) auto

fun line_cells :: "split_line \<Rightarrow> (int \<times> int) set" where
  "line_cells l =
     (if sl_vertical l then {sl_pos l} \<times> {sl_from l..sl_to l} else {sl_from l..sl_to l} \<times> {sl_pos l})"

lemma divider_line:
  assumes "s \<noteq> SplitNone"
  shows "owners [split_divider (s, r, a, 1) b] c =
    owners (map line_cells
      (if s = SplitStacked then []
       else if s = SplitVertical
       then [\<lparr>sl_vertical = True, sl_pos = rx b + rw (fst (child_bounds s r a b 1)),
              sl_from = ry b, sl_to = ry b + rh b - 1\<rparr>]
       else [\<lparr>sl_vertical = False, sl_pos = ry b + rh (fst (child_bounds s r a b 1)),
              sl_from = rx b, sl_to = rx b + rw b - 1\<rparr>])) c"
  by (cases c; cases "s = SplitStacked"; cases "s = SplitVertical")
    (auto simp: split_divider_def child_bounds.simps child_bounds_other Let_def cells_def line_cells.simps)

declare line_cells.simps [simp del]

lemma owners_tree_cells:
  "gap = 1 \<Longrightarrow> owners (tree_cells t b gap) c =
    owners (map (cells \<circ> snd) (parts t b gap)) c + owners (map line_cells (collect_splits_rec t b gap)) c"
proof (induction t b gap rule: tree_cells.induct)
  case (2 i w s r a lt rt b gap)
  show ?case
  proof (cases "s = SplitNone")
    case False
    obtain lb rb where cb: "child_bounds s r a b 1 = (lb, rb)" by fastforce
    let ?D = "split_divider (s, r, a, 1) b"
    have "owners (tree_cells (Tile i w s r a lt rt) b 1) c =
        owners [?D] c + (owners (tree_cells lt lb 1) c + owners (tree_cells rt rb 1) c)"
      using False by (simp add: cb)
    moreover have "owners (map line_cells (collect_splits_rec (Tile i w s r a lt rt) b 1)) c =
        owners [?D] c + (owners (map line_cells (collect_splits_rec lt lb 1)) c
          + owners (map line_cells (collect_splits_rec rt rb 1)) c)"
      unfolding divider_line [OF False] using False cb
      by (cases "s = SplitStacked"; cases "s = SplitVertical") simp_all
    ultimately show ?thesis
      using "2.IH"(1,2) [OF False] "2.prems" False cb by simp
  qed simp
qed simp

lemma owners_tree_cells_no_gap:
  "gap = 0 \<Longrightarrow> owners (tree_cells t b gap) c = owners (map (cells \<circ> snd) (parts t b gap)) c"
proof (induction t b gap rule: tree_cells.induct)
  case (2 i w s r a lt rt b gap)
  have "split_divider (s, r, a, 0) b = {}" by (auto simp: split_divider_def cells_def)
  with "2.IH" "2.prems" show ?case by (cases "s = SplitNone") simp_all
qed simp

lemma parts_eq_layout:
  assumes "fits t b gap" "distinct (window_ids t)"
  shows "map (cells \<circ> snd) (parts t b gap) = map (\<lambda>w. cells (the (apply_layout t b gap w))) (window_ids t)"
proof -
  have d: "distinct (map fst (parts t b gap))" using assms by simp
  have "snd p = the (apply_layout t b gap (fst p))" if "p \<in> set (parts t b gap)" for p
  proof -
    have "map_of (parts t b gap) (fst p) = Some (snd p)"
      using that d by (intro map_of_is_SomeI) simp_all
    then show ?thesis by (simp add: apply_layout_parts [OF assms])
  qed
  then show ?thesis unfolding map_fst_parts [of t b gap, symmetric] by (simp del: map_fst_parts)
qed

lemma layout_dom:
  assumes "fits t b gap" "distinct (window_ids t)"
  shows "dom (apply_layout t b gap) = set (window_ids t)"
  using assms by (metis apply_layout_parts dom_map_of_conv_image_fst map_fst_parts set_map)

lemma layout_some_parts:
  assumes "fits t b gap" "distinct (window_ids t)"
  shows "apply_layout t b gap w = Some x \<longleftrightarrow> (w, x) \<in> set (parts t b gap)"
  using assms by (simp add: apply_layout_parts [OF assms] map_of_eq_Some_iff)

lemma exact_cover_same:
  "exact_cover Xs S \<Longrightarrow> c \<in> Xs ! i \<Longrightarrow> c \<in> Xs ! j \<Longrightarrow> i < length Xs \<Longrightarrow> j < length Xs \<Longrightarrow> i = j"
  using exact_cover_disjoint [of Xs S i j] exact_cover_disjoint [of Xs S j i]
  by (cases i j rule: linorder_cases) auto

lemma tree_parts_disjoint:
  "fits t b gap \<Longrightarrow> (w, x) \<in> set (parts t b gap) \<Longrightarrow> (w', x') \<in> set (parts t b gap) \<Longrightarrow> w \<noteq> w'
   \<Longrightarrow> cells x \<inter> cells x' = {}"
proof (induction t b gap rule: parts.induct)
  case (2 i v s r a lt rt b gap)
  show ?case
  proof (cases "s = SplitNone")
    case False
    let ?l = "fst (child_bounds s r a b gap)" and ?r = "snd (child_bounds s r a b gap)"
    have ok: "split_ok (s, r, a, gap) b" and f: "fits lt ?l gap" "fits rt ?r gap"
      using False "2.prems"(1) by simp_all
    have lr: "cells ?l \<inter> cells ?r = {}" using tile_split.parts_disjoint(1) [OF ok] by simp
    have sub: "(u, y) \<in> set (parts lt ?l gap) \<Longrightarrow> cells y \<subseteq> cells ?l"
      "(u, y) \<in> set (parts rt ?r gap) \<Longrightarrow> cells y \<subseteq> cells ?r" for u y
      using parts_inside [OF f(1)] parts_inside [OF f(2)] rect_in_cells by blast+
    from False "2.prems"(2,3)
    consider "(w, x) \<in> set (parts lt ?l gap)" "(w', x') \<in> set (parts lt ?l gap)"
      | "(w, x) \<in> set (parts rt ?r gap)" "(w', x') \<in> set (parts rt ?r gap)"
      | "cells x \<subseteq> cells ?l" "cells x' \<subseteq> cells ?r" | "cells x \<subseteq> cells ?r" "cells x' \<subseteq> cells ?l"
      using sub by auto
    then show ?thesis
      using "2.IH" [OF False] f "2.prems"(4) lr by cases auto
  qed (use "2.prems" in auto)
qed simp

text \<open>
  C1. With the region split by \<^verbatim>\<open>ApplyLayout\<close> and the separators of \<^verbatim>\<open>CollectSplits\<close>, for the two
  gaps the program uses (0 with bordered panes, 1 with drawn separators), every cell of the region
  is owned by exactly one pane or one separator line, and no cell outside it by any.
\<close>

theorem layout_exact_partition:
  assumes "fits t b gap" "distinct (window_ids t)" "gap = 0 \<or> gap = 1"
  shows "owners (map (\<lambda>w. cells (the (apply_layout t b gap w))) (window_ids t)) c
      + owners (map line_cells (collect_splits t b gap)) c = (if c \<in> cells b then 1 else 0)"
proof -
  have t: "t \<noteq> NoTile" using assms(1) by auto
  have "owners (tree_cells t b gap) c = (if c \<in> cells b then 1 else 0)"
    by (rule owners_cover [OF tree_cells_cover [OF assms(1)]])
  with assms(3) t parts_eq_layout [OF assms(1,2)] show ?thesis
    by (elim disjE) (simp_all add: owners_tree_cells owners_tree_cells_no_gap collect_splits_def)
qed

text \<open>A 100 by 40 screen with one separator column: two panes, the right one split again.\<close>

definition demo_tree :: tile where
  "demo_tree = Tile 3 (- 1) SplitVertical (1 / 2) False
     (Tile 2 7 SplitNone (1 / 2) False NoTile NoTile)
     (Tile 5 (- 1) SplitHorizontal (1 / 2) False
        (Tile 4 8 SplitNone (1 / 2) False NoTile NoTile)
        (Tile 6 9 SplitNone (1 / 2) False NoTile NoTile))"

definition demo_bounds :: rect where "demo_bounds = mk_rect 0 0 100 40"

lemma demo_scale: "scale_cells 100 (1 / 2) = 50" "scale_cells 40 (1 / 2) = 20"
  by code_simp+

lemmas demo_simps = demo_tree_def demo_bounds_def child_bounds.simps vertical_split_def
  horizontal_split_def demo_scale Let_def

lemma demo_fits: "fits demo_tree demo_bounds 1"
  by (simp add: demo_simps split_ok_def positive_rect_def)

lemma demo_layout:
  "apply_layout demo_tree demo_bounds 1 =
     [7 \<mapsto> mk_rect 0 0 50 40, 8 \<mapsto> mk_rect 51 0 49 20, 9 \<mapsto> mk_rect 51 21 49 19]"
  by (simp add: apply_layout_def demo_simps keep_inside_def fun_eq_iff)

lemma demo_windows: "window_ids demo_tree = [7, 8, 9]"
  by (simp add: demo_tree_def)

lemma demo_distinct: "distinct (window_ids demo_tree)"
  by (simp add: demo_windows)

theorem layout_exact_partition_witness:
  "owners (map (\<lambda>w. cells (the (apply_layout demo_tree demo_bounds 1 w))) (window_ids demo_tree)) (50, 3)
     + owners (map line_cells (collect_splits demo_tree demo_bounds 1)) (50, 3) = 1"
  using layout_exact_partition [OF demo_fits demo_distinct, of "(50, 3)"]
  by (simp add: mem_cells demo_bounds_def)



end
