(* ===== verification/BspResize.thy ===== *)
theory BspResize
  imports BspLayout
begin

text \<open>
  Resizing and reading back. \<open>resize_split\<close> moves the dragged edge of the window to the requested
  position, clamped to what the two subtrees need, and moves nothing outside the split it belongs
  to; \<open>sync_ratios\<close> leaves a tree alone whose geometry is its own layout, and can move a divider
  by one cell when the geometry disagrees, because the ratio it stores is not aimed at the middle
  of a cell.
\<close>

subsection \<open>Well-formed trees\<close>

fun wf_tile :: "tile \<Rightarrow> bool" where
  "wf_tile NoTile = False"
| "wf_tile (Tile i w s r a lt rt) =
     (if s = SplitNone then lt = NoTile \<and> rt = NoTile else wf_tile lt \<and> wf_tile rt)"

fun ids :: "tile \<Rightarrow> nat list" where
  "ids NoTile = []"
| "ids (Tile i w s r a lt rt) = i # ids lt @ ids rt"

fun no_stacked :: "tile \<Rightarrow> bool" where
  "no_stacked NoTile = True"
| "no_stacked (Tile i w s r a lt rt) = (s \<noteq> SplitStacked \<and> no_stacked lt \<and> no_stacked rt)"

lemma min_extent_ge: "wf_tile t \<Longrightarrow> 0 \<le> gap \<Longrightarrow> 5 \<le> min_extent t v gap"
  by (induction t) (auto simp: default_window_width_def default_window_height_def Let_def)

lemma wf_children:
  "wf_tile t \<Longrightarrow> tsplit t \<noteq> SplitNone \<Longrightarrow> wf_tile (tleft t) \<and> wf_tile (tright t)"
  by (cases t) auto

subsection \<open>Paths\<close>

lemma path_to_None: "path_to n t = None \<longleftrightarrow> n \<notin> set (ids t)"
  by (induction t) (auto split: option.splits)

lemma path_elem: "path_to n t = Some p \<Longrightarrow> x \<in> set p \<Longrightarrow> x \<noteq> NoTile \<and> tid x \<in> set (ids t)"
  by (induction t arbitrary: p) (auto split: if_splits option.splits)

lemma path_wf: "path_to n t = Some p \<Longrightarrow> x \<in> set p \<Longrightarrow> wf_tile t \<Longrightarrow> wf_tile x"
  by (induction t arbitrary: p) (fastforce split: if_splits option.splits)+

lemma path_no_stacked: "path_to n t = Some p \<Longrightarrow> x \<in> set p \<Longrightarrow> no_stacked t \<Longrightarrow> no_stacked x"
  by (induction t arbitrary: p) (fastforce split: if_splits option.splits)+

lemma path_suffix:
  "path_to n t = Some (pre @ x # post) \<Longrightarrow> distinct (ids t) \<Longrightarrow> path_to (tid x) t = Some (x # post)"
proof (induction t arbitrary: pre post)
  case (Tile i w s r a lt rt)
  let ?t = "Tile i w s r a lt rt"
  show ?case
  proof (cases "n = i")
    case True
    with Tile.prems show ?thesis by (auto simp: Cons_eq_append_conv)
  next
    case False
    then obtain p q where p: "p @ [?t] = pre @ x # post"
      and q: "path_to n lt = Some p \<and> q = lt \<or> path_to n lt = None \<and> path_to n rt = Some p \<and> q = rt"
      using Tile.prems(1) by (auto split: option.splits)
    show ?thesis
    proof (cases post rule: rev_exhaust)
      case Nil
      with p show ?thesis by auto
    next
      case (snoc post' y)
      with p have "y = ?t" and pq: "p = pre @ x # post'" by auto
      then have "tid x \<in> set (ids q)" and "x \<noteq> NoTile"
        using q path_elem [of n _ p x] by auto
      moreover from q have "path_to (tid x) q = Some (x # post')"
        using Tile.IH(1) [of pre post'] Tile.IH(2) [of pre post'] Tile.prems(2) pq by auto
      moreover from \<open>tid x \<in> set (ids q)\<close> Tile.prems(2)
      have "q = rt \<and> path_to n lt = None \<Longrightarrow> path_to (tid x) lt = None"
        by (auto simp: path_to_None)
      ultimately show ?thesis
        using q Tile.prems(2) \<open>y = ?t\<close> snoc by auto
    qed
  qed
qed simp

lemma bounds_along_append:
  "bounds_along (xs @ x # ys) b gap =
     Option.bind (bounds_along (xs @ [x]) b gap) (\<lambda>r. bounds_along (x # ys) r gap)"
proof (induction xs arbitrary: b)
  case (Cons n xs)
  then show ?case by (cases xs) (auto simp: case_prod_unfold Let_def)
qed simp

subsection \<open>Setting a ratio\<close>

lemma set_ratio_sel [simp]:
  "tid (set_ratio n q t) = tid t" "tsplit (set_ratio n q t) = tsplit t"
  "tactive (set_ratio n q t) = tactive t" "tleft (set_ratio n q t) = set_ratio n q (tleft t)"
  "tright (set_ratio n q t) = set_ratio n q (tright t)" "is_leaf (set_ratio n q t) = is_leaf t"
  if "t \<noteq> NoTile"
  using that by (cases t; simp)+

lemma set_ratio_ids [simp]: "ids (set_ratio n q t) = ids t"
  by (induction t) simp_all

lemma set_ratio_windows [simp]: "window_ids (set_ratio n q t) = window_ids t"
  by (induction t) simp_all

lemma set_ratio_other [simp]: "n \<notin> set (ids t) \<Longrightarrow> set_ratio n q t = t"
  by (induction t) auto

lemma set_ratio_same_node [simp]: "same_node (set_ratio n q c) (set_ratio n q d) = same_node c d"
  by (cases c; cases d) simp_all

lemma path_to_set_ratio: "path_to m (set_ratio n q t) = map_option (map (set_ratio n q)) (path_to m t)"
  by (induction t) (auto split: option.splits)

lemma find_leaf_set_ratio [simp]: "find_leaf w (set_ratio n q t) = find_leaf w t"
  by (induction t) (auto split: option.splits)

lemma bounds_along_set_ratio:
  assumes "\<forall>x\<in>set xs. x \<noteq> NoTile" "\<forall>x\<in>set (butlast xs). tid x \<noteq> n"
  shows "bounds_along (map (set_ratio n q) xs) b gap = bounds_along xs b gap"
  using assms
proof (induction xs arbitrary: b rule: induct_list012)
  case (3 x y zs)
  have "tratio (set_ratio n q x) = tratio x" using "3.prems" by (cases x) auto
  with 3 show ?case by (auto simp: case_prod_unfold)
qed simp_all

lemma path_distinct: "path_to n t = Some p \<Longrightarrow> distinct (ids t) \<Longrightarrow> distinct (map tid p)"
proof (induction t arbitrary: p)
  case (Tile i w s r a lt rt)
  show ?case
  proof (cases "n = i")
    case False
    then obtain q u where "p = q @ [Tile i w s r a lt rt]" "path_to n u = Some q" "u = lt \<or> u = rt"
      using Tile.prems(1) by (auto split: option.splits)
    with Tile.IH Tile.prems(2) show ?thesis by (auto dest: path_elem)
  qed (use Tile.prems in auto)
qed simp

lemma path_inner: "path_to n t = Some p \<Longrightarrow> wf_tile t \<Longrightarrow> x \<in> set (tl p) \<Longrightarrow> \<not> is_leaf x"
proof (induction t arbitrary: p)
  case (Tile i w s r a lt rt)
  show ?case
  proof (cases "n = i")
    case False
    then obtain q u where q: "p = q @ [Tile i w s r a lt rt]" "path_to n u = Some q" "u = lt \<or> u = rt"
      using Tile.prems(1) by (auto split: option.splits)
    then have "s \<noteq> SplitNone" using Tile.prems(2) by auto
    moreover have "x \<in> set (tl q) \<or> x = Tile i w s r a lt rt"
      using q(1) Tile.prems(3) by (cases q) auto
    ultimately show ?thesis using q Tile.IH Tile.prems(2) by auto
  qed (use Tile.prems in auto)
qed simp

lemma bounds_along_total:
  "\<forall>x\<in>set (butlast xs). \<not> is_leaf x \<Longrightarrow> \<exists>r. bounds_along xs b gap = Some r"
  by (induction xs arbitrary: b rule: induct_list012) (auto simp: case_prod_unfold Let_def)

subsection \<open>The dragged edge\<close>

definition edge_pos :: "resize_edge \<Rightarrow> rect \<Rightarrow> int" where
  "edge_pos e r =
     (case e of EdgeRight \<Rightarrow> rx r + rw r | EdgeLeft \<Rightarrow> rx r
      | EdgeBottom \<Rightarrow> ry r + rh r | EdgeTop \<Rightarrow> ry r)"

text \<open>The divider a drag moves, and the positions the dragged edge can take.\<close>

definition divider_of :: "tile \<Rightarrow> int \<Rightarrow> resize_edge \<Rightarrow> tile option" where
  "divider_of t w e = Option.bind (Option.bind (find_leaf w t) (\<lambda>leaf. path_to leaf t)) (find_divider e)"

definition edge_range :: "tile \<Rightarrow> rect \<Rightarrow> resize_edge \<Rightarrow> int \<Rightarrow> int \<times> int" where
  "edge_range node rct e gap =
     (let v = edge_vertical e;
          origin = (if v then rx rct else ry rct); extent = (if v then rw rct else rh rct);
          shift = (if edge_far e then 0 else gap)
      in (origin + min_extent (tleft node) v gap + shift,
          origin + extent - gap - min_extent (tright node) v gap + shift))"

definition skipped :: "resize_edge \<Rightarrow> tile \<Rightarrow> tile \<Rightarrow> bool" where
  "skipped e c p \<longleftrightarrow> tsplit p = SplitStacked \<or> (tsplit p = SplitVertical) \<noteq> edge_vertical e
     \<or> edge_far e \<noteq> same_node c (tleft p)"

fun passes_up :: "resize_edge \<Rightarrow> tile list \<Rightarrow> bool" where
  "passes_up e (c # p # ps) = (skipped e c p \<and> passes_up e (p # ps))"
| "passes_up e _ = True"

lemma find_divider_split:
  "find_divider e p = Some node \<Longrightarrow> \<exists>pre cur post. p = pre @ cur # node # post
     \<and> tsplit node \<noteq> SplitStacked \<and> (tsplit node = SplitVertical) = edge_vertical e
     \<and> edge_far e = same_node cur (tleft node) \<and> passes_up e (pre @ [cur])"
proof (induction e p rule: find_divider.induct)
  case (1 e cur p ps)
  show ?case
  proof (cases "skipped e cur p")
    case True
    then have "find_divider e (p # ps) = Some node"
      using "1.prems" by (auto simp: skipped_def split: if_splits)
    with True "1.IH" obtain pre c post where *: "p # ps = pre @ c # node # post"
        "tsplit node \<noteq> SplitStacked" "(tsplit node = SplitVertical) = edge_vertical e"
        "edge_far e = same_node c (tleft node)" "passes_up e (pre @ [c])"
      by (auto simp: skipped_def split: if_splits) 
    have "passes_up e (cur # pre @ [c])" using * True by (cases pre) auto
    with * show ?thesis by (intro exI [of _ "cur # pre"] exI [of _ c] exI [of _ post]) auto
  next
    case False
    then have "node = p" using "1.prems" by (auto simp: skipped_def split: if_splits)
    with False show ?thesis
      by (intro exI [of _ "[]"] exI [of _ cur] exI [of _ ps]) (auto simp: skipped_def)
  qed
qed simp_all

lemma skipped_edge:
  assumes "skipped e c p" "edge_vertical e \<or> tsplit p \<noteq> SplitStacked"
  shows "edge_pos e (if same_node c (tleft p) then fst (child_bounds (tsplit p) q a r gap)
           else snd (child_bounds (tsplit p) q a r gap)) = edge_pos e r"
  using assms
  by (cases "tsplit p = SplitStacked"; cases "tsplit p = SplitVertical"; cases e)
    (auto simp: skipped_def edge_pos_def child_bounds.simps child_bounds_other Let_def)

lemma passes_edge:
  assumes "passes_up e xs" "edge_vertical e \<or> (\<forall>x\<in>set xs. tsplit x \<noteq> SplitStacked)"
    and "bounds_along (rev xs) r gap = Some y"
  shows "edge_pos e y = edge_pos e r"
  using assms
proof (induction xs arbitrary: y rule: induct_list012)
  case (3 c p ps)
  from "3.prems"(3) obtain z where z: "bounds_along (rev (p # ps)) r gap = Some z"
    "bounds_along [p, c] z gap = Some y"
    by (auto simp: bounds_along_append [of "rev ps" p "[c]"] bind_eq_Some_conv)
  then have "edge_pos e y = edge_pos e z"
    using skipped_edge [of e c p "tratio p" "tactive p" z gap] "3.prems"(1,2)
    by (auto simp: case_prod_unfold Let_def split: if_splits)
  also have "\<dots> = edge_pos e r" using "3.IH"(2) "3.prems" z(1) by auto
  finally show ?case .
qed simp_all

text \<open>At the resized node itself, the new ratio puts the dragged edge where it was asked for.\<close>

lemma divider_edge:
  fixes gap :: int
  assumes "s \<noteq> SplitStacked" "(s = SplitVertical) = edge_vertical e"
    and "origin = (if edge_vertical e then rx r else ry r)"
    and "extent = (if edge_vertical e then rw r else rh r)"
    and "1 \<le> line - origin" "line - origin \<le> extent - gap - 1" "0 \<le> gap" "extent \<le> 2 ^ 40"
  shows "edge_pos e (if edge_far e then fst (child_bounds s (centre_ratio (line - origin) extent) a r gap)
           else snd (child_bounds s (centre_ratio (line - origin) extent) a r gap)) =
         (if edge_far e then line else line + gap)"
proof -
  have c: "scale_cells extent (centre_ratio (line - origin) extent) = line - origin"
    using assms by (intro scale_cells_centre) auto
  show ?thesis
    using assms c
    by (cases e)
      (auto simp: edge_pos_def child_bounds.simps child_bounds_other vertical_split_def
        horizontal_split_def Let_def)
qed


text \<open>What a successful resize did.\<close>

lemma resize_split_SomeE:
  assumes "resize_split t w e pos b gap = Some t'"
  obtains leaf p node rct origin extent lo hi line where
    "find_leaf w t = Some leaf" "path_to leaf t = Some p" "find_divider e p = Some node"
    "node_bounds t (tid node) b gap = Some rct"
    "origin = (if edge_vertical e then rx rct else ry rct)"
    "extent = (if edge_vertical e then rw rct else rh rct)" "0 < extent"
    "lo = origin + min_extent (tleft node) (edge_vertical e) gap"
    "hi = origin + extent - gap - min_extent (tright node) (edge_vertical e) gap" "lo \<le> hi"
    "line = max lo (min (if edge_far e then pos else pos - gap) hi)"
    "t' = set_ratio (tid node) (centre_ratio (line - origin) extent) t"
proof -
  obtain leaf where leaf: "find_leaf w t = Some leaf"
    using assms by (cases "find_leaf w t") (auto simp: resize_split_def)
  then obtain node where node: "Option.bind (path_to leaf t) (find_divider e) = Some node"
    using assms by (cases "Option.bind (path_to leaf t) (find_divider e)") (auto simp: resize_split_def)
  then obtain rct where rct: "node_bounds t (tid node) b gap = Some rct"
    using assms leaf by (cases "node_bounds t (tid node) b gap") (auto simp: resize_split_def)
  from node obtain p where p: "path_to leaf t = Some p" "find_divider e p = Some node"
    by (auto simp: bind_eq_Some_conv)
  show thesis
    by (rule that [OF leaf p rct refl refl _ refl refl _ refl])
      (use assms leaf node rct in \<open>auto simp: resize_split_def Let_def split: if_splits\<close>)
qed

lemma resized_path_bounds:
  assumes t: "wf_tile t" "distinct (ids t)"
    and p: "path_to leaf t = Some (pre @ cur # node # post)"
    and rct: "node_bounds t (tid node) b gap = Some rct"
  obtains x where "node_bounds (set_ratio (tid node) q t) leaf b gap = Some x"
    "bounds_along (cur # rev pre) (if same_node cur (tleft node)
        then fst (child_bounds (tsplit node) q (tactive node) rct gap)
        else snd (child_bounds (tsplit node) q (tactive node) rct gap)) gap = Some x"
proof -
  let ?f = "set_ratio (tid node) q" and ?t' = "set_ratio (tid node) q t"
    and ?all = "pre @ cur # node # post"
  have ne: "\<forall>x\<in>set ?all. x \<noteq> NoTile" using p path_elem by blast
  have d: "distinct (map tid ?all)" by (rule path_distinct [OF p t(2)])
  have inner: "\<not> is_leaf x" if "x \<in> set (tl ?all)" for x using path_inner [OF p t(1) that] .
  have nl: "\<not> is_leaf node" by (rule inner) (cases pre; simp)
  have "path_to (tid node) t = Some (node # post)"
    using path_suffix [of leaf t "pre @ [cur]" node post] p t(2) by simp
  then have r1: "bounds_along (rev post @ [node]) b gap = Some rct"
    using rct by (simp add: node_bounds_def)
  have top: "bounds_along (map ?f (rev post @ [node])) b gap = Some rct"
    by (subst bounds_along_set_ratio) (use ne d r1 in \<open>auto simp: image_iff\<close>)
  let ?side = "if same_node cur (tleft node)
      then fst (child_bounds (tsplit node) q (tactive node) rct gap)
      else snd (child_bounds (tsplit node) q (tactive node) rct gap)"
  have fnode: "tratio (?f node) = q" using ne by (cases node) auto
  have "bounds_along (map ?f (node # cur # rev pre)) rct gap = bounds_along (map ?f (cur # rev pre)) ?side gap"
    using nl ne fnode by (simp add: case_prod_unfold Let_def del: set_ratio_same_node)
      (simp add: set_ratio_same_node)
  also have "\<dots> = bounds_along (cur # rev pre) ?side gap"
  proof (rule bounds_along_set_ratio)
    show "\<forall>x\<in>set (cur # rev pre). x \<noteq> NoTile" using ne by auto
    have "\<forall>x\<in>set (cur # rev pre). tid x \<noteq> tid node" using d by (auto simp: image_iff)
    then show "\<forall>x\<in>set (butlast (cur # rev pre)). tid x \<noteq> tid node" using in_set_butlastD by fast
  qed
  finally have low: "bounds_along (map ?f (node # cur # rev pre)) rct gap =
      bounds_along (cur # rev pre) ?side gap" .
  have "\<forall>x\<in>set (butlast (cur # rev pre)). \<not> is_leaf x"
    using inner by (cases pre) (auto simp: butlast_append)
  then obtain x where x: "bounds_along (cur # rev pre) ?side gap = Some x"
    using bounds_along_total by blast
  have "path_to leaf ?t' = Some (map ?f ?all)" by (simp add: path_to_set_ratio p)
  then have "node_bounds ?t' leaf b gap = bounds_along (map ?f (rev post) @ ?f node # map ?f (cur # rev pre)) b gap"
    by (simp add: node_bounds_def rev_map)
  also have "\<dots> = Option.bind (bounds_along (map ?f (rev post @ [node])) b gap)
      (\<lambda>r. bounds_along (map ?f (node # cur # rev pre)) r gap)"
    by (subst bounds_along_append) simp
  also have "\<dots> = Some x" by (simp only: top low x bind.bind_lunit)
  finally show thesis using x by (rule that)
qed

text \<open>
  C3. \<^verbatim>\<open>ResizeSplit\<close> puts the dragged edge of the window exactly where the drag asked for, clamped
  to the range in which both subtrees of the divider keep their minimum extents. The float
  round trip of the stored ratio is part of the statement: no cell is lost.
\<close>

theorem resize_moves_edge:
  assumes "resize_split t w e pos b gap = Some t'"
    and "wf_tile t" "distinct (ids t)" "0 \<le> gap"
    and "edge_vertical e \<or> no_stacked t"
    and "divider_of t w e = Some node" "node_bounds t (tid node) b gap = Some rct"
    and "rw rct \<le> 2 ^ 40" "rh rct \<le> 2 ^ 40"
  shows "\<exists>leaf x. find_leaf w t' = Some leaf \<and> node_bounds t' leaf b gap = Some x \<and>
    edge_pos e x = max (fst (edge_range node rct e gap)) (min pos (snd (edge_range node rct e gap)))"
proof -
  obtain leaf p node' rct' origin extent lo hi line where
    r: "find_leaf w t = Some leaf" "path_to leaf t = Some p" "find_divider e p = Some node'"
    "node_bounds t (tid node') b gap = Some rct'"
    "origin = (if edge_vertical e then rx rct' else ry rct')"
    "extent = (if edge_vertical e then rw rct' else rh rct')" "0 < extent"
    "lo = origin + min_extent (tleft node') (edge_vertical e) gap"
    "hi = origin + extent - gap - min_extent (tright node') (edge_vertical e) gap" "lo \<le> hi"
    "line = max lo (min (if edge_far e then pos else pos - gap) hi)"
    "t' = set_ratio (tid node') (centre_ratio (line - origin) extent) t"
    by (rule resize_split_SomeE [OF assms(1)])
  have eq: "node' = node" "rct' = rct" using assms(6,7) r(1-4) by (auto simp: divider_of_def)
  obtain pre cur post where d: "p = pre @ cur # node # post"
      "tsplit node \<noteq> SplitStacked" "(tsplit node = SplitVertical) = edge_vertical e"
      "edge_far e = same_node cur (tleft node)" "passes_up e (pre @ [cur])"
    using find_divider_split [OF r(3)] eq by blast
  have p: "path_to leaf t = Some (pre @ cur # node # post)" using r(2) d(1) by simp
  have wfn: "wf_tile node" using path_wf [OF p] assms(2) by simp
  have "tsplit node \<noteq> SplitNone"
    using path_inner [OF p assms(2), of node] wfn by (cases node; cases pre) auto
  then have mins: "5 \<le> min_extent (tleft node) v gap" "5 \<le> min_extent (tright node) v gap" for v
    using wf_children [OF wfn] min_extent_ge assms(4) by blast+
  let ?q = "centre_ratio (line - origin) extent"
  let ?side = "if same_node cur (tleft node)
      then fst (child_bounds (tsplit node) ?q (tactive node) rct gap)
      else snd (child_bounds (tsplit node) ?q (tactive node) rct gap)"
  obtain x where x: "node_bounds t' leaf b gap = Some x" "bounds_along (cur # rev pre) ?side gap = Some x"
    using resized_path_bounds [OF assms(2,3) p assms(7), of ?q] r(12) eq by metis
  have "edge_vertical e \<or> (\<forall>y\<in>set (pre @ [cur]). tsplit y \<noteq> SplitStacked)"
  proof (cases "edge_vertical e")
    case False
    then have "no_stacked y \<and> y \<noteq> NoTile" if "y \<in> set (pre @ [cur])" for y
      using that path_no_stacked [OF p, of y] path_elem [OF p, of y] assms(5) by auto
    then have "tsplit y \<noteq> SplitStacked" if "y \<in> set (pre @ [cur])" for y
      using that by (cases y) fastforce+
    then show ?thesis by blast
  qed simp
  then have "edge_pos e x = edge_pos e ?side"
    using passes_edge [OF d(5)] x(2) by simp
  also have "\<dots> = (if edge_far e then line else line + gap)"
    unfolding d(4) [symmetric] using d(2,3) r(5-11) eq mins [of "edge_vertical e"] assms(4,8,9)
    by (intro divider_edge) auto
  also have "\<dots> = max (fst (edge_range node rct e gap)) (min pos (snd (edge_range node rct e gap)))"
    using r(5,6,8-11) eq by (auto simp: edge_range_def Let_def)
  finally show ?thesis using x(1) r(1,12) by auto
qed

lemma demo_wf: "wf_tile demo_tree"
  by code_simp

lemma demo_ids: "distinct (ids demo_tree)"
  by code_simp

definition demo_resized :: tile where
  "demo_resized = the (resize_split demo_tree 7 EdgeRight 29 demo_bounds 1)"

lemma demo_resize: "resize_split demo_tree 7 EdgeRight 29 demo_bounds 1 = Some demo_resized"
  by code_simp

lemma demo_divider: "divider_of demo_tree 7 EdgeRight = Some demo_tree"
  by code_simp

lemma demo_divider_bounds: "node_bounds demo_tree (tid demo_tree) demo_bounds 1 = Some demo_bounds"
  by code_simp

theorem resize_moves_edge_witness:
  "\<exists>leaf x. find_leaf 7 demo_resized = Some leaf \<and> node_bounds demo_resized leaf demo_bounds 1 = Some x
     \<and> rx x + rw x = 29"
proof -
  have "max (fst (edge_range demo_tree demo_bounds EdgeRight 1))
      (min 29 (snd (edge_range demo_tree demo_bounds EdgeRight 1))) = 29" by code_simp
  with resize_moves_edge [OF demo_resize demo_wf demo_ids _ _ demo_divider demo_divider_bounds]
  show ?thesis by (simp add: edge_pos_def demo_bounds_def)
qed

subsection \<open>What a resize leaves alone\<close>

fun subtree :: "nat \<Rightarrow> tile \<Rightarrow> tile option" where
  "subtree n NoTile = None"
| "subtree n (Tile i w s r a lt rt) =
     (if n = i then Some (Tile i w s r a lt rt)
      else case subtree n lt of Some x \<Rightarrow> Some x | None \<Rightarrow> subtree n rt)"

lemma subtree_None: "subtree n t = None \<longleftrightarrow> n \<notin> set (ids t)"
  by (induction t) (auto split: option.splits)

lemma path_to_nonempty: "path_to n t \<noteq> Some []"
  by (cases t) (auto split: option.splits)

lemma path_to_subtree: "path_to n t = Some (x # p) \<Longrightarrow> subtree n t = Some x"
proof (induction t arbitrary: p)
  case (Tile i w s r a lt rt)
  show ?case
  proof (cases "n = i")
    case False
    then obtain q u where q: "q @ [Tile i w s r a lt rt] = x # p" "path_to n u = Some q"
        "u = lt \<or> path_to n lt = None \<and> u = rt"
      using Tile.prems by (auto split: option.splits)
    then obtain p' where "q = x # p'" using path_to_nonempty [of n u] by (cases q) auto
    with q Tile.IH have "subtree n u = Some x" by auto
    moreover have "path_to n lt = None \<longleftrightarrow> subtree n lt = None"
      by (simp add: path_to_None subtree_None)
    ultimately show ?thesis using q(3) False by (auto split: option.splits)
  qed (use Tile.prems in auto)
qed simp

lemma parts_set_ratio_outside:
  assumes "subtree n t = Some node" "distinct (ids t)" "v \<notin> set (window_ids node)"
  shows "(v, x) \<in> set (parts (set_ratio n q t) b gap) \<longleftrightarrow> (v, x) \<in> set (parts t b gap)"
  using assms
proof (induction t arbitrary: b)
  case (Tile i w s r a lt rt)
  show ?case
  proof (cases "n = i")
    case True
    then have "v \<notin> set (window_ids (Tile i w s r a lt rt))"
      "v \<notin> set (window_ids (set_ratio n q (Tile i w s r a lt rt)))"
      using Tile.prems by (auto simp del: window_ids.simps)
    then show ?thesis unfolding map_fst_parts [of _ b gap, symmetric] by force
  next
    case False
    then consider "subtree n lt = Some node" | "subtree n lt = None" "subtree n rt = Some node"
      using Tile.prems(1) by (auto split: option.splits)
    then show ?thesis
    proof cases
      case 1
      then have "n \<in> set (ids lt)" using subtree_None by (metis option.distinct(1))
      then have "set_ratio n q rt = rt" using Tile.prems(2) by (intro set_ratio_other) auto
      then show ?thesis using 1 False Tile by simp
    next
      case 2
      then have "set_ratio n q lt = lt" by (intro set_ratio_other) (simp add: subtree_None)
      then show ?thesis using 2 False Tile by simp
    qed
  qed
qed simp

text \<open>
  C9. A resize moves nothing outside the split whose divider it drags: a window that is not under
  that node is laid out in the same rectangle before and after, and the set of windows is the same.
\<close>

theorem resize_is_local:
  assumes "resize_split t w e pos b gap = Some t'" "distinct (ids t)"
    and "divider_of t w e = Some node" "v \<notin> set (window_ids node)"
    and "fits t b gap" "fits t' b gap" "distinct (window_ids t)"
  shows "apply_layout t' b gap v = apply_layout t b gap v \<and> window_ids t' = window_ids t"
proof -
  obtain leaf p node' q where r: "find_leaf w t = Some leaf" "path_to leaf t = Some p"
      "find_divider e p = Some node'" "t' = set_ratio (tid node') q t"
    by (rule resize_split_SomeE [OF assms(1)]) blast
  with assms(3) have "node' = node" by (simp add: divider_of_def)
  obtain pre cur post where p: "p = pre @ cur # node # post"
    using find_divider_split [OF r(3)] \<open>node' = node\<close> by blast
  have "path_to (tid node) t = Some (node # post)"
    using path_suffix [of leaf t "pre @ [cur]" node post] r(2) p assms(2) by simp
  then have "subtree (tid node) t = Some node" by (rule path_to_subtree)
  then have "(v, x) \<in> set (parts t' b gap) \<longleftrightarrow> (v, x) \<in> set (parts t b gap)" for x
    using parts_set_ratio_outside [OF _ assms(2,4)] r(4) \<open>node' = node\<close> by simp
  then have "apply_layout t' b gap v = Some x \<longleftrightarrow> apply_layout t b gap v = Some x" for x
    using layout_some_parts [OF assms(5,7)] layout_some_parts [OF assms(6)] assms(7) r(4) by simp
  then show ?thesis using r(4) by (metis not_None_eq set_ratio_windows)
qed

theorem resize_is_local_witness:
  "apply_layout (the (resize_split demo_tree 8 EdgeBottom 12 demo_bounds 1)) demo_bounds 1 7 =
   Some (mk_rect 0 0 50 40)"
proof -
  let ?t = "the (resize_split demo_tree 8 EdgeBottom 12 demo_bounds 1)"
  have r: "resize_split demo_tree 8 EdgeBottom 12 demo_bounds 1 = Some ?t" by code_simp
  have d: "divider_of demo_tree 8 EdgeBottom = Some (tright demo_tree)" by code_simp
  have "7 \<notin> set (window_ids (tright demo_tree))" "fits ?t demo_bounds 1" by code_simp+
  then have "apply_layout ?t demo_bounds 1 7 = apply_layout demo_tree demo_bounds 1 7"
    using resize_is_local [OF r demo_ids d _ demo_fits _ demo_distinct, of 7] by blast
  also have "\<dots> = Some (mk_rect 0 0 50 40)" by (simp add: demo_layout)
  finally show ?thesis .
qed


subsection \<open>Reading ratios back\<close>

lemma child_bounds_left_origin:
  "rx (fst (child_bounds s r a b gap)) = rx b \<and> ry (fst (child_bounds s r a b gap)) = ry b"
  by (cases "s = SplitStacked"; cases "s = SplitVertical")
    (auto simp: child_bounds.simps child_bounds_other Let_def)

text \<open>The window read for a subtree is its first leaf, which sits at the subtree's origin.\<close>

lemma any_window_first:
  assumes "fits t b gap" "- 1 \<notin> set (window_ids t)"
  shows "any_window t \<noteq> - 1 \<and> (\<exists>x. (any_window t, x) \<in> set (parts t b gap) \<and> rx x = rx b \<and> ry x = ry b)"
  using assms
proof (induction t b gap rule: parts.induct)
  case (2 i w s r a lt rt b gap)
  show ?case
  proof (cases "s = SplitNone")
    case False
    with 2 show ?thesis using child_bounds_left_origin [of s r a b gap] by (auto simp: Let_def)
  qed (use 2 in auto)
qed simp

lemma known_rect_origin:
  assumes "fits t b gap" "- 1 \<notin> set (window_ids t)" "\<forall>(w, x)\<in>set (parts t b gap). ws w = Some x"
  shows "\<exists>x. known_rect t ws = Some x \<and> rx x = rx b \<and> ry x = ry b"
  using any_window_first [OF assms(1,2)] assms(3) by (auto simp: known_rect_def Let_def)

lemma sync_rec_id:
  assumes "fits t b gap" "- 1 \<notin> set (window_ids t)" "\<forall>(w, x)\<in>set (parts t b gap). ws w = Some x"
  shows "sync_ratios_rec t b ws gap = t"
  using assms
proof (induction t arbitrary: b)
  case (Tile i w s r a lt rt)
  obtain lb rb where cb: "child_bounds s r a b gap = (lb, rb)" by fastforce
  show ?case
  proof (cases "s = SplitNone")
    case False
    have l: "fits lt lb gap" "- 1 \<notin> set (window_ids lt)" "\<forall>(w, x)\<in>set (parts lt lb gap). ws w = Some x"
      and r: "fits rt rb gap" "- 1 \<notin> set (window_ids rt)" "\<forall>(w, x)\<in>set (parts rt rb gap). ws w = Some x"
      using Tile.prems False cb by auto
    have IH: "sync_ratios_rec lt lb ws gap = lt" "sync_ratios_rec rt rb ws gap = rt"
      using Tile.IH l r by blast+
    obtain x where x: "known_rect rt ws = Some x" "rx x = rx rb" "ry x = ry rb"
      using known_rect_origin [OF r] by blast
    consider "s = SplitStacked" | "s = SplitVertical" | "s \<noteq> SplitStacked" "s \<noteq> SplitVertical" by blast
    then show ?thesis
    proof cases
      case 1
      with cb IH show ?thesis by (auto simp: child_bounds.simps mk_rect_def Let_def split: if_splits)
    next
      case 2
      with cb x have "vertical_line lt rt ws gap = Some (rx lb + rw lb)"
        by (auto simp: vertical_line_def child_bounds.simps Let_def)
      with 2 cb IH show ?thesis by simp
    next
      case 3
      with cb x have "horizontal_line lt rt ws gap = Some (ry lb + rh lb)"
        by (auto simp: horizontal_line_def child_bounds_other Let_def)
      with 3 False cb IH show ?thesis by simp
    qed
  qed simp
qed simp

text \<open>
  Synchronising a tree with the geometry it was itself laid out to changes nothing: no ratio
  drifts, whatever the number of passes.
\<close>

lemma sync_of_own_layout:
  assumes "fits t b gap" "distinct (window_ids t)" "- 1 \<notin> set (window_ids t)"
  shows "sync_ratios t (apply_layout t b gap) b gap = t"
proof -
  have "\<forall>(w, x)\<in>set (parts t b gap). apply_layout t b gap w = Some x"
    by (auto simp: layout_some_parts [OF assms(1,2)])
  then show ?thesis using sync_rec_id [OF assms(1,3)] by (simp add: sync_ratios_def)
qed

lemma sync_of_own_layout_witness:
  "sync_ratios demo_tree (apply_layout demo_tree demo_bounds 1) demo_bounds 1 = demo_tree"
proof -
  have "- 1 \<notin> set (window_ids demo_tree)" by code_simp
  with sync_of_own_layout [OF demo_fits demo_distinct] show ?thesis by blast
qed

text \<open>Two panes side by side without a separator, whose shared edge was dragged to column 29.\<close>

definition pair_tree :: tile where
  "pair_tree = Tile 3 (- 1) SplitVertical (1 / 2) False
     (Tile 1 7 SplitNone (1 / 2) False NoTile NoTile)
     (Tile 2 8 SplitNone (1 / 2) False NoTile NoTile)"

definition dragged_geometry :: "int \<rightharpoonup> rect" where
  "dragged_geometry = [7 \<mapsto> mk_rect 0 0 29 40, 8 \<mapsto> mk_rect 29 0 71 40]"

text \<open>
  When the geometry does disagree, the ratio read back is the quotient of the cell counts, not
  the middle of the cell, and the layout truncates: a divider that sits at column 29 of 100 comes
  back at column 28 after one synchronisation and layout (29 / 100 times 100 is below 29 in float64).
\<close>

lemma sync_loses_a_cell:
  "apply_layout (sync_ratios pair_tree dragged_geometry demo_bounds 0) demo_bounds 0 7 =
     Some (mk_rect 0 0 28 40) \<and>
   resize_split pair_tree 7 EdgeRight 29 demo_bounds 0 \<noteq> None \<and>
   apply_layout (the (resize_split pair_tree 7 EdgeRight 29 demo_bounds 0)) demo_bounds 0 7 =
     Some (mk_rect 0 0 29 40)"
  by (intro conjI; code_simp)

end
