(* ===== verification/BspSerial.thy ===== *)
theory BspSerial
  imports BspResize
begin

text \<open>
  Cloning and serialising a BSP tree. Both give every node a fresh identifier and rebuild the
  \<^verbatim>\<open>WindowToNode\<close> index; both forget which child of a stacked split is active.
\<close>

subsection \<open>The tree record\<close>

record bsp_tree =
  bt_root :: tile
  bt_index :: "int \<rightharpoonup> nat"
  bt_scheme :: auto_scheme
  bt_ratio :: f64

definition new_bsp_tree :: bsp_tree where
  "new_bsp_tree = \<lparr>bt_root = NoTile, bt_index = Map.empty, bt_scheme = SchemeSpiral, bt_ratio = 1 / 2\<rparr>"

definition equalize_tree :: "bsp_tree \<Rightarrow> bsp_tree" where
  "equalize_tree t = t\<lparr>bt_root := equalize_ratios (bt_root t)\<rparr>"

subsection \<open>Clone\<close>

text \<open>
  The second argument is the last identifier given out by \<^verbatim>\<open>newNodeID\<close>, the third the index being
  built. The clone does not copy \<^verbatim>\<open>StackedActiveLeft\<close>, so it is false.
\<close>

fun clone_node :: "tile \<Rightarrow> nat \<Rightarrow> (int \<rightharpoonup> nat) \<Rightarrow> tile \<times> nat \<times> (int \<rightharpoonup> nat)" where
  "clone_node NoTile c m = (NoTile, c, m)"
| "clone_node (Tile i w s r a lt rt) c m =
     (if s = SplitNone then (Tile (c + 1) w s r False NoTile NoTile, c + 1, m(w \<mapsto> c + 1))
      else let (lt', c1, m1) = clone_node lt (c + 1) m; (rt', c2, m2) = clone_node rt c1 m1
           in (Tile (c + 1) w s r False lt' rt', c2, m2))"

definition clone_tree :: "bsp_tree \<Rightarrow> nat \<Rightarrow> bsp_tree \<times> nat" where
  "clone_tree t c =
     (let (rt, c', m) = (if bt_root t = NoTile then (NoTile, c, Map.empty)
                         else clone_node (bt_root t) c Map.empty)
      in (\<lparr>bt_root = rt, bt_index = m, bt_scheme = bt_scheme t, bt_ratio = bt_ratio t\<rparr>, c'))"

subsection \<open>Serialised form\<close>

datatype snode = NoSNode
  | SNode (sn_window: int) (sn_split: int) (sn_ratio: f64) (sn_left: snode) (sn_right: snode)

record serialized_tree =
  st_root :: snode
  st_scheme :: int
  st_ratio :: f64

fun serialize_node :: "tile \<Rightarrow> snode" where
  "serialize_node NoTile = NoSNode"
| "serialize_node (Tile i w s r a lt rt) =
     SNode w (int_of_split s) r (serialize_node lt) (serialize_node rt)"

definition serialize_tree :: "bsp_tree \<Rightarrow> serialized_tree" where
  "serialize_tree t = \<lparr>st_root = serialize_node (bt_root t),
     st_scheme = int_of_scheme (bt_scheme t), st_ratio = bt_ratio t\<rparr>"

fun deserialize_node :: "snode \<Rightarrow> nat \<Rightarrow> (int \<rightharpoonup> nat) \<Rightarrow> tile \<times> nat \<times> (int \<rightharpoonup> nat)" where
  "deserialize_node NoSNode c m = (NoTile, c, m)"
| "deserialize_node (SNode w n r ls rs) c m =
     (let m0 = (if split_of_int n = SplitNone \<and> w \<ge> 0 then m(w \<mapsto> c + 1) else m);
          (lt, c1, m1) = deserialize_node ls (c + 1) m0;
          (rt, c2, m2) = deserialize_node rs c1 m1
      in (Tile (c + 1) w (split_of_int n) r False lt rt, c2, m2))"

text \<open>\<open>None\<close> is the nil pointer.\<close>

definition deserialize_tree :: "serialized_tree option \<Rightarrow> nat \<Rightarrow> bsp_tree \<times> nat" where
  "deserialize_tree so c =
     (case so of None \<Rightarrow> (new_bsp_tree, c)
      | Some s \<Rightarrow>
        (let (rt, c', m) = deserialize_node (st_root s) c Map.empty
         in (\<lparr>bt_root = rt, bt_index = m, bt_scheme = scheme_of_int (st_scheme s),
              bt_ratio = st_ratio s\<rparr>, c')))"

subsection \<open>What survives\<close>

text \<open>\<open>SplitOther\<close> and \<open>SchemeOther\<close> are used for integers without a name only.\<close>

fun named_splits :: "tile \<Rightarrow> bool" where
  "named_splits NoTile = True"
| "named_splits (Tile i w s r a lt rt) =
     (split_of_int (int_of_split s) = s \<and> named_splits lt \<and> named_splits rt)"

lemma int_of_split_inject:
  "split_of_int (int_of_split s) = s \<Longrightarrow> split_of_int (int_of_split s') = s' \<Longrightarrow>
   int_of_split s = int_of_split s' \<longleftrightarrow> s = s'"
  by metis

lemma int_of_split_of_int [simp]: "int_of_split (split_of_int n) = n"
  by (simp add: split_of_int_def)

lemma int_of_scheme_of_int [simp]: "int_of_scheme (scheme_of_int n) = n"
  by (simp add: scheme_of_int_def)

lemma clone_serialize:
  "wf_tile t \<Longrightarrow> clone_node t c m = (t', c', m') \<Longrightarrow> serialize_node t' = serialize_node t"
proof (induction t arbitrary: c m t' c' m')
  case (Tile i w s r a lt rt)
  then show ?case by (cases "s = SplitNone") (auto simp: Let_def split: prod.splits)
qed simp

lemma deserialize_SNodeE:
  assumes "deserialize_node (SNode w n r ls rs) c m = (t', c', m')"
  obtains lt rt c1 m0 m1 where
    "m0 = (if split_of_int n = SplitNone \<and> w \<ge> 0 then m(w \<mapsto> c + 1) else m)"
    "deserialize_node ls (c + 1) m0 = (lt, c1, m1)" "deserialize_node rs c1 m1 = (rt, c', m')"
    "t' = Tile (c + 1) w (split_of_int n) r False lt rt"
proof -
  let ?m0 = "if split_of_int n = SplitNone \<and> w \<ge> 0 then m(w \<mapsto> c + 1) else m"
  obtain lt c1 m1 where 1: "deserialize_node ls (c + 1) ?m0 = (lt, c1, m1)" by (rule prod_cases3)
  obtain rt c2 m2 where 2: "deserialize_node rs c1 m1 = (rt, c2, m2)" by (rule prod_cases3)
  show thesis by (rule that [OF refl 1]) (use assms 1 2 in \<open>auto simp: Let_def\<close>)
qed

lemma deserialize_serialize:
  "deserialize_node sn c m = (t', c', m') \<Longrightarrow> serialize_node t' = sn"
proof (induction sn arbitrary: c m t' c' m')
  case (SNode w n r ls rs)
  from SNode.prems show ?case by (rule deserialize_SNodeE) (use SNode.IH in auto)
qed simp

text \<open>Identifiers do not matter to the layout, nor does the active child of a split that is not stacked.\<close>

lemma serialize_layout:
  assumes "serialize_node t' = serialize_node t" "named_splits t" "named_splits t'" "no_stacked t"
  shows "apply_layout_rec t' b gap m = apply_layout_rec t b gap m"
  using assms
proof (induction t arbitrary: t' b m)
  case NoTile
  then show ?case by (cases t') simp_all
next
  case (Tile i w s r a lt rt)
  obtain i' w' s' r' a' lt' rt' where t': "t' = Tile i' w' s' r' a' lt' rt'"
    using Tile.prems(1) by (cases t') auto
  then have eqs: "w' = w" "int_of_split s' = int_of_split s" "r' = r"
    "serialize_node lt' = serialize_node lt" "serialize_node rt' = serialize_node rt"
    using Tile.prems(1) by simp_all
  then have s: "s' = s" using Tile.prems(2,3) t' by (metis named_splits.simps(2))
  obtain lb rb where cb: "child_bounds s r a b gap = (lb, rb)" by fastforce
  then have cb': "child_bounds s r a' b gap = (lb, rb)"
    using Tile.prems(4) by (cases "s = SplitVertical") (simp_all add: child_bounds.simps child_bounds_other)
  have "apply_layout_rec lt' lb gap m = apply_layout_rec lt lb gap m" for m
    using Tile.IH(1) [OF eqs(4)] Tile.prems(2-4) t' by simp
  moreover have "apply_layout_rec rt' rb gap m = apply_layout_rec rt rb gap m" for m
    using Tile.IH(2) [OF eqs(5)] Tile.prems(2-4) t' by simp
  ultimately show ?case using eqs s cb cb' by (simp add: t')
qed

lemma deserialize_named: "deserialize_node sn c m = (t', c', m') \<Longrightarrow> named_splits t'"
proof (induction sn arbitrary: c m t' c' m')
  case (SNode w n r ls rs)
  from SNode.prems show ?case by (rule deserialize_SNodeE) (use SNode.IH in auto)
qed simp

text \<open>
  C10. Saving and restoring: the restored tree serialises to the same bytes, and unless the tree
  holds a stacked split it lays every window out exactly as the original did.
\<close>

theorem serialize_roundtrip:
  assumes "deserialize_tree (Some (serialize_tree t)) c = (t', c')" "named_splits (bt_root t)"
    and "no_stacked (bt_root t)"
  shows "serialize_tree t' = serialize_tree t \<and>
    apply_layout (bt_root t') b gap = apply_layout (bt_root t) b gap"
proof -
  obtain rt m where d: "deserialize_node (serialize_node (bt_root t)) c Map.empty = (rt, c', m)"
    and t': "t' = \<lparr>bt_root = rt, bt_index = m, bt_scheme = scheme_of_int (int_of_scheme (bt_scheme t)),
      bt_ratio = bt_ratio t\<rparr>"
    using assms(1) by (auto simp: deserialize_tree_def serialize_tree_def Let_def split: prod.splits)
  have s: "serialize_node rt = serialize_node (bt_root t)" by (rule deserialize_serialize [OF d])
  then have "rt = NoTile \<longleftrightarrow> bt_root t = NoTile" by (cases rt; cases "bt_root t") simp_all
  with serialize_layout [OF s assms(2) deserialize_named [OF d] assms(3)] s show ?thesis
    by (simp add: t' serialize_tree_def apply_layout_def)
qed

definition demo_bsp :: bsp_tree where
  "demo_bsp = \<lparr>bt_root = demo_tree, bt_index = [7 \<mapsto> 2, 8 \<mapsto> 4, 9 \<mapsto> 6], bt_scheme = SchemeSpiral,
     bt_ratio = 1 / 2\<rparr>"

theorem serialize_roundtrip_witness:
  "apply_layout (bt_root (fst (deserialize_tree (Some (serialize_tree demo_bsp)) 40))) demo_bounds 1 8 =
   Some (mk_rect 51 0 49 20)"
proof -
  let ?d = "deserialize_tree (Some (serialize_tree demo_bsp)) 40"
  have "named_splits (bt_root demo_bsp)" "no_stacked (bt_root demo_bsp)"
    by code_simp+
  with conjunct2 [OF serialize_roundtrip [OF prod.collapse [symmetric]], of demo_bsp 40 demo_bounds 1]
  have "apply_layout (bt_root (fst ?d)) demo_bounds 1 = apply_layout demo_tree demo_bounds 1"
    by (simp only: demo_bsp_def bsp_tree.simps)
  then show ?thesis by (simp only: demo_layout) simp
qed

subsection \<open>Fresh identifiers and the rebuilt index\<close>

lemma serialize_shape:
  assumes "serialize_node t' = serialize_node t" "named_splits t" "named_splits t'" "wf_tile t"
  shows "wf_tile t' \<and> window_ids t' = window_ids t"
  using assms
proof (induction t arbitrary: t')
  case (Tile i w s r a lt rt)
  obtain i' w' s' r' a' lt' rt' where t': "t' = Tile i' w' s' r' a' lt' rt'"
    using Tile.prems(1) by (cases t') auto
  then have eqs: "w' = w" "int_of_split s' = int_of_split s"
    "serialize_node lt' = serialize_node lt" "serialize_node rt' = serialize_node rt"
    using Tile.prems(1) by simp_all
  then have s: "s' = s" using Tile.prems(2,3) t' by (metis named_splits.simps(2))
  show ?case
  proof (cases "s = SplitNone")
    case True
    with Tile.prems(4) have "lt = NoTile" "rt = NoTile" by simp_all
    with eqs have "lt' = NoTile" "rt' = NoTile" by (cases lt'; cases rt'; simp)+
    with True s eqs t' show ?thesis by simp
  next
    case False
    with Tile.IH(1) [OF eqs(3)] Tile.IH(2) [OF eqs(4)] Tile.prems s t' show ?thesis by simp
  qed
qed simp

lemma deserialize_fresh:
  "deserialize_node sn c m = (t, c', m') \<Longrightarrow>
   c \<le> c' \<and> distinct (ids t) \<and> (\<forall>i\<in>set (ids t). c < i \<and> i \<le> c')"
proof (induction sn arbitrary: c m t c' m')
  case (SNode w n r ls rs)
  from SNode.prems show ?case
  proof (rule deserialize_SNodeE)
    fix lt rt c1 m0 m1
    assume l: "deserialize_node ls (c + 1) m0 = (lt, c1, m1)" and r: "deserialize_node rs c1 m1 = (rt, c', m')"
      and t: "t = Tile (c + 1) w (split_of_int n) r False lt rt"
    from SNode.IH(1) [OF l] SNode.IH(2) [OF r] show ?thesis by (fastforce simp: t)
  qed
qed simp

lemma find_leaf_None: "find_leaf w t = None \<longleftrightarrow> w \<notin> set (window_ids t)"
  by (induction t) (auto split: option.splits)

lemma deserialize_index:
  "deserialize_node sn c m = (t, c', m') \<Longrightarrow> wf_tile t \<or> t = NoTile \<Longrightarrow> distinct (window_ids t) \<Longrightarrow>
   \<forall>w\<in>set (window_ids t). 0 \<le> w \<Longrightarrow>
   m' v = (case find_leaf v t of Some i \<Rightarrow> Some i | None \<Rightarrow> m v)"
proof (induction sn arbitrary: c m t c' m')
  case (SNode w n r ls rs)
  from SNode.prems(1) show ?case
  proof (rule deserialize_SNodeE)
    fix lt rt c1 m0 m1
    assume m0: "m0 = (if split_of_int n = SplitNone \<and> w \<ge> 0 then m(w \<mapsto> c + 1) else m)"
      and l: "deserialize_node ls (c + 1) m0 = (lt, c1, m1)" and r: "deserialize_node rs c1 m1 = (rt, c', m')"
      and t: "t = Tile (c + 1) w (split_of_int n) r False lt rt"
    show ?thesis
    proof (cases "split_of_int n = SplitNone")
      case True
      with SNode.prems(2) t have "lt = NoTile" "rt = NoTile" by auto
      then have "ls = NoSNode" "rs = NoSNode"
        using deserialize_serialize [OF l] deserialize_serialize [OF r] by auto
      with True SNode.prems(4) l r m0 t show ?thesis by auto
    next
      case False
      with SNode.prems t have p: "wf_tile lt" "wf_tile rt" "distinct (window_ids lt)" "distinct (window_ids rt)"
        "\<forall>w\<in>set (window_ids lt). 0 \<le> w" "\<forall>w\<in>set (window_ids rt). 0 \<le> w"
        "set (window_ids lt) \<inter> set (window_ids rt) = {}" by auto
      have "m' v = (case find_leaf v rt of Some i \<Rightarrow> Some i | None \<Rightarrow> m1 v)"
        "m1 v = (case find_leaf v lt of Some i \<Rightarrow> Some i | None \<Rightarrow> m0 v)"
        using SNode.IH(1) [OF l] SNode.IH(2) [OF r] p by simp_all
      moreover have "find_leaf v lt = None \<or> find_leaf v rt = None"
        using p(7) by (auto simp: find_leaf_None)
      ultimately show ?thesis using False t m0 by (auto split: option.splits)
    qed
  qed
qed simp

text \<open>
  The restored index is the restored tree: every node has an identifier of its own that was not
  in use before, and \<^verbatim>\<open>WindowToNode\<close> maps a window to its leaf, and nothing else.
\<close>

lemma restored_index:
  assumes "deserialize_tree (Some (serialize_tree t)) c = (t', c')"
    and "wf_tile (bt_root t)" "named_splits (bt_root t)"
    and "distinct (window_ids (bt_root t))" "\<forall>w\<in>set (window_ids (bt_root t)). 0 \<le> w"
  shows "distinct (ids (bt_root t')) \<and> (\<forall>i\<in>set (ids (bt_root t')). c < i \<and> i \<le> c')
    \<and> window_ids (bt_root t') = window_ids (bt_root t)
    \<and> bt_index t' w = find_leaf w (bt_root t')"
proof -
  obtain rt m where d: "deserialize_node (serialize_node (bt_root t)) c Map.empty = (rt, c', m)"
    and t': "bt_root t' = rt" "bt_index t' = m"
    using assms(1) by (auto simp: deserialize_tree_def serialize_tree_def Let_def split: prod.splits)
  have s: "wf_tile rt \<and> window_ids rt = window_ids (bt_root t)"
    by (rule serialize_shape [OF deserialize_serialize [OF d] assms(3) deserialize_named [OF d] assms(2)])
  then have "m w = (case find_leaf w rt of Some i \<Rightarrow> Some i | None \<Rightarrow> None)"
    using deserialize_index [OF d] assms(4,5) by simp
  then have "m w = find_leaf w rt" by (simp split: option.splits)
  with s deserialize_fresh [OF d] show ?thesis by (simp add: t')
qed

lemma restored_index_witness:
  "bt_index (fst (deserialize_tree (Some (serialize_tree demo_bsp)) 40)) 8 =
   find_leaf 8 (bt_root (fst (deserialize_tree (Some (serialize_tree demo_bsp)) 40)))"
proof -
  let ?d = "deserialize_tree (Some (serialize_tree demo_bsp)) 40"
  have "wf_tile (bt_root demo_bsp)" "named_splits (bt_root demo_bsp)"
    "distinct (window_ids (bt_root demo_bsp))" "\<forall>w\<in>set (window_ids (bt_root demo_bsp)). 0 \<le> w"
    by code_simp+
  with restored_index [of demo_bsp 40 "fst ?d" "snd ?d" 8] show ?thesis by simp
qed

subsection \<open>Clones\<close>

lemma clone_fresh:
  "clone_node t c m = (t', c', m') \<Longrightarrow>
   c \<le> c' \<and> distinct (ids t') \<and> (\<forall>i\<in>set (ids t'). c < i \<and> i \<le> c')"
proof (induction t arbitrary: c m t' c' m')
  case (Tile i w s r a lt rt)
  show ?case
  proof (cases "s = SplitNone")
    case False
    obtain l' c1 m1 where l: "clone_node lt (c + 1) m = (l', c1, m1)" by (rule prod_cases3)
    obtain r' c2 m2 where r: "clone_node rt c1 m1 = (r', c2, m2)" by (rule prod_cases3)
    from Tile.prems False l r have "t' = Tile (c + 1) w s r False l' r'" "c' = c2" by simp_all
    with Tile.IH(1) [OF l] Tile.IH(2) [OF r] show ?thesis by fastforce
  qed (use Tile.prems in auto)
qed simp

lemma clone_named: "clone_node t c m = (t', c', m') \<Longrightarrow> named_splits t \<Longrightarrow> named_splits t'"
proof (induction t arbitrary: c m t' c' m')
  case (Tile i w s r a lt rt)
  show ?case
  proof (cases "s = SplitNone")
    case False
    obtain l' c1 m1 where l: "clone_node lt (c + 1) m = (l', c1, m1)" by (rule prod_cases3)
    obtain r' c2 m2 where r: "clone_node rt c1 m1 = (r', c2, m2)" by (rule prod_cases3)
    from Tile.prems False l r have "t' = Tile (c + 1) w s r False l' r'" by simp
    with Tile.IH(1) [OF l] Tile.IH(2) [OF r] Tile.prems(2) show ?thesis by simp
  qed (use Tile.prems in auto)
qed simp

text \<open>
  C11. A clone is laid out like the original (outside stacked splits), and shares no node identifier
  with it: every identifier of the clone was handed out by this call.
\<close>

theorem clone_same_layout:
  assumes "clone_tree t c = (t', c')" "wf_tile (bt_root t)" "named_splits (bt_root t)"
    and "no_stacked (bt_root t)"
  shows "apply_layout (bt_root t') b gap = apply_layout (bt_root t) b gap
    \<and> distinct (ids (bt_root t')) \<and> (\<forall>i\<in>set (ids (bt_root t')). c < i \<and> i \<le> c')"
proof -
  have ne: "bt_root t \<noteq> NoTile" using assms(2) by auto
  then obtain m where d: "clone_node (bt_root t) c Map.empty = (bt_root t', c', m)"
    using assms(1) by (auto simp: clone_tree_def Let_def split: prod.splits)
  have s: "serialize_node (bt_root t') = serialize_node (bt_root t)"
    by (rule clone_serialize [OF assms(2) d])
  then have "bt_root t' \<noteq> NoTile" using ne by (cases "bt_root t") auto
  moreover have "named_splits (bt_root t')"
    using clone_named [OF d] assms(3) by simp
  ultimately show ?thesis
    using serialize_layout [OF s assms(3) _ assms(4)] clone_fresh [OF d] ne by (simp add: apply_layout_def)
qed

theorem clone_same_layout_witness:
  "apply_layout (bt_root (fst (clone_tree demo_bsp 6))) demo_bounds 1 9 = Some (mk_rect 51 21 49 19)"
proof -
  let ?d = "clone_tree demo_bsp 6"
  have "wf_tile (bt_root demo_bsp)" "named_splits (bt_root demo_bsp)" "no_stacked (bt_root demo_bsp)"
    by code_simp+
  with conjunct1 [OF clone_same_layout [OF prod.collapse [symmetric]], of demo_bsp 6 demo_bounds 1]
  have "apply_layout (bt_root (fst ?d)) demo_bounds 1 = apply_layout demo_tree demo_bounds 1"
    by (simp only: demo_bsp_def bsp_tree.simps)
  then show ?thesis by (simp only: demo_layout) simp
qed

definition stacked_bsp :: bsp_tree where
  "stacked_bsp = \<lparr>bt_root = Tile 3 (- 1) SplitStacked (1 / 2) True
       (Tile 1 7 SplitNone (1 / 2) False NoTile NoTile)
       (Tile 2 8 SplitNone (1 / 2) False NoTile NoTile),
     bt_index = [7 \<mapsto> 1, 8 \<mapsto> 2], bt_scheme = SchemeSpiral, bt_ratio = 1 / 2\<rparr>"

text \<open>
  A stacked split does not survive a clone or a save: the original shows its left child, the
  copy its right child.
\<close>

lemma stacked_split_not_preserved:
  "apply_layout (bt_root stacked_bsp) demo_bounds 1 7 = Some (mk_rect 0 0 100 39) \<and>
   apply_layout (bt_root (fst (clone_tree stacked_bsp 3))) demo_bounds 1 7 = Some (mk_rect 0 0 100 1) \<and>
   apply_layout (bt_root (fst (deserialize_tree (Some (serialize_tree stacked_bsp)) 3))) demo_bounds 1 7 =
     Some (mk_rect 0 0 100 1)"
  by (intro conjI; code_simp)

end
