(* ===== verification/WindowRegistry.thy ===== *)
theory WindowRegistry
  imports Prelude
begin

text \<open>
  The contract between the window manager and a layout, whatever the layout is: opening a window
  adds it, closing one removes it and nothing else, and both keep the layout's own invariant.
  The BSP tree and the scrolling strip both provide it. An event carries whatever the layout needs
  to place a new window (the focused window, a direction, a width).
\<close>

datatype 'p window_event = Opened 'p int | Closed int

definition layout_step ::
    "('p \<Rightarrow> int \<Rightarrow> 's \<Rightarrow> 's) \<Rightarrow> (int \<Rightarrow> 's \<Rightarrow> 's) \<Rightarrow> 's \<Rightarrow> 'p window_event \<Rightarrow> 's" where
  "layout_step added dropped s e = (case e of Opened p w \<Rightarrow> added p w s | Closed w \<Rightarrow> dropped w s)"

text \<open>The windows an event history leaves open.\<close>

definition set_step :: "int set \<Rightarrow> 'p window_event \<Rightarrow> int set" where
  "set_step W e = (case e of Opened p w \<Rightarrow> insert w W | Closed w \<Rightarrow> W - {w})"

text \<open>A history a window manager produces: the number of a new window is not in use.\<close>

fun fresh_opens :: "int set \<Rightarrow> 'p window_event list \<Rightarrow> bool" where
  "fresh_opens W [] = True"
| "fresh_opens W (e # es) =
     ((case e of Opened p w \<Rightarrow> w \<notin> W | Closed w \<Rightarrow> True) \<and> fresh_opens (set_step W e) es)"

locale window_registry =
  fixes invar :: "'s \<Rightarrow> bool"
    and windows :: "'s \<Rightarrow> int set"
    and added :: "'p \<Rightarrow> int \<Rightarrow> 's \<Rightarrow> 's"
    and dropped :: "int \<Rightarrow> 's \<Rightarrow> 's"
  assumes added_invar: "invar s \<Longrightarrow> w \<notin> windows s \<Longrightarrow> invar (added p w s)"
    and added_windows: "invar s \<Longrightarrow> w \<notin> windows s \<Longrightarrow> windows (added p w s) = insert w (windows s)"
    and dropped_invar: "invar s \<Longrightarrow> invar (dropped w s)"
    and dropped_windows: "invar s \<Longrightarrow> windows (dropped w s) = windows s - {w}"
begin

lemma step_sound:
  assumes "invar s" "fresh_opens (windows s) [e]"
  shows "invar (layout_step added dropped s e)
    \<and> windows (layout_step added dropped s e) = set_step (windows s) e"
  using assms
  by (cases e) (simp_all add: layout_step_def set_step_def added_invar added_windows dropped_invar
      dropped_windows)

lemma run_sound:
  "invar s \<Longrightarrow> fresh_opens (windows s) es \<Longrightarrow>
   invar (foldl (layout_step added dropped) s es)
   \<and> windows (foldl (layout_step added dropped) s es) = foldl set_step (windows s) es"
proof (induction es arbitrary: s)
  case (Cons e es)
  then have "invar (layout_step added dropped s e)
      \<and> windows (layout_step added dropped s e) = set_step (windows s) e"
    by (intro step_sound) auto
  with Cons show ?case by auto
qed simp

end

end
