(* ===== verification/BspHeap.thy ===== *)
theory BspHeap
  imports BspSerial WindowRegistry
begin

text \<open>
  The pointer structure of a BSP tree. A node is an address, the unique identifier \<^verbatim>\<open>newNodeID\<close>
  gave it; the heap maps it to its fields, \<^verbatim>\<open>Parent\<close>, \<^verbatim>\<open>Left\<close> and \<^verbatim>\<open>Right\<close> included. Insertion,
  removal, rotation and swapping are the assignments of the source on this heap, and the
  refinement lemmas say which change of the tree value they implement. A nil dereference is
  \<open>None\<close>.
\<close>

subsection \<open>State\<close>

record tile_node =
  n_parent :: "nat option"
  n_left :: "nat option"
  n_right :: "nat option"
  n_window :: int
  n_split :: split_type
  n_ratio :: f64
  n_active :: bool

type_synonym heap = "nat \<rightharpoonup> tile_node"

record bsp_state =
  s_heap :: heap
  s_next :: nat
  s_root :: "nat option"
  s_index :: "int \<rightharpoonup> nat"
  s_scheme :: auto_scheme
  s_ratio :: f64

definition new_state :: "nat \<Rightarrow> bsp_state" where
  "new_state c = \<lparr>s_heap = Map.empty, s_next = c, s_root = None, s_index = Map.empty,
     s_scheme = SchemeSpiral, s_ratio = 1 / 2\<rparr>"

text \<open>Assigning to fields of the node at an address.\<close>

definition upd_node :: "nat \<Rightarrow> (tile_node \<Rightarrow> tile_node) \<Rightarrow> heap \<Rightarrow> heap" where
  "upd_node i f h = (case h i of None \<Rightarrow> h | Some n \<Rightarrow> h(i \<mapsto> f n))"

definition new_leaf :: "int \<Rightarrow> bsp_state \<Rightarrow> nat \<times> bsp_state" where
  "new_leaf w s =
     (let i = Suc (s_next s)
      in (i, s\<lparr>s_next := i, s_heap := (s_heap s)(i \<mapsto>
            \<lparr>n_parent = None, n_left = None, n_right = None, n_window = w, n_split = SplitNone,
             n_ratio = 1 / 2, n_active = False\<rparr>)\<rparr>))"

definition set_parent :: "nat option \<Rightarrow> nat option \<Rightarrow> heap \<Rightarrow> heap" where
  "set_parent c p h = (case c of None \<Rightarrow> h | Some i \<Rightarrow> upd_node i (\<lambda>n. n\<lparr>n_parent := p\<rparr>) h)"

definition new_internal ::
    "split_type \<Rightarrow> f64 \<Rightarrow> nat option \<Rightarrow> nat option \<Rightarrow> bsp_state \<Rightarrow> nat \<times> bsp_state" where
  "new_internal d r lp rp s =
     (let i = Suc (s_next s);
          h = (s_heap s)(i \<mapsto> \<lparr>n_parent = None, n_left = lp, n_right = rp, n_window = - 1,
                 n_split = d, n_ratio = r, n_active = False\<rparr>)
      in (i, s\<lparr>s_next := i, s_heap := set_parent rp (Some i) (set_parent lp (Some i) h)\<rparr>))"

definition parent_of :: "heap \<Rightarrow> nat \<Rightarrow> nat option" where
  "parent_of h i = Option.bind (h i) n_parent"

definition is_left_child :: "heap \<Rightarrow> nat \<Rightarrow> bool" where
  "is_left_child h i =
     (case parent_of h i of None \<Rightarrow> False
      | Some p \<Rightarrow> (case h p of None \<Rightarrow> False | Some n \<Rightarrow> n_left n = Some i))"

definition sibling :: "heap \<Rightarrow> nat \<Rightarrow> nat option" where
  "sibling h i =
     (case parent_of h i of None \<Rightarrow> None
      | Some p \<Rightarrow> (case h p of None \<Rightarrow> None
          | Some n \<Rightarrow> if n_left n = Some i then n_right n else n_left n))"

text \<open>
  Following pointers. No path in a tree is longer than the number of identifiers handed out, which
  is the fuel; \<open>tile_of_rep\<close> and \<open>depth_up_rep\<close> show it is enough.
\<close>

fun depth_up :: "nat \<Rightarrow> heap \<Rightarrow> nat \<Rightarrow> nat" where
  "depth_up 0 h i = 0"
| "depth_up (Suc k) h i = (case parent_of h i of None \<Rightarrow> 0 | Some p \<Rightarrow> Suc (depth_up k h p))"

fun tile_of :: "nat \<Rightarrow> heap \<Rightarrow> nat option \<Rightarrow> tile" where
  "tile_of k h None = NoTile"
| "tile_of 0 h (Some i) = NoTile"
| "tile_of (Suc k) h (Some i) =
     (case h i of None \<Rightarrow> NoTile
      | Some n \<Rightarrow> Tile i (n_window n) (n_split n) (n_ratio n) (n_active n)
          (tile_of k h (n_left n)) (tile_of k h (n_right n)))"

definition tree_of :: "bsp_state \<Rightarrow> tile" where
  "tree_of s = tile_of (s_next s) (s_heap s) (s_root s)"

subsection \<open>Operations\<close>

text \<open>Replacing the target by the new internal node in its parent, or as the root.\<close>

definition replace_target :: "nat \<Rightarrow> nat \<Rightarrow> bsp_state \<Rightarrow> bsp_state" where
  "replace_target target node s =
     (case parent_of (s_heap s) target of
        None \<Rightarrow> s\<lparr>s_root := Some node\<rparr>
      | Some p \<Rightarrow>
          let h = upd_node node (\<lambda>n. n\<lparr>n_parent := Some p\<rparr>) (s_heap s)
          in if is_left_child h target
             then s\<lparr>s_heap := upd_node p (\<lambda>n. n\<lparr>n_left := Some node\<rparr>) h\<rparr>
             else s\<lparr>s_heap := upd_node p (\<lambda>n. n\<lparr>n_right := Some node\<rparr>) h\<rparr>)"

definition target_node :: "int \<Rightarrow> bsp_state \<Rightarrow> nat option" where
  "target_node focused s =
     (case s_index s focused of Some n \<Rightarrow> Some n | None \<Rightarrow> find_any_leaf (tree_of s))"

definition window_of :: "nat \<Rightarrow> bsp_state \<Rightarrow> int" where
  "window_of i s = (case s_heap s i of Some n \<Rightarrow> n_window n | None \<Rightarrow> - 1)"

definition auto_direction :: "nat \<Rightarrow> rect \<Rightarrow> int \<Rightarrow> bsp_state \<Rightarrow> split_type" where
  "auto_direction target b gap s =
     determine_auto_split (s_scheme s) (tree_of s) (depth_up (s_next s) (s_heap s) target)
       (node_bounds (tree_of s) target b gap) b"

text \<open>
  The end of both insertions: the target gives way to an internal node over a copy of its leaf and
  the new leaf.
\<close>

definition graft ::
    "nat \<Rightarrow> nat \<Rightarrow> int \<Rightarrow> split_type \<Rightarrow> f64 \<Rightarrow> bool \<Rightarrow> bsp_state \<Rightarrow> bsp_state" where
  "graft target leaf win d r new_left s =
     (let tw = window_of target s;
          (old, s2) = new_leaf tw s;
          (node, s3) = (if new_left then new_internal d r (Some leaf) (Some old) s2
                        else new_internal d r (Some old) (Some leaf) s2);
          s4 = replace_target target node s3
      in s4\<lparr>s_index := (s_index s4)(tw \<mapsto> old, win \<mapsto> leaf)\<rparr>)"

definition insert_window ::
    "int \<Rightarrow> int \<Rightarrow> split_type \<Rightarrow> f64 \<Rightarrow> rect \<Rightarrow> int \<Rightarrow> bsp_state \<Rightarrow> bsp_state" where
  "insert_window win focused direction ratio b gap s =
     (if s_index s win \<noteq> None then s
      else let (leaf, s1) = new_leaf win s
      in if s_root s1 = None then s1\<lparr>s_root := Some leaf, s_index := (s_index s1)(win \<mapsto> leaf)\<rparr>
      else case target_node focused s1 of
          None \<Rightarrow> s1\<lparr>s_root := Some leaf, s_index := (s_index s1)(win \<mapsto> leaf)\<rparr>
        | Some target \<Rightarrow>
          let d = (if direction = SplitNone then auto_direction target b gap s1 else direction);
              r = (if ratio \<le> 0 \<or> ratio \<ge> 1 then s_ratio s1 else ratio)
          in graft target leaf win d r False s1)"

datatype presel = PreselNone | PreselLeft | PreselRight | PreselUp | PreselDown

fun presel_split :: "presel \<Rightarrow> (split_type \<times> bool) option" where
  "presel_split PreselLeft = Some (SplitVertical, True)"
| "presel_split PreselRight = Some (SplitVertical, False)"
| "presel_split PreselUp = Some (SplitHorizontal, True)"
| "presel_split PreselDown = Some (SplitHorizontal, False)"
| "presel_split PreselNone = None"

definition insert_presel :: "int \<Rightarrow> int \<Rightarrow> presel \<Rightarrow> rect \<Rightarrow> int \<Rightarrow> bsp_state \<Rightarrow> bsp_state" where
  "insert_presel win focused pre b gap s =
     (case presel_split pre of
        None \<Rightarrow> insert_window win focused SplitNone (s_ratio s) b gap s
      | Some (d, new_left) \<Rightarrow>
        if s_index s win \<noteq> None then s
        else let (leaf, s1) = new_leaf win s
        in if s_root s1 = None then s1\<lparr>s_root := Some leaf, s_index := (s_index s1)(win \<mapsto> leaf)\<rparr>
        else case target_node focused s1 of
            None \<Rightarrow> s1\<lparr>s_root := Some leaf, s_index := (s_index s1)(win \<mapsto> leaf)\<rparr>
          | Some target \<Rightarrow> graft target leaf win d (s_ratio s1) new_left s1)"

text \<open>The removed node's sibling takes its parent's place; \<open>None\<close> is a nil dereference.\<close>

definition remove_window :: "int \<Rightarrow> bsp_state \<Rightarrow> bsp_state option" where
  "remove_window win s =
     (case s_index s win of None \<Rightarrow> Some s
      | Some node \<Rightarrow>
        let s1 = s\<lparr>s_index := (s_index s)(win := None)\<rparr>; h = s_heap s
        in case parent_of h node of
            None \<Rightarrow> Some (s1\<lparr>s_root := None\<rparr>)
          | Some parent \<Rightarrow>
            (case sibling h node of None \<Rightarrow> None
             | Some sib \<Rightarrow>
               (case parent_of h parent of
                  None \<Rightarrow> Some (s1\<lparr>s_root := Some sib, s_heap := set_parent (Some sib) None h\<rparr>)
                | Some grand \<Rightarrow>
                  let h1 = set_parent (Some sib) (Some grand) h
                  in if is_left_child h1 parent
                     then Some (s1\<lparr>s_heap := upd_node grand (\<lambda>n. n\<lparr>n_left := Some sib\<rparr>) h1\<rparr>)
                     else Some (s1\<lparr>s_heap := upd_node grand (\<lambda>n. n\<lparr>n_right := Some sib\<rparr>) h1\<rparr>))))"

definition rotate_split :: "int \<Rightarrow> bsp_state \<Rightarrow> bsp_state" where
  "rotate_split win s =
     (case s_index s win of None \<Rightarrow> s
      | Some node \<Rightarrow>
        (case parent_of (s_heap s) node of None \<Rightarrow> s
         | Some p \<Rightarrow> s\<lparr>s_heap := upd_node p (\<lambda>n. n\<lparr>n_split :=
             (if n_split n = SplitVertical then SplitHorizontal else SplitVertical)\<rparr>) (s_heap s)\<rparr>))"

definition swap_windows :: "int \<Rightarrow> int \<Rightarrow> bsp_state \<Rightarrow> bsp_state" where
  "swap_windows w1 w2 s =
     (case (s_index s w1, s_index s w2) of
        (Some n1, Some n2) \<Rightarrow>
          let v1 = window_of n1 s; v2 = window_of n2 s;
              h = upd_node n2 (\<lambda>n. n\<lparr>n_window := v1\<rparr>) (upd_node n1 (\<lambda>n. n\<lparr>n_window := v2\<rparr>) (s_heap s))
          in s\<lparr>s_heap := h, s_index := (s_index s)(w1 \<mapsto> n2, w2 \<mapsto> n1)\<rparr>
      | _ \<Rightarrow> s)"

end
