(* ===== verification/BspRefine.thy ===== *)
theory BspRefine
  imports BspHeap
begin

text \<open>
  The heap implements the trees. \<open>rep h p t\<close> says that the nodes of \<open>t\<close> are in the heap with the
  links they need, the root's parent being \<open>p\<close>; \<open>tree_inv\<close> adds the invariant of a whole BSP tree:
  identifiers and windows occur once, the index is the tree's own. Every operation that assigns to
  pointers keeps it and implements one replacement of a subtree.
\<close>

subsection \<open>Representation\<close>

fun root_id :: "tile \<Rightarrow> nat option" where
  "root_id NoTile = None"
| "root_id (Tile i w s r a lt rt) = Some i"

fun rep :: "heap \<Rightarrow> nat option \<Rightarrow> tile \<Rightarrow> bool" where
  "rep h p NoTile = True"
| "rep h p (Tile i w s r a lt rt) =
     (h i = Some \<lparr>n_parent = p, n_left = root_id lt, n_right = root_id rt, n_window = w,
        n_split = s, n_ratio = r, n_active = a\<rparr> \<and> rep h (Some i) lt \<and> rep h (Some i) rt)"

lemma rep_frame: "rep h p t \<Longrightarrow> \<forall>i\<in>set (ids t). h' i = h i \<Longrightarrow> rep h' p t"
  by (induction t arbitrary: p) auto

lemma rep_dom: "rep h p t \<Longrightarrow> i \<in> set (ids t) \<Longrightarrow> h i \<noteq> None"
  by (induction t arbitrary: p) auto

lemma root_id_in: "root_id t = Some n \<Longrightarrow> n \<in> set (ids t)"
  by (cases t) auto

lemma root_id_None [simp]: "root_id t = None \<longleftrightarrow> t = NoTile"
  by (cases t) auto

text \<open>The link to the parent of a node, \<open>p\<close> for the root.\<close>

fun parent_in :: "nat option \<Rightarrow> nat \<Rightarrow> tile \<Rightarrow> nat option" where
  "parent_in p n NoTile = None"
| "parent_in p n (Tile i w s r a lt rt) =
     (if n = i then p else if n \<in> set (ids lt) then parent_in (Some i) n lt else parent_in (Some i) n rt)"

lemma rep_parent: "rep h p t \<Longrightarrow> n \<in> set (ids t) \<Longrightarrow> parent_of h n = parent_in p n t"
  by (induction t arbitrary: p) (auto simp: parent_of_def)

lemma rep_subtree: "rep h p t \<Longrightarrow> subtree n t = Some u \<Longrightarrow> rep h (parent_in p n t) u"
proof (induction t arbitrary: p)
  case (Tile i w s r a lt rt)
  have "n \<in> set (ids lt) \<longleftrightarrow> subtree n lt \<noteq> None" by (simp add: subtree_None)
  with Tile show ?case by (auto split: option.splits if_splits)
qed simp

lemma subtree_SomeD: "subtree n t = Some u \<Longrightarrow> n \<in> set (ids t) \<and> root_id u = Some n \<and> u \<noteq> NoTile
    \<and> set (ids u) \<subseteq> set (ids t) \<and> (distinct (ids t) \<longrightarrow> distinct (ids u))"
  by (induction t) (auto split: option.splits if_splits)

lemma subtree_wf: "subtree n t = Some u \<Longrightarrow> wf_tile t \<Longrightarrow> wf_tile u"
  by (induction t) (auto split: option.splits if_splits)

lemma parent_in_cases:
  "n \<in> set (ids t) \<Longrightarrow> parent_in p n t = (if root_id t = Some n then p else parent_in None n t)
     \<and> (root_id t \<noteq> Some n \<longrightarrow> (\<exists>q\<in>set (ids t). parent_in p n t = Some q))"
proof (induction t arbitrary: p)
  case (Tile i w s r a lt rt)
  then show ?case by (cases lt; cases rt) (auto split: if_splits)
qed simp

subsection \<open>Replacing a subtree\<close>

fun replace :: "nat \<Rightarrow> tile \<Rightarrow> tile \<Rightarrow> tile" where
  "replace n u NoTile = NoTile"
| "replace n u (Tile i w s r a lt rt) =
     (if i = n then u else Tile i w s r a (replace n u lt) (replace n u rt))"

lemma replace_other [simp]: "n \<notin> set (ids t) \<Longrightarrow> replace n u t = t"
  by (induction t) auto

lemma root_replace: "root_id (replace n u t) = (if root_id t = Some n then root_id u else root_id t)"
  by (cases t) auto

text \<open>The child pointer of the parent that pointed to \<open>n\<close>.\<close>

definition relink :: "nat \<Rightarrow> nat option \<Rightarrow> tile_node \<Rightarrow> tile_node" where
  "relink n c nd = (if n_left nd = Some n then nd\<lparr>n_left := c\<rparr> else nd\<lparr>n_right := c\<rparr>)"

lemma rep_replace:
  assumes "rep h p t" "subtree n t = Some old" "distinct (ids t)"
    and "\<forall>i\<in>set (ids t) - set (ids old). parent_in p n t \<noteq> Some i \<longrightarrow> h' i = h i"
    and "\<forall>q\<in>set (ids t). parent_in p n t = Some q \<longrightarrow> h' q = map_option (relink n (root_id u)) (h q)"
    and "rep h' (parent_in p n t) u"
  shows "rep h' p (replace n u t)"
  using assms
proof (induction t arbitrary: p)
  case (Tile i w s r a lt rt)
  show ?case
  proof (cases "n = i")
    case False
    then consider (l) "subtree n lt = Some old" "n \<in> set (ids lt)" "n \<notin> set (ids rt)"
      | (r) "subtree n rt = Some old" "n \<in> set (ids rt)" "n \<notin> set (ids lt)"
      using Tile.prems(2,3) subtree_SomeD subtree_None by (fastforce split: option.splits)
    then show ?thesis
    proof cases
      case l
      let ?q = "parent_in (Some i) n lt"
      have pq: "parent_in p n (Tile i w s r a lt rt) = ?q" using l False by simp
      have o: "set (ids old) \<subseteq> set (ids lt)" using subtree_SomeD [OF l(1)] by blast
      have q: "?q = (if root_id lt = Some n then Some i else ?q)"
        "root_id lt \<noteq> Some n \<Longrightarrow> \<exists>q\<in>set (ids lt). ?q = Some q"
        using parent_in_cases [OF l(2), of "Some i"] by (simp, blast)
      have rr: "?q \<noteq> Some j" if "j \<in> set (ids rt)" for j
        using q that Tile.prems(3) by (cases "root_id lt = Some n") auto
      have "rep h' (Some i) (replace n u lt)"
        using Tile.prems l o unfolding pq by (intro Tile.IH(1)) simp_all
      moreover have "\<forall>j\<in>set (ids rt). h' j = h j"
      proof
        fix j
        assume j: "j \<in> set (ids rt)"
        with o Tile.prems(3) have "j \<in> set (ids (Tile i w s r a lt rt)) - set (ids old)" by auto
        then show "h' j = h j" using Tile.prems(4) rr [OF j] unfolding pq by blast
      qed
      then have "rep h' (Some i) rt" by (rule rep_frame [rotated]) (use Tile.prems(1) in simp)
      moreover have "h' i = Some \<lparr>n_parent = p, n_left = root_id (replace n u lt), n_right = root_id rt,
          n_window = w, n_split = s, n_ratio = r, n_active = a\<rparr>"
      proof (cases "root_id lt = Some n")
        case True
        then have "h' i = map_option (relink n (root_id u)) (h i)"
          using Tile.prems(5) q pq by (metis ids.simps(2) list.set_intros(1))
        with True Tile.prems(1) show ?thesis by (simp add: relink_def root_replace)
      next
        case ne: False
        then have "?q \<noteq> Some i" using q Tile.prems(3) by auto
        moreover have "i \<notin> set (ids old)" using o Tile.prems(3) by auto
        ultimately have "h' i = h i" using Tile.prems(4) unfolding pq by simp
        with ne Tile.prems(1) show ?thesis by (simp add: root_replace)
      qed
      ultimately show ?thesis using False l by simp
    next
      case r
      let ?q = "parent_in (Some i) n rt"
      have pq: "parent_in p n (Tile i w s r a lt rt) = ?q" using r False by simp
      have o: "set (ids old) \<subseteq> set (ids rt)" using subtree_SomeD [OF r(1)] by blast
      have q: "?q = (if root_id rt = Some n then Some i else ?q)"
        "root_id rt \<noteq> Some n \<Longrightarrow> \<exists>q\<in>set (ids rt). ?q = Some q"
        using parent_in_cases [OF r(2), of "Some i"] by (simp, blast)
      have ll: "?q \<noteq> Some j" if "j \<in> set (ids lt)" for j
        using q that Tile.prems(3) by (cases "root_id rt = Some n") auto
      have "rep h' (Some i) (replace n u rt)"
        using Tile.prems r o unfolding pq by (intro Tile.IH(2)) simp_all
      moreover have "\<forall>j\<in>set (ids lt). h' j = h j"
      proof
        fix j
        assume j: "j \<in> set (ids lt)"
        with o Tile.prems(3) have "j \<in> set (ids (Tile i w s r a lt rt)) - set (ids old)" by auto
        then show "h' j = h j" using Tile.prems(4) ll [OF j] unfolding pq by blast
      qed
      then have "rep h' (Some i) lt" by (rule rep_frame [rotated]) (use Tile.prems(1) in simp)
      moreover have "h' i = Some \<lparr>n_parent = p, n_left = root_id lt, n_right = root_id (replace n u rt),
          n_window = w, n_split = s, n_ratio = r, n_active = a\<rparr>"
      proof (cases "root_id rt = Some n")
        case True
        then have "h' i = map_option (relink n (root_id u)) (h i)"
          using Tile.prems(5) q pq by (metis ids.simps(2) list.set_intros(1))
        moreover have "root_id lt \<noteq> Some n" using r(3) root_id_in by blast
        ultimately show ?thesis using True Tile.prems(1) by (simp add: relink_def root_replace)
      next
        case ne: False
        then have "?q \<noteq> Some i" using q Tile.prems(3) by auto
        moreover have "i \<notin> set (ids old)" using o Tile.prems(3) by auto
        ultimately have "h' i = h i" using Tile.prems(4) unfolding pq by simp
        with ne Tile.prems(1) show ?thesis by (simp add: root_replace)
      qed
      ultimately show ?thesis using False r by simp
    qed
  qed (use Tile.prems(6) in simp)
qed simp

text \<open>Replacing splices the lists of identifiers and windows at one place.\<close>

lemma replace_splice:
  assumes "subtree n t = Some old" "wf_tile t" "distinct (ids t)"
  shows "\<exists>xs ys. window_ids t = xs @ window_ids old @ ys \<and> (\<forall>u. window_ids (replace n u t) = xs @ window_ids u @ ys)"
    and "\<exists>xs ys. ids t = xs @ ids old @ ys \<and> (\<forall>u. ids (replace n u t) = xs @ ids u @ ys)"
proof -
  have "(\<exists>xs ys. window_ids t = xs @ window_ids old @ ys \<and> (\<forall>u. window_ids (replace n u t) = xs @ window_ids u @ ys))
    \<and> (\<exists>xs ys. ids t = xs @ ids old @ ys \<and> (\<forall>u. ids (replace n u t) = xs @ ids u @ ys))"
    (is "?W t \<and> ?I t") using assms
  proof (induction t)
    case (Tile i w s r a lt rt)
    show ?case
    proof (cases "n = i")
      case True
      with Tile.prems(1) show ?thesis by (intro conjI exI [of _ "[]"]) auto
    next
      case False
      then consider "subtree n lt = Some old" "n \<in> set (ids lt)" | "subtree n rt = Some old" "n \<in> set (ids rt)"
        using Tile.prems(1) subtree_SomeD by (fastforce split: option.splits)
      then show ?thesis
      proof cases
        case 1
        then have s: "s \<noteq> SplitNone" using Tile.prems(2) by auto
        have o: "replace n u rt = rt" for u using 1 Tile.prems(3) by (intro replace_other) auto
        have "?W lt \<and> ?I lt" using Tile.IH(1) [OF 1(1)] Tile.prems(2,3) s by simp
        then obtain xs ys xs' ys' where
          "window_ids lt = xs @ window_ids old @ ys" "\<forall>u. window_ids (replace n u lt) = xs @ window_ids u @ ys"
          "ids lt = xs' @ ids old @ ys'" "\<forall>u. ids (replace n u lt) = xs' @ ids u @ ys'"
          by (elim conjE exE) (rule that)
        with s o False show ?thesis
          by (intro conjI exI [of _ xs] exI [of _ "ys @ window_ids rt"] exI [of _ "i # xs'"]
              exI [of _ "ys' @ ids rt"]) auto
      next
        case 2
        then have s: "s \<noteq> SplitNone" using Tile.prems(2) by auto
        have o: "replace n u lt = lt" for u using 2 Tile.prems(3) by (intro replace_other) auto
        have "?W rt \<and> ?I rt" using Tile.IH(2) [OF 2(1)] Tile.prems(2,3) s by simp
        then obtain xs ys xs' ys' where
          "window_ids rt = xs @ window_ids old @ ys" "\<forall>u. window_ids (replace n u rt) = xs @ window_ids u @ ys"
          "ids rt = xs' @ ids old @ ys'" "\<forall>u. ids (replace n u rt) = xs' @ ids u @ ys'"
          by (elim conjE exE) (rule that)
        with s o False show ?thesis
          by (intro conjI exI [of _ "window_ids lt @ xs"] exI [of _ ys] exI [of _ "i # ids lt @ xs'"]
              exI [of _ ys']) auto
      qed
    qed
  qed simp
  then show "?W t" "?I t" by blast+
qed

lemma replace_wf: "wf_tile t \<Longrightarrow> wf_tile u \<Longrightarrow> wf_tile (replace n u t)"
  by (induction t) auto

text \<open>The index after a replacement.\<close>

lemma find_leaf_subtree:
  "subtree n t = Some old \<Longrightarrow> distinct (window_ids t) \<Longrightarrow> wf_tile t \<Longrightarrow> v \<in> set (window_ids old) \<Longrightarrow>
   find_leaf v t = find_leaf v old"
proof (induction t)
  case (Tile i w s r a lt rt)
  show ?case
  proof (cases "n = i \<or> s = SplitNone")
    case False
    then consider "subtree n lt = Some old" | "subtree n lt = None" "subtree n rt = Some old"
      using Tile.prems(1) by (auto split: option.splits)
    then show ?thesis
    proof cases
      case 1
      with False Tile have "find_leaf v lt = find_leaf v old" by auto
      moreover have "find_leaf v old \<noteq> None" using Tile.prems(4) by (simp add: find_leaf_None)
      ultimately show ?thesis using False by auto
    next
      case 2
      with False Tile have r: "find_leaf v rt = find_leaf v old" by auto
      moreover have "find_leaf v old \<noteq> None" using Tile.prems(4) by (simp add: find_leaf_None)
      ultimately have "v \<in> set (window_ids rt)" using find_leaf_None by metis
      then have "find_leaf v lt = None" using Tile.prems(2) False by (auto simp: find_leaf_None)
      with r False show ?thesis by simp
    qed
  qed (use Tile.prems in \<open>auto split: option.splits if_splits\<close>)
qed simp

lemma find_leaf_replace_other:
  assumes "subtree n t = Some old" "v \<notin> set (window_ids old)" "v \<notin> set (window_ids u)" "distinct (ids t)"
    "wf_tile t"
  shows "find_leaf v (replace n u t) = find_leaf v t"
  using assms
proof (induction t)
  case (Tile i w s r a lt rt)
  show ?case
  proof (cases "n = i \<or> s = SplitNone")
    case False
    then consider "subtree n lt = Some old" "n \<notin> set (ids rt)" | "subtree n rt = Some old" "n \<notin> set (ids lt)"
      using Tile.prems(1,4) subtree_SomeD by (fastforce simp: subtree_None split: option.splits)
    then show ?thesis using False Tile by cases (simp_all split: option.splits)
  next
    case True
    show ?thesis
    proof (cases "n = i")
      case True
      then have "find_leaf v old = None" "find_leaf v u = None" "old = Tile i w s r a lt rt"
        using Tile.prems find_leaf_None by auto
      with True show ?thesis by simp
    qed (use True Tile.prems in \<open>auto split: option.splits\<close>)
  qed
qed simp

lemma find_leaf_replace_new:
  assumes "subtree n t = Some old" "v \<in> set (window_ids u)" "distinct (ids t)" "wf_tile t"
    and "v \<in> set (window_ids t) \<Longrightarrow> v \<in> set (window_ids old)" "distinct (window_ids t)"
  shows "find_leaf v (replace n u t) = find_leaf v u"
  using assms
proof (induction t)
  case (Tile i w s r a lt rt)
  have u: "find_leaf v u \<noteq> None" using Tile.prems(2) by (simp add: find_leaf_None)
  show ?case
  proof (cases "n = i")
    case False
    then consider "subtree n lt = Some old" | "subtree n rt = Some old" "n \<notin> set (ids lt)" 
      using Tile.prems(1,3) subtree_SomeD by (fastforce simp: subtree_None split: option.splits)
    then show ?thesis
    proof cases
      case 1
      then have "s \<noteq> SplitNone" using Tile.prems(4) by auto
      with 1 Tile u False show ?thesis by auto
    next
      case 2
      then have s: "s \<noteq> SplitNone" using Tile.prems(4) by auto
      have "set (window_ids old) \<subseteq> set (window_ids rt)"
        using replace_splice(1) [OF 2(1)] s Tile.prems(3,4) by auto
      then have "v \<notin> set (window_ids lt)" using Tile.prems(5,6) s by auto
      then have "find_leaf v lt = None" by (simp add: find_leaf_None)
      with 2 s Tile u False show ?thesis by auto
    qed
  qed simp
qed simp

lemma find_leaf_replace:
  assumes t: "subtree n t = Some old" "distinct (ids t)" "wf_tile t" "distinct (window_ids t)"
    and u: "set (window_ids u) \<inter> set (window_ids t) \<subseteq> set (window_ids old)"
  shows "find_leaf v (replace n u t) =
    (if v \<in> set (window_ids u) then find_leaf v u
     else if v \<in> set (window_ids old) then None else find_leaf v t)"
proof -
  consider "v \<in> set (window_ids u)" | "v \<notin> set (window_ids u)" "v \<notin> set (window_ids old)"
    | "v \<notin> set (window_ids u)" "v \<in> set (window_ids old)" by blast
  then show ?thesis
  proof cases
    case 1
    with find_leaf_replace_new [OF t(1) _ t(2,3) _ t(4)] u show ?thesis by auto
  next
    case 2
    with find_leaf_replace_other [OF t(1) _ _ t(2,3)] show ?thesis by simp
  next
    case 3
    obtain xs ys where "window_ids t = xs @ window_ids old @ ys" "window_ids (replace n u t) = xs @ window_ids u @ ys"
      using replace_splice(1) [OF t(1,3,2)] by blast
    with 3 t(4) have "v \<notin> set (window_ids (replace n u t))" by auto
    with 3 show ?thesis by (simp add: find_leaf_None)
  qed
qed

subsection \<open>Following pointers\<close>

fun height_of :: "tile \<Rightarrow> nat" where
  "height_of NoTile = 0"
| "height_of (Tile i w s r a lt rt) = Suc (max (height_of lt) (height_of rt))"

lemma height_le: "height_of t \<le> length (ids t)"
  by (induction t) auto

lemma tile_of_rep: "rep h p t \<Longrightarrow> height_of t \<le> k \<Longrightarrow> tile_of k h (root_id t) = t"
proof (induction t arbitrary: p k)
  case (Tile i w s r a lt rt)
  then obtain k' where "k = Suc k'" by (cases k) auto
  with Tile show ?case by auto
qed simp

lemma path_parent:
  assumes "rep h p t" "path_to n t = Some (x # ps)" "distinct (ids t)"
  shows "parent_of h n = (case ps of [] \<Rightarrow> p | y # _ \<Rightarrow> Some (tid y))"
  using assms
proof (induction t arbitrary: p x ps)
  case (Tile i w s r a lt rt)
  show ?case
  proof (cases "n = i")
    case False
    then obtain q where q: "q @ [Tile i w s r a lt rt] = x # ps"
      and u: "path_to n lt = Some q \<or> path_to n rt = Some q"
      using Tile.prems(2) by (auto split: option.splits)
    then obtain qs where qs: "q = x # qs" "ps = qs @ [Tile i w s r a lt rt]"
      using path_to_nonempty by (cases q) auto
    with u Tile have "parent_of h n = (case qs of [] \<Rightarrow> Some i | y # _ \<Rightarrow> Some (tid y))"
      by auto
    with qs show ?thesis by (cases qs) auto
  qed (use Tile.prems in \<open>auto simp: parent_of_def\<close>)
qed simp

lemma depth_up_rep:
  assumes "rep h None t" "distinct (ids t)" "path_to n t = Some ps" "length ps \<le> Suc k"
  shows "depth_up k h n = length ps - 1"
  using assms(3,4)
proof (induction ps arbitrary: n k)
  case Nil
  then show ?case using path_to_nonempty by metis
next
  case (Cons x ps)
  have p: "parent_of h n = (case ps of [] \<Rightarrow> None | y # _ \<Rightarrow> Some (tid y))"
    by (rule path_parent [OF assms(1) Cons.prems(1) assms(2)])
  show ?case
  proof (cases ps)
    case (Cons y qs)
    then have "path_to (tid y) t = Some ps"
      using path_suffix [of n t "[x]" y qs] Cons.prems(1) assms(2) by simp
    moreover obtain k' where "k = Suc k'" using Cons.prems(2) Cons by (cases k) auto
    ultimately show ?thesis using Cons.IH [of "tid y" k'] p Cons Cons.prems(2) by simp
  qed (use p in \<open>cases k; simp\<close>)
qed

lemma path_length: "path_to n t = Some ps \<Longrightarrow> length ps \<le> height_of t"
  by (induction t arbitrary: ps) (fastforce split: if_splits option.splits)+

subsection \<open>The invariant of a tree\<close>

definition tree_inv :: "bsp_state \<Rightarrow> tile \<Rightarrow> bool" where
  "tree_inv s t \<longleftrightarrow>
     rep (s_heap s) None t \<and> s_root s = root_id t \<and> distinct (ids t) \<and>
     (\<forall>i\<in>set (ids t). 0 < i \<and> i \<le> s_next s) \<and> (t = NoTile \<or> wf_tile t) \<and>
     distinct (window_ids t) \<and> (\<forall>w. s_index s w = find_leaf w t)"

lemma ids_bound:
  assumes "distinct (ids t)" "\<forall>i\<in>set (ids t). 0 < i \<and> i \<le> k"
  shows "height_of t \<le> k"
proof -
  have "set (ids t) \<subseteq> {1..k}" using assms(2) by (auto simp: Suc_le_eq)
  then have "card (set (ids t)) \<le> k" using card_mono [of "{1..k}" "set (ids t)"] by simp
  then show ?thesis using height_le [of t] distinct_card [OF assms(1)] by simp
qed

lemma tree_of_inv: "tree_inv s t \<Longrightarrow> tree_of s = t"
  using ids_bound [of t "s_next s"] tile_of_rep [of "s_heap s" None t] by (auto simp: tree_inv_def tree_of_def)

lemma depth_inv:
  "tree_inv s t \<Longrightarrow> n \<in> set (ids t) \<Longrightarrow> node_depth n t = Some (depth_up (s_next s) (s_heap s) n)"
proof -
  assume a: "tree_inv s t" and n: "n \<in> set (ids t)"
  obtain ps where ps: "path_to n t = Some ps" using n path_to_None by fastforce
  have "height_of t \<le> s_next s" using a by (auto simp: tree_inv_def intro: ids_bound)
  then have "length ps \<le> Suc (s_next s)" using path_length [OF ps] by simp
  with depth_up_rep [OF _ _ ps] a ps show ?thesis by (simp add: tree_inv_def node_depth_def)
qed

lemma leaf_subtree:
  "find_leaf w t = Some n \<Longrightarrow> distinct (ids t) \<Longrightarrow> wf_tile t \<Longrightarrow>
   \<exists>r a. subtree n t = Some (Tile n w SplitNone r a NoTile NoTile)"
proof (induction t)
  case (Tile i v s r a lt rt)
  show ?case
  proof (cases "s = SplitNone")
    case False
    consider "find_leaf w lt = Some n" | "find_leaf w lt = None" "find_leaf w rt = Some n"
      using Tile.prems(1) False by (auto split: option.splits)
    then obtain r a where "subtree n lt = Some (Tile n w SplitNone r a NoTile NoTile)
        \<or> subtree n rt = Some (Tile n w SplitNone r a NoTile NoTile)"
      using Tile False by cases auto
    moreover from this have "n \<in> set (ids lt) \<or> n \<in> set (ids rt)" using subtree_SomeD by blast
    moreover from this Tile.prems(2) have "n \<noteq> i" by auto
    moreover have "n \<in> set (ids lt) \<Longrightarrow> subtree n rt = None" "n \<in> set (ids rt) \<Longrightarrow> subtree n lt = None"
      using Tile.prems(2) by (auto simp: subtree_None)
    ultimately show ?thesis by (auto split: option.splits)
  qed (use Tile.prems in \<open>auto split: if_splits\<close>)
qed simp

text \<open>The leaf an insertion splits: the focused window's, else the first one in the tree.\<close>

definition target_window :: "int \<Rightarrow> tile \<Rightarrow> int" where
  "target_window focused t = (if focused \<in> set (window_ids t) then focused else hd (window_ids t))"

lemma window_ids_nonempty: "wf_tile t \<Longrightarrow> window_ids t \<noteq> []"
  by (induction t) auto

lemma find_any_leaf_hd:
  "wf_tile t \<Longrightarrow> distinct (window_ids t) \<Longrightarrow> find_any_leaf t = find_leaf (hd (window_ids t)) t \<and>
     find_leaf (hd (window_ids t)) t \<noteq> None"
proof (induction t)
  case (Tile i v s r a lt rt)
  show ?case
  proof (cases "s = SplitNone")
    case False
    with Tile have "find_any_leaf lt = find_leaf (hd (window_ids lt)) lt" "find_leaf (hd (window_ids lt)) lt \<noteq> None"
      "window_ids lt \<noteq> []" using window_ids_nonempty by auto
    with False show ?thesis by auto
  qed auto
qed simp

lemma target_node_inv:
  assumes "tree_inv s t" "t \<noteq> NoTile"
  shows "\<exists>n r a. target_node focused s = Some n \<and> find_leaf (target_window focused t) t = Some n \<and>
    subtree n t = Some (Tile n (target_window focused t) SplitNone r a NoTile NoTile)"
proof -
  have i: "wf_tile t" "distinct (ids t)" "distinct (window_ids t)" "\<forall>w. s_index s w = find_leaf w t"
    using assms by (auto simp: tree_inv_def)
  have "target_node focused s = find_leaf (target_window focused t) t \<and> target_node focused s \<noteq> None"
  proof (cases "focused \<in> set (window_ids t)")
    case True
    then have "find_leaf focused t \<noteq> None" by (simp add: find_leaf_None)
    with True i(4) show ?thesis by (auto simp: target_node_def target_window_def)
  next
    case False
    then have "find_leaf focused t = None" by (simp add: find_leaf_None)
    with False find_any_leaf_hd [OF i(1,3)] tree_of_inv [OF assms(1)] i(4) show ?thesis
      by (simp add: target_node_def target_window_def)
  qed
  then obtain n where "target_node focused s = Some n" "find_leaf (target_window focused t) t = Some n"
    by (metis not_None_eq)
  with leaf_subtree [OF this(2) i(2,1)] show ?thesis by simp
qed

subsection \<open>Insertion\<close>

definition leaf_tile :: "nat \<Rightarrow> int \<Rightarrow> tile" where
  "leaf_tile i w = Tile i w SplitNone (1 / 2) False NoTile NoTile"

text \<open>What a grafted target becomes.\<close>

definition grafted :: "nat \<Rightarrow> int \<Rightarrow> int \<Rightarrow> split_type \<Rightarrow> f64 \<Rightarrow> bool \<Rightarrow> tile" where
  "grafted c tw win d r new_left =
     (let old = leaf_tile (c + 2) tw; new = leaf_tile (c + 1) win
      in if new_left then Tile (c + 3) (- 1) d r False new old else Tile (c + 3) (- 1) d r False old new)"

lemma grafted_lists [simp]:
  "d \<noteq> SplitNone \<Longrightarrow> window_ids (grafted c tw win d r nl) = (if nl then [win, tw] else [tw, win])"
  "set (ids (grafted c tw win d r nl)) = {c + 1, c + 2, c + 3}" "distinct (ids (grafted c tw win d r nl))"
  "d \<noteq> SplitNone \<Longrightarrow> wf_tile (grafted c tw win d r nl)" "root_id (grafted c tw win d r nl) = Some (c + 3)"
  by (auto simp: grafted_def leaf_tile_def Let_def)

lemma grafted_leaf:
  "d \<noteq> SplitNone \<Longrightarrow> find_leaf v (grafted c tw win d r nl) =
     (if v = win \<and> (nl \<or> tw \<noteq> win) then Some (c + 1) else if v = tw then Some (c + 2) else None)"
  by (auto simp: grafted_def leaf_tile_def Let_def)

lemma graft_state:
  fixes d :: split_type and r :: f64 and nl :: bool
  assumes "s_next s = c + 1" "s_heap s (c + 1) = Some (\<lparr>n_parent = None, n_left = None, n_right = None,
      n_window = win, n_split = SplitNone, n_ratio = 1 / 2, n_active = False\<rparr>)"
    and "s_heap s n = Some nd" "n_window nd = tw" "n \<le> c" "n_parent nd = q"
    and "\<forall>j. q = Some j \<longrightarrow> j \<le> c \<and> s_heap s j \<noteq> None"
  defines "s' \<equiv> graft n (c + 1) win d r nl s"
  shows "s_next s' = c + 3" "s_index s' = (s_index s)(tw \<mapsto> c + 2, win \<mapsto> c + 1)"
    "s_root s' = (if q = None then Some (c + 3) else s_root s)"
    "s_scheme s' = s_scheme s" "s_ratio s' = s_ratio s"
    "rep (s_heap s') q (grafted c tw win d r nl)"
    "\<forall>i. i \<le> c \<longrightarrow> s_heap s' i = (if q = Some i then map_option (relink n (Some (c + 3))) (s_heap s i)
        else s_heap s i)"
  using assms(1-7) unfolding s'_def
  by (cases q; cases nl; auto simp: graft_def new_leaf_def new_internal_def window_of_def replace_target_def
      parent_of_def is_left_child_def upd_node_def set_parent_def relink_def grafted_def leaf_tile_def Let_def)+

lemma new_leaf_state:
  "new_leaf w s = (i, s1) \<Longrightarrow> i = Suc (s_next s) \<and> s_next s1 = Suc (s_next s) \<and> s_root s1 = s_root s \<and>
     s_index s1 = s_index s \<and> s_scheme s1 = s_scheme s \<and> s_ratio s1 = s_ratio s \<and>
     s_heap s1 = (s_heap s)(i \<mapsto> \<lparr>n_parent = None, n_left = None, n_right = None, n_window = w,
       n_split = SplitNone, n_ratio = 1 / 2, n_active = False\<rparr>)"
  by (auto simp: new_leaf_def Let_def)

lemma new_leaf_inv:
  assumes "tree_inv s t" "new_leaf w s = (i, s1)"
  shows "tree_inv s1 t"
proof -
  note n = new_leaf_state [OF assms(2)]
  have "rep (s_heap s1) None t"
    by (rule rep_frame [of "s_heap s"]) (use assms(1) n in \<open>auto simp: tree_inv_def\<close>)
  with assms(1) n show ?thesis by (auto simp: tree_inv_def le_SucI)
qed

lemma graft_inv:
  assumes inv: "tree_inv s0 t" and new: "new_leaf win s0 = (leaf, s)" and d: "d \<noteq> SplitNone"
    and win: "win \<notin> set (window_ids t)"
    and sub: "subtree n t = Some (Tile n tw SplitNone q a NoTile NoTile)"
  shows "tree_inv (graft n leaf win d r nl s) (replace n (grafted (s_next s0) tw win d r nl) t)
    \<and> s_scheme (graft n leaf win d r nl s) = s_scheme s0 \<and> s_ratio (graft n leaf win d r nl s) = s_ratio s0
    \<and> s_next (graft n leaf win d r nl s) = s_next s0 + 3"
proof -
  define c where "c = s_next s0"
  define u where "u = grafted c tw win d r nl"
  define s' where "s' = graft n leaf win d r nl s"
  note nl = new_leaf_state [OF new]
  have t: "rep (s_heap s) None t" "s_root s = root_id t" "distinct (ids t)" "wf_tile t"
      "\<forall>i\<in>set (ids t). 0 < i \<and> i \<le> c" "distinct (window_ids t)" "\<forall>w. s_index s w = find_leaf w t"
    using new_leaf_inv [OF inv new] inv sub nl by (auto simp: tree_inv_def c_def)
  let ?q = "parent_in None n t"
  have n: "n \<in> set (ids t)" using subtree_SomeD [OF sub] by blast
  have leaf: "rep (s_heap s) ?q (Tile n tw SplitNone q a NoTile NoTile)" by (rule rep_subtree [OF t(1) sub])
  have q: "\<forall>j. ?q = Some j \<longrightarrow> j \<in> set (ids t)" "?q = None \<longleftrightarrow> root_id t = Some n"
    using parent_in_cases [OF n, of None] by (cases "root_id t = Some n"; force)+
  have heap: "s_heap s j \<noteq> None" if "j \<in> set (ids t)" for j
    by (rule rep_dom [OF t(1) that])
  obtain nd where nd: "s_heap s n = Some nd" "n_window nd = tw" "n \<le> c" "n_parent nd = ?q"
    using leaf n t(5) by auto
  have leaf': "leaf = c + 1" using nl by (simp add: c_def)
  have g: "s_next s' = c + 3" "s_index s' = (s_index s)(tw \<mapsto> c + 2, win \<mapsto> c + 1)"
      "s_root s' = (if ?q = None then Some (c + 3) else s_root s)" "rep (s_heap s') ?q u"
      "s_scheme s' = s_scheme s" "s_ratio s' = s_ratio s"
      "\<forall>i. i \<le> c \<longrightarrow> s_heap s' i = (if ?q = Some i then map_option (relink n (Some (c + 3))) (s_heap s i)
          else s_heap s i)"
    unfolding s'_def u_def leaf'
    by (rule graft_state [OF _ _ nd]; use nl t(5) n q(1) heap in \<open>simp add: c_def\<close>)+
  have "rep (s_heap s') None (replace n u t)"
    by (rule rep_replace [OF t(1) sub t(3)]) (use g t(5) in \<open>auto simp: u_def\<close>)
  moreover have "s_root s' = root_id (replace n u t)"
    using g(3) q(2) t(2) by (auto simp: root_replace u_def)
  moreover have "tw \<noteq> win"
    using replace_splice(1) [OF sub t(4,3)] win by auto
  moreover obtain xs ys xs' ys' where
      w: "window_ids t = xs @ [tw] @ ys" "window_ids (replace n u t) = xs @ window_ids u @ ys" and
      i: "ids t = xs' @ [n] @ ys'" "ids (replace n u t) = xs' @ ids u @ ys'"
    using replace_splice [OF sub t(4,3)] by auto
  moreover have "\<forall>i\<in>set (ids (replace n u t)). 0 < i \<and> i \<le> s_next s'"
    using i t(5) g(1) by (auto simp: u_def intro: trans_le_add1)
  moreover have "\<forall>x\<in>set (ids u). x \<notin> set xs' \<union> set ys'"
  proof
    fix x
    assume "x \<in> set (ids u)"
    then have "c < x" by (auto simp: u_def)
    with t(5) i(1) show "x \<notin> set xs' \<union> set ys'" by (auto dest: bspec [of _ _ x])
  qed
  then have "distinct (ids (replace n u t))" using i t(3) by (auto simp: u_def)
  moreover have "distinct (window_ids (replace n u t))"
    using w t(6) win \<open>tw \<noteq> win\<close> d by (auto simp: u_def)
  moreover have "wf_tile (replace n u t)" using t(4) d by (intro replace_wf) (auto simp: u_def)
  moreover have "s_index s' v = find_leaf v (replace n u t)" for v
    using g(2) t(7) win d \<open>tw \<noteq> win\<close>
    by (subst find_leaf_replace [OF sub t(3,4,6)]) (auto simp: u_def grafted_leaf)
  ultimately have "tree_inv s' (replace n u t)" by (simp add: tree_inv_def)
  then show ?thesis using g nl by (simp add: s'_def u_def c_def)
qed

definition bsp_inv :: "bsp_state \<Rightarrow> bool" where
  "bsp_inv s \<longleftrightarrow> tree_inv s (tree_of s)"

lemma bsp_invI: "tree_inv s t \<Longrightarrow> bsp_inv s \<and> tree_of s = t"
  using tree_of_inv by (simp add: bsp_inv_def)

lemma new_state_inv: "bsp_inv (new_state c) \<and> tree_of (new_state c) = NoTile"
  by (rule bsp_invI) (simp add: tree_inv_def new_state_def)

lemma auto_not_none: "determine_auto_split scheme t d tr b \<noteq> SplitNone"
  by (auto simp: determine_auto_split_def Let_def split: auto_scheme.splits)

text \<open>An insertion, on the tree.\<close>

definition split_leaf :: "nat \<Rightarrow> int \<Rightarrow> int \<Rightarrow> split_type \<Rightarrow> f64 \<Rightarrow> bool \<Rightarrow> tile \<Rightarrow> tile" where
  "split_leaf c win tw d r new_left t = replace (the (find_leaf tw t)) (grafted c tw win d r new_left) t"

definition spec_direction :: "split_type \<Rightarrow> auto_scheme \<Rightarrow> int \<Rightarrow> tile \<Rightarrow> rect \<Rightarrow> int \<Rightarrow> split_type" where
  "spec_direction direction scheme tw t b gap =
     (if direction \<noteq> SplitNone then direction
      else let n = the (find_leaf tw t)
           in determine_auto_split scheme t (the (node_depth n t)) (node_bounds t n b gap) b)"

definition spec_insert ::
    "int \<Rightarrow> int \<Rightarrow> split_type \<Rightarrow> f64 \<Rightarrow> rect \<Rightarrow> int \<Rightarrow> bool \<Rightarrow> bsp_state \<Rightarrow> tile" where
  "spec_insert win focused direction r b gap new_left s =
     (let t = tree_of s; tw = target_window focused t
      in if t = NoTile then leaf_tile (s_next s + 1) win
         else split_leaf (s_next s) win tw (spec_direction direction (s_scheme s) tw t b gap) r new_left t)"

lemma first_window_inv:
  assumes "tree_inv s NoTile" "new_leaf win s = (leaf, s1)"
  shows "tree_inv (s1\<lparr>s_root := Some leaf, s_index := (s_index s1)(win \<mapsto> leaf)\<rparr>) (leaf_tile (s_next s + 1) win)"
  using assms(1) new_leaf_state [OF assms(2)] by (auto simp: tree_inv_def leaf_tile_def)

lemma insert_window_inv:
  assumes inv: "bsp_inv s" and win: "win \<notin> set (window_ids (tree_of s))"
    and s': "s' = insert_window win focused direction ratio b gap s"
  shows "tree_inv s' (spec_insert win focused direction
    (if ratio \<le> 0 \<or> ratio \<ge> 1 then s_ratio s else ratio) b gap False s)"
proof -
  let ?t = "tree_of s" and ?r = "if ratio \<le> 0 \<or> ratio \<ge> 1 then s_ratio s else ratio"
  obtain leaf s1 where l: "new_leaf win s = (leaf, s1)" by fastforce
  note nl = new_leaf_state [OF l]
  have i: "tree_inv s ?t" "s_index s win = None"
    using inv win by (auto simp: bsp_inv_def tree_inv_def find_leaf_None)
  have i1: "tree_inv s1 ?t" by (rule new_leaf_inv [OF i(1) l])
  then have t1: "tree_of s1 = ?t" by (rule tree_of_inv)
  show ?thesis
  proof (cases "?t = NoTile")
    case True
    with i i1 have "s_root s1 = None" by (simp add: tree_inv_def)
    with True first_window_inv [OF _ l] i l show ?thesis
      by (simp add: s' insert_window_def spec_insert_def)
  next
    case False
    obtain n q a where n: "target_node focused s1 = Some n" "find_leaf (target_window focused ?t) ?t = Some n"
        "subtree n ?t = Some (Tile n (target_window focused ?t) SplitNone q a NoTile NoTile)"
      using target_node_inv [OF i1 False] by blast
    let ?d = "spec_direction direction (s_scheme s) (target_window focused ?t) ?t b gap"
    have d: "?d \<noteq> SplitNone" by (simp add: spec_direction_def Let_def auto_not_none)
    have "n \<in> set (ids ?t)" using subtree_SomeD [OF n(3)] by blast
    then have e: "(if direction = SplitNone then auto_direction n b gap s1 else direction) = ?d"
      using depth_inv [OF i1] n(2) nl t1 by (simp add: spec_direction_def auto_direction_def Let_def)
    obtain rt where "s_root s1 = Some rt" using False i1 by (cases ?t) (auto simp: tree_inv_def)
    then have "s' = graft n leaf win ?d ?r False s1"
      unfolding e [symmetric] using i l n(1) nl by (simp add: s' insert_window_def Let_def)
    with graft_inv [OF i(1) l d win n(3)] False n(2) show ?thesis
      by (simp add: spec_insert_def split_leaf_def Let_def)
  qed
qed

text \<open>
  C7. Inserting a window implements one replacement of the tree: the focused window's leaf (the
  first leaf when the focused window is not in the tree) becomes an internal node whose left child
  holds the old window and whose right child holds the new one. The direction is the requested one
  or the automatic one, computed from the leaf's real depth and rectangle, and the pointers, the
  parent links and the index all agree with the new tree.
\<close>

theorem insert_window_refines:
  assumes "bsp_inv s" "win \<notin> set (window_ids (tree_of s))"
  shows "bsp_inv (insert_window win focused direction ratio b gap s) \<and>
    tree_of (insert_window win focused direction ratio b gap s) =
      spec_insert win focused direction (if ratio \<le> 0 \<or> ratio \<ge> 1 then s_ratio s else ratio) b gap False s"
  by (rule bsp_invI) (rule insert_window_inv [OF assms refl])

theorem insert_window_refines_witness:
  "window_ids (tree_of (insert_window 5 4 SplitNone 0 demo_bounds 1
     (insert_window 4 0 SplitNone 0 demo_bounds 1 (new_state 0)))) = [4, 5]"
proof -
  let ?s = "insert_window 4 0 SplitNone 0 demo_bounds 1 (new_state 0)"
  have s: "bsp_inv ?s \<and> tree_of ?s = leaf_tile 1 4"
    using insert_window_refines [of "new_state 0" 4 0 SplitNone 0 demo_bounds 1] new_state_inv [of 0]
    by (simp add: spec_insert_def new_state_def)
  then have "tree_of (insert_window 5 4 SplitNone 0 demo_bounds 1 ?s) =
      spec_insert 5 4 SplitNone (s_ratio ?s) demo_bounds 1 False ?s"
    using insert_window_refines [of ?s 5 4 SplitNone 0 demo_bounds 1] by (simp add: leaf_tile_def)
  moreover have "s_scheme ?s = SchemeSpiral" by code_simp
  ultimately show ?thesis
    using s auto_not_none by (simp add: spec_insert_def leaf_tile_def target_window_def split_leaf_def
        spec_direction_def Let_def)
qed

lemma insert_presel_inv:
  assumes inv: "bsp_inv s" and win: "win \<notin> set (window_ids (tree_of s))"
    and pre: "presel_split pre = Some (d, new_left)"
  shows "tree_inv (insert_presel win focused pre b gap s)
    (spec_insert win focused d (s_ratio s) b gap new_left s)"
proof -
  let ?t = "tree_of s"
  obtain leaf s1 where l: "new_leaf win s = (leaf, s1)" by fastforce
  note nl = new_leaf_state [OF l]
  have i: "tree_inv s ?t" "s_index s win = None"
    using inv win by (auto simp: bsp_inv_def tree_inv_def find_leaf_None)
  have i1: "tree_inv s1 ?t" by (rule new_leaf_inv [OF i(1) l])
  have d: "d \<noteq> SplitNone" using pre by (cases pre) auto
  show ?thesis
  proof (cases "?t = NoTile")
    case True
    with i i1 have "s_root s1 = None" by (simp add: tree_inv_def)
    with True first_window_inv [OF _ l] i l pre show ?thesis
      by (simp add: insert_presel_def spec_insert_def)
  next
    case False
    obtain n q a where n: "target_node focused s1 = Some n" "find_leaf (target_window focused ?t) ?t = Some n"
        "subtree n ?t = Some (Tile n (target_window focused ?t) SplitNone q a NoTile NoTile)"
      using target_node_inv [OF i1 False] by blast
    obtain rt where "s_root s1 = Some rt" using False i1 by (cases ?t) (auto simp: tree_inv_def)
    then have "insert_presel win focused pre b gap s = graft n leaf win d (s_ratio s) new_left s1"
      using i l n(1) nl pre by (simp add: insert_presel_def Let_def)
    with graft_inv [OF i(1) l d win n(3)] False n(2) d show ?thesis
      by (simp add: spec_insert_def spec_direction_def split_leaf_def Let_def)
  qed
qed

lemma spec_insert_windows:
  assumes "bsp_inv s" "win \<notin> set (window_ids (tree_of s))" "tree_of s \<noteq> NoTile"
  shows "\<exists>xs ys. window_ids (tree_of s) = xs @ target_window focused (tree_of s) # ys \<and>
    window_ids (spec_insert win focused d r b gap nl s) =
      xs @ (if nl then [win, target_window focused (tree_of s)] else [target_window focused (tree_of s), win]) @ ys"
proof -
  let ?t = "tree_of s"
  have t: "tree_inv s ?t" "wf_tile ?t" "distinct (ids ?t)"
    using assms by (auto simp: bsp_inv_def tree_inv_def)
  obtain n q a where n: "find_leaf (target_window focused ?t) ?t = Some n"
      "subtree n ?t = Some (Tile n (target_window focused ?t) SplitNone q a NoTile NoTile)"
    using target_node_inv [OF t(1) assms(3)] by blast
  have "spec_direction d (s_scheme s) (target_window focused ?t) ?t b gap \<noteq> SplitNone"
    by (simp add: spec_direction_def Let_def auto_not_none)
  moreover obtain xs ys where "window_ids ?t = xs @ [target_window focused ?t] @ ys"
      "\<forall>u. window_ids (replace n u ?t) = xs @ window_ids u @ ys"
    using replace_splice(1) [OF n(2) t(2,3)] by auto
  ultimately show ?thesis
    using n(1) assms(3)
    by (intro exI [of _ xs] exI [of _ ys]) (simp add: spec_insert_def split_leaf_def Let_def)
qed

text \<open>
  A preselected insertion puts the new window on the side that was asked for: directly before
  the target in the order of the leaves for left and up, directly after it for right and down, and
  every other window keeps its place; the tree's invariant holds again.
\<close>

lemma insert_presel_order:
  assumes "bsp_inv s" "win \<notin> set (window_ids (tree_of s))" "tree_of s \<noteq> NoTile"
    and "presel_split pre = Some (d, new_left)"
  shows "bsp_inv (insert_presel win focused pre b gap s) \<and>
    (\<exists>xs ys. window_ids (tree_of s) = xs @ target_window focused (tree_of s) # ys \<and>
      window_ids (tree_of (insert_presel win focused pre b gap s)) =
        xs @ (if new_left then [win, target_window focused (tree_of s)]
              else [target_window focused (tree_of s), win]) @ ys)"
proof -
  have "bsp_inv (insert_presel win focused pre b gap s) \<and> tree_of (insert_presel win focused pre b gap s) =
      spec_insert win focused d (s_ratio s) b gap new_left s"
    by (rule bsp_invI) (rule insert_presel_inv [OF assms(1,2,4)])
  with spec_insert_windows [OF assms(1-3), of focused d "s_ratio s" b gap new_left] show ?thesis by simp
qed

subsection \<open>Removal\<close>

text \<open>Removal on the tree: the sibling of the window's leaf takes the place of their parent.\<close>

definition is_leaf_of :: "int \<Rightarrow> tile \<Rightarrow> bool" where
  "is_leaf_of w t \<longleftrightarrow> is_leaf t \<and> twin t = w"

fun remove_tree :: "int \<Rightarrow> tile \<Rightarrow> tile" where
  "remove_tree w NoTile = NoTile"
| "remove_tree w (Tile i v s r a lt rt) =
     (if s = SplitNone then (if v = w then NoTile else Tile i v s r a lt rt)
      else if is_leaf_of w lt then rt
      else if is_leaf_of w rt then lt
      else Tile i v s r a (remove_tree w lt) (remove_tree w rt))"

lemma leaf_of_windows: "wf_tile t \<Longrightarrow> is_leaf_of w t \<Longrightarrow> window_ids t = [w]"
  by (cases t) (auto simp: is_leaf_of_def)

lemma remove_tree_other: "wf_tile t \<Longrightarrow> w \<notin> set (window_ids t) \<Longrightarrow> remove_tree w t = t"
proof (induction t)
  case (Tile i v s r a lt rt)
  then show ?case
    using leaf_of_windows [of lt w] leaf_of_windows [of rt w] by (cases "s = SplitNone") auto
qed simp

lemma remove_tree_windows:
  "wf_tile t \<Longrightarrow> distinct (window_ids t) \<Longrightarrow> window_ids (remove_tree w t) = remove1 w (window_ids t)"
proof (induction t)
  case (Tile i v s r a lt rt)
  show ?case
  proof (cases "s = SplitNone")
    case False
    with Tile.prems have p: "wf_tile lt" "wf_tile rt" "distinct (window_ids lt)" "distinct (window_ids rt)"
      "set (window_ids lt) \<inter> set (window_ids rt) = {}" by auto
    consider "is_leaf_of w lt" | "\<not> is_leaf_of w lt" "is_leaf_of w rt" | "\<not> is_leaf_of w lt" "\<not> is_leaf_of w rt"
      by blast
    then show ?thesis
    proof cases
      case 1
      with False leaf_of_windows [OF p(1) 1] show ?thesis by simp
    next
      case 2
      with False leaf_of_windows [OF p(2) 2(2)] p(5) show ?thesis by (simp add: remove1_append)
    next
      case 3
      with False Tile.IH p show ?thesis
        by (auto simp: remove1_append remove1_idem disjoint_iff)
    qed
  qed auto
qed simp

lemma leaf_at_root:
  "find_leaf w t = Some n \<Longrightarrow> root_id t = Some n \<Longrightarrow> distinct (ids t) \<Longrightarrow> wf_tile t \<Longrightarrow>
   is_leaf_of w t \<and> window_ids t = [w] \<and> ids t = [n]"
proof -
  assume a: "find_leaf w t = Some n" "root_id t = Some n" "distinct (ids t)" "wf_tile t"
  obtain r b where "subtree n t = Some (Tile n w SplitNone r b NoTile NoTile)"
    using leaf_subtree [OF a(1,3,4)] by blast
  then have "t = Tile n w SplitNone r b NoTile NoTile" using a(2) by (cases t) auto
  then show ?thesis by (simp add: is_leaf_of_def)
qed

lemma find_leaf_in: "find_leaf w t = Some n \<Longrightarrow> n \<in> set (ids t)"
  by (induction t) (auto split: if_splits option.splits)

lemma leaf_of_find: "wf_tile t \<Longrightarrow> is_leaf_of w t \<Longrightarrow> find_leaf w t = root_id t"
  by (cases t) (auto simp: is_leaf_of_def)

lemma remove_split:
  assumes "find_leaf w t = Some n" "root_id t \<noteq> Some n" "distinct (ids t)" "wf_tile t"
    "distinct (window_ids t)"
  shows "\<exists>p v s r a A B u. parent_in None n t = Some p \<and> subtree p t = Some (Tile p v s r a A B) \<and>
    s \<noteq> SplitNone \<and> (root_id A = Some n \<and> u = B \<or> root_id B = Some n \<and> root_id A \<noteq> Some n \<and> u = A) \<and>
    remove_tree w t = replace p u t \<and> set (window_ids A) \<union> set (window_ids B) = insert w (set (window_ids u)) \<and>
    w \<notin> set (window_ids u) \<and> u \<noteq> NoTile \<and> wf_tile u"
  using assms
proof (induction t)
  case (Tile i v s r a lt rt)
  let ?t = "Tile i v s r a lt rt"
  have s: "s \<noteq> SplitNone" using Tile.prems(1,2) by (auto split: if_splits)
  then have c: "wf_tile lt" "wf_tile rt" "distinct (ids lt)" "distinct (ids rt)" "distinct (window_ids lt)"
    "distinct (window_ids rt)" "set (ids lt) \<inter> set (ids rt) = {}" "i \<notin> set (ids lt)" "i \<notin> set (ids rt)"
    "set (window_ids lt) \<inter> set (window_ids rt) = {}" using Tile.prems by auto
  have ne: "lt \<noteq> NoTile" "rt \<noteq> NoTile" using c by auto
  consider (l) "find_leaf w lt = Some n" | (r) "find_leaf w lt = None" "find_leaf w rt = Some n"
    using Tile.prems(1) s by (auto split: option.splits)
  then show ?case
  proof cases
    case l
    then have n: "n \<in> set (ids lt)" "n \<noteq> i" using find_leaf_in [OF l] c by auto
    have w: "w \<in> set (window_ids lt)" "w \<notin> set (window_ids rt)"
      using l c(10) find_leaf_None [of w lt] by auto
    then have nr: "\<not> is_leaf_of w rt" using leaf_of_windows [OF c(2)] by auto
    show ?thesis
    proof (cases "root_id lt = Some n")
      case True
      then have "is_leaf_of w lt" "window_ids lt = [w]" using leaf_at_root [OF l True c(3,1)] by auto
      moreover have "parent_in None n ?t = Some i" using n True by (cases lt) auto
      ultimately show ?thesis using True s w c ne
        by (intro exI [of _ i] exI [of _ v] exI [of _ s] exI [of _ r] exI [of _ a] exI [of _ lt]
            exI [of _ rt] exI [of _ rt]) simp
    next
      case False
      obtain p v' s' r' a' A B u where IH: "parent_in None n lt = Some p"
        "subtree p lt = Some (Tile p v' s' r' a' A B)" "s' \<noteq> SplitNone"
        "root_id A = Some n \<and> u = B \<or> root_id B = Some n \<and> root_id A \<noteq> Some n \<and> u = A"
        "remove_tree w lt = replace p u lt"
        "set (window_ids A) \<union> set (window_ids B) = insert w (set (window_ids u))" "w \<notin> set (window_ids u)" "u \<noteq> NoTile"
        "wf_tile u"
        using Tile.IH(1) [OF l False c(3,1,5)] by (elim exE conjE) (rule that)
      have p: "p \<in> set (ids lt)" using subtree_SomeD [OF IH(2)] by blast
      then have p': "p \<noteq> i" "p \<notin> set (ids rt)" using c by auto
      have "\<not> is_leaf_of w lt" using leaf_of_find [OF c(1)] l False by auto
      then have "remove_tree w ?t = replace p u ?t"
        using s nr IH(5) p' remove_tree_other [OF c(2) w(2)] by simp
      moreover have "parent_in None n ?t = Some p"
        using parent_in_cases [OF n(1), of "Some i"] False IH(1) n by simp
      moreover have "subtree p ?t = Some (Tile p v' s' r' a' A B)" using IH(2) p' by simp
      ultimately show ?thesis using IH
        by - (intro exI [of _ p] exI [of _ v'] exI [of _ s'] exI [of _ r'] exI [of _ a'] exI [of _ A] exI [of _ B]
            exI [of _ u] conjI; assumption)
    qed
  next
    case r
    then have n: "n \<in> set (ids rt)" "n \<noteq> i" "n \<notin> set (ids lt)" using find_leaf_in [OF r(2)] c by auto
    have w: "w \<in> set (window_ids rt)" "w \<notin> set (window_ids lt)"
      using r c(10) find_leaf_None [of w rt] find_leaf_None [of w lt] by auto
    then have nl: "\<not> is_leaf_of w lt" using leaf_of_windows [OF c(1)] by auto
    show ?thesis
    proof (cases "root_id rt = Some n")
      case True
      then have "is_leaf_of w rt" "window_ids rt = [w]" using leaf_at_root [OF r(2) True c(4,2)] by auto
      moreover have "parent_in None n ?t = Some i" using n True by (cases rt) auto
      moreover have "root_id lt \<noteq> Some n" using n(3) root_id_in by blast
      ultimately show ?thesis using True s w c ne nl
        by (intro exI [of _ i] exI [of _ v] exI [of _ s] exI [of _ r] exI [of _ a] exI [of _ lt]
            exI [of _ rt] exI [of _ lt]) simp
    next
      case False
      obtain p v' s' r' a' A B u where IH: "parent_in None n rt = Some p"
        "subtree p rt = Some (Tile p v' s' r' a' A B)" "s' \<noteq> SplitNone"
        "root_id A = Some n \<and> u = B \<or> root_id B = Some n \<and> root_id A \<noteq> Some n \<and> u = A"
        "remove_tree w rt = replace p u rt"
        "set (window_ids A) \<union> set (window_ids B) = insert w (set (window_ids u))" "w \<notin> set (window_ids u)" "u \<noteq> NoTile"
        "wf_tile u"
        using Tile.IH(2) [OF r(2) False c(4,2,6)] by (elim exE conjE) (rule that)
      have p: "p \<in> set (ids rt)" using subtree_SomeD [OF IH(2)] by blast
      then have p': "p \<noteq> i" "p \<notin> set (ids lt)" using c by auto
      have "\<not> is_leaf_of w rt" using leaf_of_find [OF c(2)] r(2) False by auto
      then have "remove_tree w ?t = replace p u ?t"
        using s nl IH(5) p' remove_tree_other [OF c(1) w(2)] by simp
      moreover have "parent_in None n ?t = Some p"
        using parent_in_cases [OF n(1), of "Some i"] False IH(1) n by simp
      moreover have "subtree p lt = None" using p'(2) by (simp add: subtree_None)
      then have "subtree p ?t = Some (Tile p v' s' r' a' A B)" using IH(2) p' by simp
      ultimately show ?thesis using IH
        by - (intro exI [of _ p] exI [of _ v'] exI [of _ s'] exI [of _ r'] exI [of _ a'] exI [of _ A] exI [of _ B]
            exI [of _ u] conjI; assumption)
    qed
  qed
qed simp

lemma set_parent_other [simp]: "root_id u \<noteq> Some i \<Longrightarrow> set_parent (root_id u) p h i = h i"
  by (cases u) (auto simp: set_parent_def upd_node_def split: option.splits)

lemma rep_set_parent: "rep h p t \<Longrightarrow> distinct (ids t) \<Longrightarrow> rep (set_parent (root_id t) p' h) p' t"
proof (cases t)
  case (Tile i w s r a lt rt)
  assume a: "rep h p t" "distinct (ids t)"
  have "rep (set_parent (root_id t) p' h) (Some i) lt" "rep (set_parent (root_id t) p' h) (Some i) rt"
    by (rule rep_frame [of h]; use a Tile in \<open>force simp: set_parent_def upd_node_def\<close>)+
  with a Tile show ?thesis by (simp add: set_parent_def upd_node_def)
qed simp

lemma parent_outside:
  "subtree n t = Some old \<Longrightarrow> parent_in q n t = Some g \<Longrightarrow> distinct (ids t) \<Longrightarrow> q \<noteq> Some g \<or> g \<notin> set (ids t) \<Longrightarrow>
   g \<notin> set (ids old)"
proof (induction t arbitrary: q)
  case (Tile i w s r a lt rt)
  show ?case
  proof (cases "n = i")
    case False
    then consider (l) "subtree n lt = Some old" "n \<in> set (ids lt)"
      | (r) "subtree n rt = Some old" "n \<in> set (ids rt)" "n \<notin> set (ids lt)"
      using Tile.prems(1,3) subtree_SomeD subtree_None by (fastforce split: option.splits)
    then show ?thesis
    proof cases
      case l
      have "Some i \<noteq> Some g \<or> g \<notin> set (ids lt)" using Tile.prems(3) by auto
      with l Tile.IH(1) [OF l(1), of "Some i"] Tile.prems False show ?thesis by simp
    next
      case r
      have "Some i \<noteq> Some g \<or> g \<notin> set (ids rt)" using Tile.prems(3) by auto
      with r Tile.IH(2) [OF r(1), of "Some i"] Tile.prems False show ?thesis by simp
    qed
  qed (use Tile.prems in auto)
qed simp

lemma remove_window_inv:
  assumes inv: "tree_inv s t"
  shows "\<exists>s'. remove_window w s = Some s' \<and> tree_inv s' (remove_tree w t)"
proof (cases "find_leaf w t")
  case None
  then have "remove_window w s = Some s" using inv by (simp add: remove_window_def tree_inv_def)
  moreover have "remove_tree w t = t"
    using inv None by (cases "t = NoTile") (auto simp: tree_inv_def find_leaf_None intro: remove_tree_other)
  ultimately show ?thesis using inv by simp
next
  case (Some n)
  let ?h = "s_heap s"
  have t: "rep ?h None t" "s_root s = root_id t" "distinct (ids t)" "wf_tile t"
      "\<forall>i\<in>set (ids t). 0 < i \<and> i \<le> s_next s" "distinct (window_ids t)" "\<forall>v. s_index s v = find_leaf v t"
    using inv Some by (auto simp: tree_inv_def)
  have n: "n \<in> set (ids t)" by (rule find_leaf_in [OF Some])
  have pn: "parent_of ?h n = parent_in None n t" by (rule rep_parent [OF t(1) n])
  show ?thesis
  proof (cases "root_id t = Some n")
    case True
    note l = leaf_at_root [OF Some True t(3,4)]
    then have "remove_tree w t = NoTile" by (cases t) (auto simp: is_leaf_of_def)
    moreover have "find_leaf v t = None" if "v \<noteq> w" for v using l that by (simp add: find_leaf_None)
    ultimately show ?thesis
      using Some True pn t parent_in_cases [OF n, of None] by (simp add: remove_window_def tree_inv_def)
  next
    case False
    obtain p v q r a A B u where r: "parent_in None n t = Some p" "subtree p t = Some (Tile p v q r a A B)"
        "q \<noteq> SplitNone" "root_id A = Some n \<and> u = B \<or> root_id B = Some n \<and> root_id A \<noteq> Some n \<and> u = A"
        "remove_tree w t = replace p u t"
        "set (window_ids A) \<union> set (window_ids B) = insert w (set (window_ids u))" "w \<notin> set (window_ids u)"
        "u \<noteq> NoTile" "wf_tile u"
      using remove_split [OF Some False t(3,4,6)] by (elim exE conjE) (rule that)
    let ?old = "Tile p v q r a A B" and ?g = "parent_in None p t"
    have p: "p \<in> set (ids t)" and old: "set (ids ?old) \<subseteq> set (ids t)" "distinct (ids ?old)"
      using subtree_SomeD [OF r(2)] t(3) by blast+
    have ro: "rep ?h ?g ?old" by (rule rep_subtree [OF t(1) r(2)])
    have ru: "rep ?h (Some p) u" "set (ids u) \<subseteq> set (ids ?old)" "distinct (ids u)" "p \<notin> set (ids u)"
      using ro r(4) old by auto
    obtain m where m: "root_id u = Some m" "m \<in> set (ids u)" using r(8) by (cases u) auto
    have sib: "sibling ?h n = Some m"
      using ro r(1,4) m pn by (auto simp: sibling_def)
    have g: "parent_of ?h p = ?g" by (rule rep_parent [OF t(1) p])
    have gout: "j \<notin> set (ids ?old)" "j \<in> set (ids t)" if "?g = Some j" for j
      using parent_outside [OF r(2) that t(3)] parent_in_cases [OF p, of None] that
      by (simp, cases "root_id t = Some p") auto
    let ?h1 = "set_parent (Some m) ?g ?h"
    define h' where "h' = (case ?g of None \<Rightarrow> ?h1 | Some j \<Rightarrow> ?h1(j := map_option (relink p (Some m)) (?h j)))"
    let ?s' = "s\<lparr>s_index := (s_index s)(w := None), s_root := (if ?g = None then Some m else s_root s),
        s_heap := h'\<rparr>"
    have h1: "?h1 j = ?h j" if "j \<noteq> m" for j
      using set_parent_other [of u j ?g ?h] m(1) that by simp
    have "remove_window w s = Some ?s'"
    proof (cases ?g)
      case None
      with Some t(7) pn r(1) sib g show ?thesis by (simp add: remove_window_def h'_def Let_def)
    next
      case (Some j)
      then have "j \<noteq> m" "p \<noteq> m" using gout(1) [OF Some] m ru by auto
      moreover obtain nd where "?h j = Some nd" using gout(2) [OF Some] rep_dom [OF t(1)] by blast
      moreover have "is_left_child ?h1 p \<longleftrightarrow> n_left (the (?h j)) = Some p"
        using calculation Some g h1 by (simp add: is_left_child_def parent_of_def)
      ultimately show ?thesis
        using Some \<open>find_leaf w t = Some n\<close> t(7) pn r(1) sib g h1
        by (simp add: remove_window_def h'_def Let_def upd_node_def relink_def)
    qed
    moreover have "rep h' None (replace p u t)"
    proof (rule rep_replace [OF t(1) r(2) t(3)])
      show "\<forall>i\<in>set (ids t) - set (ids ?old). ?g \<noteq> Some i \<longrightarrow> h' i = ?h i"
      proof (intro ballI impI)
        fix i
        assume "i \<in> set (ids t) - set (ids ?old)" and ng: "?g \<noteq> Some i"
        then have "i \<noteq> m" using m(2) ru(2) by blast
        with h1 [of i] ng show "h' i = ?h i" by (auto simp: h'_def split: option.splits)
      qed
      show "\<forall>j\<in>set (ids t). ?g = Some j \<longrightarrow> h' j = map_option (relink p (root_id u)) (?h j)"
        using m by (simp add: h'_def)
      have "rep ?h1 ?g u" using rep_set_parent [OF ru(1,3)] m(1) by simp
      then show "rep h' ?g u"
        by (rule rep_frame) (use gout(1) ru(2) in \<open>auto simp: h'_def split: option.splits\<close>)
    qed
    moreover obtain xs ys xs' ys' where
        w: "window_ids t = xs @ window_ids ?old @ ys" "window_ids (replace p u t) = xs @ window_ids u @ ys" and
        i: "ids t = xs' @ ids ?old @ ys'" "ids (replace p u t) = xs' @ ids u @ ys'"
      using replace_splice [OF r(2) t(4,3)] by blast
    moreover have "distinct (ids (replace p u t))" "set (ids (replace p u t)) \<subseteq> set (ids t)"
      using i t(3) ru(2,3) by auto
    moreover have "distinct (window_ids (replace p u t))"
      using remove_tree_windows [OF t(4,6), of w] t(6) r(5) by (metis distinct_remove1)
    moreover have "wf_tile (replace p u t)" by (rule replace_wf [OF t(4) r(9)])
    moreover have "root_id (replace p u t) = (if ?g = None then Some m else s_root s)"
      using parent_in_cases [OF p, of None] t(2) m by (auto simp: root_replace)
    moreover have "((s_index s)(w := None)) x = find_leaf x (replace p u t)" for x
    proof -
      have wo: "set (window_ids ?old) = insert w (set (window_ids u))" using r(3,6) by simp
      have "find_leaf x u = find_leaf x t" if "x \<in> set (window_ids u)"
      proof -
        have "find_leaf x t = find_leaf x ?old"
          by (rule find_leaf_subtree [OF r(2) t(6,4)]) (use that wo in blast)
        moreover have "distinct (window_ids ?old)" using w(1) t(6) by simp
        then have "set (window_ids A) \<inter> set (window_ids B) = {}" using r(3) by simp
        then have "find_leaf x A = None \<or> find_leaf x B = None" by (auto simp: find_leaf_None)
        moreover have "find_leaf x u \<noteq> None" using that by (simp add: find_leaf_None)
        ultimately show ?thesis using r(3,4) by auto
      qed
      then show ?thesis using wo r(7) t(7)
        by (subst find_leaf_replace [OF r(2) t(3,4,6)]) auto
    qed
    ultimately show ?thesis using t(5) r(5) by (auto simp: tree_inv_def)
  qed
qed

text \<open>
  C8. Removing a window never dereferences nil, and implements one replacement of the tree: the
  sibling of the window's leaf takes the place of their parent. The window leaves the order of the
  leaves, all others keep theirs, and the invariant holds again.
\<close>

theorem remove_window_refines:
  assumes "bsp_inv s"
  shows "\<exists>s'. remove_window w s = Some s' \<and> bsp_inv s' \<and> tree_of s' = remove_tree w (tree_of s) \<and>
    window_ids (tree_of s') = remove1 w (window_ids (tree_of s))"
proof -
  obtain s' where s': "remove_window w s = Some s'" "tree_inv s' (remove_tree w (tree_of s))"
    using remove_window_inv assms unfolding bsp_inv_def by blast
  moreover have "window_ids (remove_tree w (tree_of s)) = remove1 w (window_ids (tree_of s))"
    using assms remove_tree_windows [of "tree_of s" w]
    by (cases "tree_of s = NoTile") (auto simp: bsp_inv_def tree_inv_def)
  ultimately show ?thesis using bsp_invI by auto
qed

subsection \<open>Rotation and swapping\<close>

fun relabel :: "(int \<Rightarrow> int) \<Rightarrow> tile \<Rightarrow> tile" where
  "relabel f NoTile = NoTile"
| "relabel f (Tile i w s r a lt rt) =
     Tile i (if s = SplitNone then f w else w) s r a (relabel f lt) (relabel f rt)"

definition swap_id :: "int \<Rightarrow> int \<Rightarrow> int \<Rightarrow> int" where
  "swap_id a b w = (if w = a then b else if w = b then a else w)"

lemma swap_id_inv [simp]: "swap_id a b (swap_id a b w) = w"
  by (simp add: swap_id_def)

lemma swap_id_inj: "inj (swap_id a b)"
  by (rule inj_on_inverseI [of _ "swap_id a b"]) simp

lemma relabel_lists [simp]:
  "ids (relabel f t) = ids t" "wf_tile (relabel f t) = wf_tile t" "root_id (relabel f t) = root_id t"
  "relabel f t = NoTile \<longleftrightarrow> t = NoTile" "window_ids (relabel f t) = map f (window_ids t)"
proof -
  show n: "relabel f t = NoTile \<longleftrightarrow> t = NoTile" for t by (cases t) auto
  show "ids (relabel f t) = ids t" "wf_tile (relabel f t) = wf_tile t"
    "window_ids (relabel f t) = map f (window_ids t)" by (induction t) (simp_all add: n)
  show "root_id (relabel f t) = root_id t" by (cases t) auto
qed

lemma find_leaf_relabel: "find_leaf v (relabel (swap_id a b) t) = find_leaf (swap_id a b v) t"
proof (induction t)
  case (Tile i w s r a' lt rt)
  have "swap_id a b w = v \<longleftrightarrow> w = swap_id a b v" by (metis swap_id_inv)
  with Tile show ?case by (simp split: option.splits)
qed simp

lemma rep_relabel:
  "rep h p t \<Longrightarrow> \<forall>i\<in>set (ids t). h' i = map_option (\<lambda>n. n\<lparr>n_window :=
     if n_split n = SplitNone then f (n_window n) else n_window n\<rparr>) (h i) \<Longrightarrow> rep h' p (relabel f t)"
  by (induction t arbitrary: p) auto

lemma node_cases:
  "i \<in> set (ids t) \<Longrightarrow> \<exists>v s r a lt rt. subtree i t = Some (Tile i v s r a lt rt)"
proof -
  assume "i \<in> set (ids t)"
  then obtain u where u: "subtree i t = Some u" using subtree_None [of i t] by auto
  then have "root_id u = Some i" using subtree_SomeD by blast
  with u show ?thesis by (cases u) auto
qed

lemma swap_windows_inv:
  assumes inv: "tree_inv s t" and w: "w1 \<in> set (window_ids t)" "w2 \<in> set (window_ids t)"
  shows "tree_inv (swap_windows w1 w2 s) (relabel (swap_id w1 w2) t)"
proof -
  have t: "rep (s_heap s) None t" "distinct (ids t)" "wf_tile t" "distinct (window_ids t)"
      "\<forall>v. s_index s v = find_leaf v t"
    using inv w by (auto simp: tree_inv_def)
  obtain n1 n2 where n: "find_leaf w1 t = Some n1" "find_leaf w2 t = Some n2"
    using w find_leaf_None [of w1 t] find_leaf_None [of w2 t] by auto
  obtain r1 a1 r2 a2 where l: "subtree n1 t = Some (Tile n1 w1 SplitNone r1 a1 NoTile NoTile)"
      "subtree n2 t = Some (Tile n2 w2 SplitNone r2 a2 NoTile NoTile)"
    using leaf_subtree [OF n(1) t(2,3)] leaf_subtree [OF n(2) t(2,3)] by blast
  have v: "window_of n1 s = w1" "window_of n2 s = w2"
    using rep_subtree [OF t(1) l(1)] rep_subtree [OF t(1) l(2)] by (simp_all add: window_of_def)
  let ?h' = "upd_node n2 (\<lambda>n. n\<lparr>n_window := w1\<rparr>) (upd_node n1 (\<lambda>n. n\<lparr>n_window := w2\<rparr>) (s_heap s))"
  have sw: "swap_windows w1 w2 s = s\<lparr>s_heap := ?h', s_index := (s_index s)(w1 \<mapsto> n2, w2 \<mapsto> n1)\<rparr>"
    using n t(5) v by (simp add: swap_windows_def Let_def)
  have "rep ?h' None (relabel (swap_id w1 w2) t)"
  proof (rule rep_relabel [OF t(1)], rule ballI)
    fix i
    assume "i \<in> set (ids t)"
    then obtain x d r a lt rt where i: "subtree i t = Some (Tile i x d r a lt rt)" using node_cases by blast
    note hi = rep_subtree [OF t(1) i]
    have "d = SplitNone \<Longrightarrow> find_leaf x t = Some i"
      using find_leaf_subtree [OF i t(4,3), of x] by simp
    then have "i = n1 \<longleftrightarrow> d = SplitNone \<and> x = w1" "i = n2 \<longleftrightarrow> d = SplitNone \<and> x = w2"
      using n l i by auto
    with hi show "?h' i = map_option (\<lambda>n. n\<lparr>n_window := if n_split n = SplitNone
        then swap_id w1 w2 (n_window n) else n_window n\<rparr>) (s_heap s i)"
      by (auto simp: upd_node_def swap_id_def split: option.splits)
  qed
  moreover have "((s_index s)(w1 \<mapsto> n2, w2 \<mapsto> n1)) x = find_leaf x (relabel (swap_id w1 w2) t)" for x
    using t(5) n by (auto simp: find_leaf_relabel swap_id_def)
  moreover have "distinct (map (swap_id w1 w2) (window_ids t))"
    using t(4) swap_id_inj by (auto simp: distinct_map intro: inj_on_subset)
  ultimately show ?thesis using inv unfolding sw by (simp add: tree_inv_def)
qed

lemma layout_rec_relabel:
  assumes "inj f"
  shows "apply_layout_rec (relabel f t) b gap res (f v) = apply_layout_rec t b gap (\<lambda>w. res (f w)) v"
proof (induction t arbitrary: b res v)
  case (Tile i w s r a lt rt)
  obtain lb rb where cb: "child_bounds s r a b gap = (lb, rb)" by fastforce
  have "(\<lambda>w. apply_layout_rec (relabel f lt) lb gap res (f w)) = apply_layout_rec lt lb gap (\<lambda>w. res (f w))"
    by (rule ext) (rule Tile.IH(1))
  with Tile.IH(2) cb assms show ?case by (auto simp: inj_eq)
qed simp

text \<open>
  C12. Swapping two windows of the tree exchanges their rectangles and leaves every other window
  where it is; the pointers and the index agree with the new tree.
\<close>

theorem swap_exchanges_rectangles:
  assumes "bsp_inv s" "w1 \<in> set (window_ids (tree_of s))" "w2 \<in> set (window_ids (tree_of s))"
  shows "bsp_inv (swap_windows w1 w2 s) \<and>
    apply_layout (tree_of (swap_windows w1 w2 s)) b gap v =
      apply_layout (tree_of s) b gap (if v = w1 then w2 else if v = w2 then w1 else v)"
proof -
  let ?f = "swap_id w1 w2"
  have s: "bsp_inv (swap_windows w1 w2 s) \<and> tree_of (swap_windows w1 w2 s) = relabel ?f (tree_of s)"
    using assms swap_windows_inv bsp_invI unfolding bsp_inv_def by blast
  have "apply_layout_rec (relabel ?f (tree_of s)) b gap Map.empty v =
      apply_layout_rec (tree_of s) b gap Map.empty (?f v)"
    using layout_rec_relabel [OF swap_id_inj, of w1 w2 "tree_of s" b gap Map.empty "?f v"]
    by simp
  with s show ?thesis by (simp add: apply_layout_def swap_id_def)
qed

subsection \<open>Histories\<close>

text \<open>What an insertion is given besides the window.\<close>

record placement =
  pl_focused :: int
  pl_direction :: split_type
  pl_ratio :: f64
  pl_bounds :: rect
  pl_gap :: int

definition bsp_open :: "placement \<Rightarrow> int \<Rightarrow> bsp_state \<Rightarrow> bsp_state" where
  "bsp_open p w s = insert_window w (pl_focused p) (pl_direction p) (pl_ratio p) (pl_bounds p) (pl_gap p) s"

definition bsp_close :: "int \<Rightarrow> bsp_state \<Rightarrow> bsp_state" where
  "bsp_close w s = (case remove_window w s of Some s' \<Rightarrow> s' | None \<Rightarrow> s)"

definition bsp_windows :: "bsp_state \<Rightarrow> int set" where
  "bsp_windows s = set (window_ids (tree_of s))"

lemma bsp_open_sound:
  assumes "bsp_inv s" "w \<notin> bsp_windows s"
  shows "bsp_inv (bsp_open p w s) \<and> bsp_windows (bsp_open p w s) = insert w (bsp_windows s)"
proof -
  let ?r = "if pl_ratio p \<le> 0 \<or> pl_ratio p \<ge> 1 then s_ratio s else pl_ratio p"
  have "tree_inv (bsp_open p w s)
      (spec_insert w (pl_focused p) (pl_direction p) ?r (pl_bounds p) (pl_gap p) False s)"
    unfolding bsp_open_def by (rule insert_window_inv [OF assms(1) _ refl]) (use assms(2) in \<open>simp add: bsp_windows_def\<close>)
  note i = bsp_invI [OF this]
  show ?thesis
  proof (cases "tree_of s = NoTile")
    case True
    with i show ?thesis by (simp add: bsp_windows_def spec_insert_def leaf_tile_def)
  next
    case False
    obtain xs ys where "window_ids (tree_of s) = xs @ target_window (pl_focused p) (tree_of s) # ys"
        "window_ids (tree_of (bsp_open p w s)) = xs @ [target_window (pl_focused p) (tree_of s), w] @ ys"
      using spec_insert_windows [OF assms(1) _ False, of w "pl_focused p" "pl_direction p" ?r "pl_bounds p"
          "pl_gap p" False] assms(2) i by (auto simp: bsp_windows_def)
    with i show ?thesis by (auto simp: bsp_windows_def)
  qed
qed

lemma bsp_close_sound:
  assumes "bsp_inv s"
  shows "bsp_inv (bsp_close w s) \<and> bsp_windows (bsp_close w s) = bsp_windows s - {w}"
proof -
  obtain s' where s': "remove_window w s = Some s'" "tree_inv s' (remove_tree w (tree_of s))"
    using remove_window_inv assms unfolding bsp_inv_def by blast
  moreover have "distinct (window_ids (tree_of s))" "tree_of s = NoTile \<or> wf_tile (tree_of s)"
    using assms by (auto simp: bsp_inv_def tree_inv_def)
  ultimately show ?thesis
    using remove_tree_windows [of "tree_of s" w] bsp_invI [OF s'(2)]
    by (auto simp: bsp_close_def bsp_windows_def)
qed

interpretation bsp_reg: window_registry bsp_inv bsp_windows bsp_open bsp_close
  by unfold_locales (simp_all add: bsp_open_sound bsp_close_sound)

text \<open>
  C6. Whatever windows are opened and closed, in whatever order and with whatever focus, direction
  and ratio, the tree keeps its invariant (links, parents, index and tree agree; identifiers and
  windows occur once) and holds exactly the windows that are open.
\<close>

theorem bsp_history:
  assumes "fresh_opens {} es"
  shows "bsp_inv (foldl (layout_step bsp_open bsp_close) (new_state c) es) \<and>
    set (window_ids (tree_of (foldl (layout_step bsp_open bsp_close) (new_state c) es))) =
      foldl set_step {} es"
  using bsp_reg.run_sound [of "new_state c" es] new_state_inv [of c] assms
  by (simp add: bsp_windows_def)

definition demo_place :: placement where
  "demo_place = \<lparr>pl_focused = 4, pl_direction = SplitNone, pl_ratio = 0, pl_bounds = demo_bounds, pl_gap = 1\<rparr>"

theorem bsp_history_witness:
  "set (window_ids (tree_of (foldl (layout_step bsp_open bsp_close) (new_state 0)
     [Opened demo_place 4, Opened demo_place 5, Closed 4, Opened demo_place 6]))) = {5, 6}"
  using bsp_history [of "[Opened demo_place 4, Opened demo_place 5, Closed 4, Opened demo_place 6]" 0]
  by (simp add: set_step_def insert_commute)

definition two_windows :: bsp_state where
  "two_windows = foldl (layout_step bsp_open bsp_close) (new_state 0) [Opened demo_place 4, Opened demo_place 5]"

lemma two_windows_inv: "bsp_inv two_windows \<and> set (window_ids (tree_of two_windows)) = {4, 5}"
  unfolding two_windows_def
  using bsp_reg.run_sound [of "new_state 0" "[Opened demo_place 4, Opened demo_place 5]"] new_state_inv [of 0]
  by (simp add: set_step_def bsp_windows_def insert_commute)

lemma two_windows_tree: "tree_of two_windows \<noteq> NoTile"
  using two_windows_inv by auto

lemma insert_presel_order_witness:
  "bsp_inv (insert_presel 9 5 PreselLeft demo_bounds 1 two_windows)"
  using insert_presel_order [of two_windows 9 PreselLeft SplitVertical True 5 demo_bounds 1]
    two_windows_inv two_windows_tree by simp

theorem remove_window_refines_witness:
  "\<exists>s'. remove_window 4 two_windows = Some s' \<and> bsp_inv s'"
  using remove_window_refines [of two_windows 4] two_windows_inv by blast

theorem swap_exchanges_rectangles_witness:
  "apply_layout (tree_of (swap_windows 4 5 two_windows)) demo_bounds 1 4 =
   apply_layout (tree_of two_windows) demo_bounds 1 5"
  using swap_exchanges_rectangles [of two_windows 4 5 demo_bounds 1 4] two_windows_inv by simp

end
