(* ===== verification/Scrolling.thy ===== *)
theory Scrolling
  imports Float64 WindowRegistry "HOL-Library.Multiset"
begin

text \<open>
  The scrolling layout (\<^verbatim>\<open>internal/layout/scrolling.go\<close>): columns of stacked windows on a strip
  wider than the screen, a focused column and a viewport. An operation that indexes the columns
  without checking the focus first returns an option: \<open>None\<close> is the index panic, which the
  invariant rules out.
\<close>

subsection \<open>State\<close>

record scroll_column =
  sc_windows :: "int list"
  sc_proportion :: f64
  sc_fixed :: int

record strip =
  sp_columns :: "scroll_column list"
  sp_focus :: int
  sp_view :: int
  sp_default :: f64
  sp_presets :: "f64 list"
  sp_gap :: int

definition new_strip :: strip where
  "new_strip = \<lparr>sp_columns = [], sp_focus = 0, sp_view = 0, sp_default = f64_round (55 / 100),
     sp_presets = map f64_round [333 / 1000, 1 / 2, 55 / 100, 667 / 1000, 9 / 10], sp_gap = 0\<rparr>"

definition single_column :: "int \<Rightarrow> scroll_column" where
  "single_column w = \<lparr>sc_windows = [w], sc_proportion = 0, sc_fixed = 0\<rparr>"

definition column_count :: "strip \<Rightarrow> int" where
  "column_count s = int (length (sp_columns s))"

definition focus_valid :: "strip \<Rightarrow> bool" where
  "focus_valid s \<longleftrightarrow> 0 \<le> sp_focus s \<and> sp_focus s < column_count s"

subsection \<open>Adding, removing, moving\<close>

definition add_column :: "int \<Rightarrow> strip \<Rightarrow> strip option" where
  "add_column w s =
     (if 0 < column_count s \<and> sp_focus s < column_count s - 1
      then if sp_focus s + 1 < 0 then None
           else Some (s\<lparr>sp_columns := insert_at (nat (sp_focus s + 1)) (single_column w) (sp_columns s),
                  sp_focus := sp_focus s + 1\<rparr>)
      else Some (s\<lparr>sp_columns := sp_columns s @ [single_column w], sp_focus := column_count s\<rparr>))"

fun find_column :: "int \<Rightarrow> scroll_column list \<Rightarrow> nat option" where
  "find_column w [] = None"
| "find_column w (c # cs) = (if w \<in> set (sc_windows c) then Some 0 else map_option Suc (find_column w cs))"

definition strip_remove :: "int \<Rightarrow> strip \<Rightarrow> strip" where
  "strip_remove w s =
     (case find_column w (sp_columns s) of None \<Rightarrow> s
      | Some i \<Rightarrow>
        let c = sp_columns s ! i; ws = remove1 w (sc_windows c)
        in if ws \<noteq> [] then s\<lparr>sp_columns := (sp_columns s)[i := c\<lparr>sc_windows := ws\<rparr>]\<rparr>
           else let cs = remove_nth i (sp_columns s);
                    f = (if sp_focus s \<ge> int i \<and> sp_focus s > 0 then sp_focus s - 1 else sp_focus s)
                in s\<lparr>sp_columns := cs,
                     sp_focus := (if f \<ge> int (length cs) \<and> cs \<noteq> [] then int (length cs) - 1 else f)\<rparr>)"

definition focus_left :: "strip \<Rightarrow> strip" where
  "focus_left s = (if sp_focus s > 0 then s\<lparr>sp_focus := sp_focus s - 1\<rparr> else s)"

definition focus_right :: "strip \<Rightarrow> strip" where
  "focus_right s = (if sp_focus s < column_count s - 1 then s\<lparr>sp_focus := sp_focus s + 1\<rparr> else s)"

definition move_column_left :: "strip \<Rightarrow> strip option" where
  "move_column_left s =
     (if sp_focus s > 0
      then if sp_focus s < column_count s
           then Some (s\<lparr>sp_columns := swap_nth (nat (sp_focus s)) (nat (sp_focus s - 1)) (sp_columns s),
                  sp_focus := sp_focus s - 1\<rparr>)
           else None
      else Some s)"

definition move_column_right :: "strip \<Rightarrow> strip option" where
  "move_column_right s =
     (if sp_focus s < column_count s - 1
      then if 0 \<le> sp_focus s
           then Some (s\<lparr>sp_columns := swap_nth (nat (sp_focus s)) (nat (sp_focus s + 1)) (sp_columns s),
                  sp_focus := sp_focus s + 1\<rparr>)
           else None
      else Some s)"

definition set_column :: "(scroll_column \<Rightarrow> scroll_column) \<Rightarrow> nat \<Rightarrow> strip \<Rightarrow> strip" where
  "set_column f i s = s\<lparr>sp_columns := (sp_columns s)[i := f (sp_columns s ! i)]\<rparr>"

fun next_preset :: "f64 \<Rightarrow> f64 list \<Rightarrow> f64 option" where
  "next_preset current [] = None"
| "next_preset current (w # ws) =
     (if w > f64_add current (f64_round (1 / 100)) then Some w else next_preset current ws)"

definition cycle_width :: "strip \<Rightarrow> strip" where
  "cycle_width s =
     (if \<not> focus_valid s \<or> sp_presets s = [] then s
      else let i = nat (sp_focus s); c = sp_columns s ! i;
               current = (if sc_proportion c = 0 then sp_default s else sc_proportion c);
               w = (case next_preset current (sp_presets s) of Some w \<Rightarrow> w | None \<Rightarrow> hd (sp_presets s))
           in set_column (\<lambda>c. c\<lparr>sc_fixed := 0, sc_proportion := w\<rparr>) i s)"

definition consume_window :: "strip \<Rightarrow> strip option" where
  "consume_window s =
     (if sp_focus s \<ge> column_count s - 1 then Some s
      else if sp_focus s + 1 < 0 then None
      else let i = nat (sp_focus s + 1); nxt = sp_columns s ! i
      in case sc_windows nxt of [] \<Rightarrow> Some s
         | w # ws \<Rightarrow>
           if sp_focus s < 0 then None
           else let s1 = set_column (\<lambda>c. c\<lparr>sc_windows := ws\<rparr>) i s;
                    s2 = set_column (\<lambda>c. c\<lparr>sc_windows := sc_windows c @ [w]\<rparr>) (nat (sp_focus s)) s1
                in Some (if ws = [] then s2\<lparr>sp_columns := remove_nth i (sp_columns s2)\<rparr> else s2))"

definition expel_window :: "strip \<Rightarrow> strip" where
  "expel_window s =
     (if \<not> focus_valid s then s
      else let i = nat (sp_focus s); ws = sc_windows (sp_columns s ! i)
           in if length ws < 2 then s
              else let s1 = set_column (\<lambda>c. c\<lparr>sc_windows := butlast ws\<rparr>) i s
                   in s1\<lparr>sp_columns := insert_at (Suc i) (single_column (last ws)) (sp_columns s1)\<rparr>)"

definition focus_containing :: "int \<Rightarrow> strip \<Rightarrow> bool \<times> strip" where
  "focus_containing w s =
     (case find_column w (sp_columns s) of Some i \<Rightarrow> (True, s\<lparr>sp_focus := int i\<rparr>) | None \<Rightarrow> (False, s))"

subsection \<open>Widths and the viewport\<close>

definition resolve_width :: "strip \<Rightarrow> scroll_column \<Rightarrow> int \<Rightarrow> int" where
  "resolve_width s c sw =
     (let maxw = go_div (sw * 9) 10
      in if sc_fixed c > 0 then min (sc_fixed c) maxw
         else let p = (if sc_proportion c \<le> 0 then sp_default s else sc_proportion c)
              in min (max (scale_cells sw p) 10) maxw)"

definition resolve_column_width :: "strip \<Rightarrow> int \<Rightarrow> int \<Rightarrow> int" where
  "resolve_column_width s i sw =
     (if i < 0 \<or> i \<ge> column_count s then 0 else resolve_width s (sp_columns s ! nat i) sw)"

fun strip_width :: "strip \<Rightarrow> int \<Rightarrow> scroll_column list \<Rightarrow> int" where
  "strip_width s sw [] = 0"
| "strip_width s sw [c] = resolve_width s c sw"
| "strip_width s sw (c # cs) = resolve_width s c sw + sp_gap s + strip_width s sw cs"

definition total_strip_width :: "strip \<Rightarrow> int \<Rightarrow> int" where
  "total_strip_width s sw = strip_width s sw (sp_columns s)"

definition column_x :: "strip \<Rightarrow> int \<Rightarrow> int \<Rightarrow> int" where
  "column_x s i sw = (\<Sum>c\<leftarrow>take (nat i) (sp_columns s). resolve_width s c sw + sp_gap s)"

definition clamp_viewport :: "int \<Rightarrow> strip \<Rightarrow> strip" where
  "clamp_viewport sw s =
     (let maxs = max (total_strip_width s sw - sw) 0;
          v = (if sp_view s < 0 then 0 else sp_view s)
      in s\<lparr>sp_view := (if v > maxs then maxs else v)\<rparr>)"

definition scroll_to_focused :: "int \<Rightarrow> strip \<Rightarrow> strip" where
  "scroll_to_focused sw s =
     (if \<not> focus_valid s then s
      else let x = column_x s (sp_focus s) sw; w = resolve_width s (sp_columns s ! nat (sp_focus s)) sw
           in clamp_viewport sw (s\<lparr>sp_view := x - go_div (sw - w) 2\<rparr>))"

definition ensure_focused_visible :: "int \<Rightarrow> strip \<Rightarrow> strip" where
  "ensure_focused_visible sw s =
     (if \<not> focus_valid s then s
      else let x = column_x s (sp_focus s) sw; w = resolve_width s (sp_columns s ! nat (sp_focus s)) sw
           in if x \<ge> sp_view s \<and> x + w \<le> sp_view s + sw then s
              else clamp_viewport sw (s\<lparr>sp_view := x - go_div (sw - w) 2\<rparr>))"

subsection \<open>Positions\<close>

text \<open>The windows of one column, the \<open>j\<close>-th next; \<open>k\<close> is how many there are.\<close>

fun place_stack ::
    "int \<Rightarrow> int \<Rightarrow> int \<Rightarrow> int \<Rightarrow> int \<Rightarrow> int \<Rightarrow> int list \<Rightarrow> (int \<rightharpoonup> rect) \<Rightarrow> (int \<rightharpoonup> rect)" where
  "place_stack x cw uh tm k j [] res = res"
| "place_stack x cw uh tm k j (w # ws) res =
     (let ch = go_div uh k; h = (if j = k - 1 then uh - j * ch else ch)
      in place_stack x cw uh tm k (j + 1) ws (res(w \<mapsto> mk_rect x (tm + j * ch) cw h)))"

fun place_columns ::
    "strip \<Rightarrow> int \<Rightarrow> int \<Rightarrow> int \<Rightarrow> int \<Rightarrow> scroll_column list \<Rightarrow> (int \<rightharpoonup> rect) \<Rightarrow> (int \<rightharpoonup> rect)" where
  "place_columns s sw uh tm x [] res = res"
| "place_columns s sw uh tm x (c # cs) res =
     (let cw = resolve_width s c sw
      in place_columns s sw uh tm (x + cw + sp_gap s) cs
           (if sc_windows c = [] then res
            else place_stack (x - sp_view s) cw uh tm (int (length (sc_windows c))) 0 (sc_windows c) res))"

definition compute_positions :: "strip \<Rightarrow> int \<Rightarrow> int \<Rightarrow> int \<Rightarrow> (int \<rightharpoonup> rect)" where
  "compute_positions s sw uh tm = place_columns s sw uh tm 0 (sp_columns s) Map.empty"

definition strip_windows :: "strip \<Rightarrow> int list" where
  "strip_windows s = concat (map sc_windows (sp_columns s))"

definition window_count :: "strip \<Rightarrow> int" where
  "window_count s = (\<Sum>c\<leftarrow>sp_columns s. int (length (sc_windows c)))"

definition focused_window :: "strip \<Rightarrow> int" where
  "focused_window s =
     (if \<not> focus_valid s then - 1
      else case sc_windows (sp_columns s ! nat (sp_focus s)) of [] \<Rightarrow> - 1 | w # _ \<Rightarrow> w)"

definition has_window :: "int \<Rightarrow> strip \<Rightarrow> bool" where
  "has_window w s \<longleftrightarrow> (\<exists>c\<in>set (sp_columns s). w \<in> set (sc_windows c))"

end
