(* ===== verification/ScrollingInv.thy ===== *)
theory ScrollingInv
  imports Scrolling
begin

text \<open>
  The operations of the scrolling strip keep it well formed: no column is empty, no window occurs
  twice, and the focus is the index of a column, so that no operation indexes out of range.
\<close>

subsection \<open>Windows as a multiset\<close>

lemma concat_take_drop:
  "i < length xs \<Longrightarrow> mset (concat (map f xs)) =
     mset (concat (map f (take i xs))) + mset (f (xs ! i)) + mset (concat (map f (drop (Suc i) xs)))"
proof -
  assume "i < length xs"
  then have "xs = take i xs @ xs ! i # drop (Suc i) xs" by (simp add: id_take_nth_drop)
  then have "concat (map f xs) = concat (map f (take i xs @ xs ! i # drop (Suc i) xs))" by (rule arg_cong)
  then show ?thesis by simp
qed

lemma mset_insert_at:
  "mset (concat (map f (insert_at i x xs))) = mset (f x) + mset (concat (map f xs))"
proof -
  have "concat (map f xs) = concat (map f (take i xs)) @ concat (map f (drop i xs))"
    by (metis append_take_drop_id concat_append map_append)
  then show ?thesis by (simp add: insert_at_def)
qed

lemma mset_remove_nth:
  "i < length xs \<Longrightarrow>
   mset (concat (map f xs)) = mset (f (xs ! i)) + mset (concat (map f (remove_nth i xs)))"
  by (simp add: concat_take_drop [of i xs] remove_nth_def)

lemma mset_update:
  "i < length xs \<Longrightarrow>
   mset (concat (map f (xs[i := y]))) + mset (f (xs ! i)) = mset (f y) + mset (concat (map f xs))"
  by (simp add: concat_take_drop [of i xs f] upd_conv_take_nth_drop)

lemma mset_swap_nth: "i < length xs \<Longrightarrow> j < length xs \<Longrightarrow> mset (swap_nth i j xs) = mset xs"
  by (simp add: swap_nth_def mset_swap)

lemma mset_concat_mset: "mset xs = mset ys \<Longrightarrow> mset (concat (map f xs)) = mset (concat (map f ys))"
  by (simp add: mset_concat) (metis mset_map sum_mset_sum_list)

lemma find_column_Some:
  "find_column w cs = Some i \<Longrightarrow> i < length cs \<and> w \<in> set (sc_windows (cs ! i))"
  by (induction cs arbitrary: i) (auto split: if_splits)

lemma find_column_None: "find_column w cs = None \<longleftrightarrow> w \<notin> set (concat (map sc_windows cs))"
  by (induction cs) auto

subsection \<open>The invariant\<close>

definition strip_inv :: "strip \<Rightarrow> bool" where
  "strip_inv s \<longleftrightarrow>
     distinct (strip_windows s) \<and> (\<forall>c\<in>set (sp_columns s). sc_windows c \<noteq> []) \<and>
     0 \<le> sp_focus s \<and> (sp_focus s < column_count s \<or> sp_columns s = [] \<and> sp_focus s = 0)"

text \<open>A change of the strip that is sound for a multiset of windows.\<close>

definition keeps :: "strip \<Rightarrow> int multiset \<Rightarrow> bool" where
  "keeps s W \<longleftrightarrow> mset (strip_windows s) = W \<and> (\<forall>c\<in>set (sp_columns s). sc_windows c \<noteq> []) \<and>
     0 \<le> sp_focus s \<and> (sp_focus s < column_count s \<or> sp_columns s = [] \<and> sp_focus s = 0)"

lemma strip_inv_keeps: "strip_inv s \<longleftrightarrow> keeps s (mset (strip_windows s)) \<and> distinct (strip_windows s)"
  by (auto simp: strip_inv_def keeps_def)

lemma keeps_inv: "keeps s (mset ws) \<Longrightarrow> distinct ws \<Longrightarrow> strip_inv s"
  using mset_eq_imp_distinct_iff [of "strip_windows s" ws] by (simp add: strip_inv_def keeps_def)

lemmas strip_simps = keeps_def strip_windows_def column_count_def focus_valid_def

lemma new_strip_inv: "strip_inv new_strip"
  by (simp add: strip_inv_def new_strip_def strip_windows_def)

lemma add_column_keeps:
  "keeps s W \<Longrightarrow> \<exists>s'. add_column w s = Some s' \<and> keeps s' (add_mset w W)"
  by (auto simp: strip_simps add_column_def mset_insert_at single_column_def)

lemma remove_keeps:
  assumes "keeps s W"
  shows "keeps (strip_remove w s) (W - {#w#})"
proof (cases "find_column w (sp_columns s)")
  case None
  then have "w \<notin> set (strip_windows s)" by (simp add: find_column_None strip_windows_def)
  then have "w \<notin># W" using assms by (auto simp: keeps_def)
  with None assms show ?thesis by (simp add: strip_remove_def diff_single_trivial)
next
  case (Some i)
  let ?cs = "sp_columns s" let ?c = "sp_columns s ! i"
  define ws where "ws = remove1 w (sc_windows ?c)"
  have i: "i < length ?cs" "w \<in> set (sc_windows ?c)" using find_column_Some [OF Some] by auto
  have W: "W = mset (concat (map sc_windows ?cs))" using assms by (simp add: strip_simps)
  have S: "mset (sc_windows ?c) = add_mset w (mset ws)" using i(2) by (simp add: ws_def)
  show ?thesis
  proof (cases "ws = []")
    case False
    have "add_mset w (mset (concat (map sc_windows (?cs[i := ?c\<lparr>sc_windows := ws\<rparr>])))) = W"
      using mset_update [of i ?cs sc_windows "?c\<lparr>sc_windows := ws\<rparr>"] i(1) W S by simp
    then have "mset (concat (map sc_windows (?cs[i := ?c\<lparr>sc_windows := ws\<rparr>]))) = W - {#w#}" by auto
    moreover have "\<forall>c\<in>set (?cs[i := ?c\<lparr>sc_windows := ws\<rparr>]). sc_windows c \<noteq> []"
      using assms False by (auto simp: keeps_def dest!: set_update_subset_insert [THEN subsetD])
    ultimately show ?thesis using Some False assms by (simp add: strip_remove_def strip_simps ws_def Let_def)
  next
    case True
    then have "mset (sc_windows ?c) = {#w#}" using S by simp
    then have "mset (concat (map sc_windows (remove_nth i ?cs))) = W - {#w#}"
      using mset_remove_nth [of i ?cs sc_windows] i(1) W by simp
    moreover have "\<forall>c\<in>set (remove_nth i ?cs). sc_windows c \<noteq> []"
      using assms by (auto simp: keeps_def remove_nth_def dest: in_set_takeD in_set_dropD)
    moreover have l: "length (remove_nth i ?cs) = length ?cs - 1" using i(1) by simp
    moreover have "0 \<le> sp_focus s" "sp_focus s < int (length ?cs)"
      using assms i(1) by (auto simp: strip_simps)
    moreover have "remove_nth i ?cs \<noteq> [] \<longleftrightarrow> 1 < length ?cs" using l i(1) by (cases "remove_nth i ?cs") auto
    ultimately show ?thesis
      using Some True i(1)
      by (cases "remove_nth i ?cs = []")
        (simp_all add: strip_remove_def keeps_def strip_windows_def column_count_def Let_def ws_def)
  qed
qed

lemma focus_keeps:
  "keeps s W \<Longrightarrow> keeps (focus_left s) W" "keeps s W \<Longrightarrow> keeps (focus_right s) W"
  "keeps s W \<Longrightarrow> keeps (snd (focus_containing w s)) W"
  by (auto simp: strip_simps focus_left_def focus_right_def focus_containing_def
      dest!: find_column_Some split: option.splits)

lemma swap_keeps:
  assumes "keeps s W" "i < length (sp_columns s)" "j < length (sp_columns s)" "0 \<le> f" "f < column_count s"
  shows "keeps (s\<lparr>sp_columns := swap_nth i j (sp_columns s), sp_focus := f\<rparr>) W"
proof -
  have m: "mset (swap_nth i j (sp_columns s)) = mset (sp_columns s)" by (rule mset_swap_nth) fact+
  then have "set (swap_nth i j (sp_columns s)) = set (sp_columns s)" by (metis set_mset_mset)
  with assms mset_concat_mset [OF m, of sc_windows] show ?thesis by (simp add: strip_simps)
qed

lemma move_keeps:
  assumes "keeps s W"
  shows "\<exists>s'. move_column_left s = Some s' \<and> keeps s' W" "\<exists>s'. move_column_right s = Some s' \<and> keeps s' W"
proof -
  show "\<exists>s'. move_column_left s = Some s' \<and> keeps s' W"
  proof (cases "sp_focus s > 0")
    case True
    then have "sp_focus s < column_count s" using assms by (auto simp: keeps_def)
    with True assms swap_keeps [OF assms, of "nat (sp_focus s)" "nat (sp_focus s - 1)" "sp_focus s - 1"]
    show ?thesis by (simp add: move_column_left_def column_count_def)
  qed (use assms in \<open>simp add: move_column_left_def\<close>)
  show "\<exists>s'. move_column_right s = Some s' \<and> keeps s' W"
  proof (cases "sp_focus s < column_count s - 1")
    case True
    moreover have "0 \<le> sp_focus s" using assms by (simp add: keeps_def)
    ultimately show ?thesis
      using assms swap_keeps [OF assms, of "nat (sp_focus s)" "nat (sp_focus s + 1)" "sp_focus s + 1"]
      by (simp add: move_column_right_def column_count_def)
  qed (use assms in \<open>simp add: move_column_right_def\<close>)
qed

lemma set_column_sel [simp]:
  "sp_columns (set_column f i s) = (sp_columns s)[i := f (sp_columns s ! i)]"
  "sp_focus (set_column f i s) = sp_focus s" "sp_gap (set_column f i s) = sp_gap s"
  by (simp_all add: set_column_def)

lemma cycle_keeps: "keeps s W \<Longrightarrow> keeps (cycle_width s) W"
proof (cases "focus_valid s \<and> sp_presets s \<noteq> []")
  case True
  assume k: "keeps s W"
  let ?i = "nat (sp_focus s)"
  have i: "?i < length (sp_columns s)" using True by (simp add: focus_valid_def column_count_def nat_less_iff)
  define f where "f = (\<lambda>(x :: f64) (c :: scroll_column). c\<lparr>sc_fixed := 0, sc_proportion := x\<rparr>)"
  have m: "map sc_windows ((sp_columns s)[?i := f x (sp_columns s ! ?i)]) = map sc_windows (sp_columns s)" for x
    using i by (simp add: f_def map_update list_update_same_conv)
  have "\<forall>c\<in>set ((sp_columns s)[?i := f x (sp_columns s ! ?i)]). sc_windows c \<noteq> []" for x
    using k i by (auto simp: keeps_def f_def dest!: set_update_subset_insert [THEN subsetD])
  with True k m show ?thesis
    by (simp add: cycle_width_def strip_simps Let_def f_def)
qed (auto simp: cycle_width_def)

lemma consume_keeps:
  assumes k: "keeps s W"
  shows "\<exists>s'. consume_window s = Some s' \<and> keeps s' W"
proof (cases "sp_focus s \<ge> column_count s - 1")
  case False
  let ?cs = "sp_columns s" and ?f = "nat (sp_focus s)"
  have f: "0 \<le> sp_focus s" "nat (sp_focus s + 1) = Suc ?f" "Suc ?f < length ?cs"
    using False k by (auto simp: keeps_def column_count_def)
  then obtain w ws where nx: "sc_windows (?cs ! Suc ?f) = w # ws"
    using k nth_mem [of "Suc ?f" ?cs] by (cases "sc_windows (?cs ! Suc ?f)") (auto simp: keeps_def)
  define c1 where "c1 = (?cs ! Suc ?f)\<lparr>sc_windows := ws\<rparr>"
  define c2 where "c2 = (?cs ! ?f)\<lparr>sc_windows := sc_windows (?cs ! ?f) @ [w]\<rparr>"
  let ?cs1 = "?cs[Suc ?f := c1]" let ?cs2 = "?cs1[?f := c2]"
  have "mset (concat (map sc_windows ?cs1)) + {#w#} = mset (concat (map sc_windows ?cs))"
    using mset_update [OF f(3), of sc_windows c1] nx by (simp add: c1_def)
  moreover have "mset (concat (map sc_windows ?cs2)) = mset (concat (map sc_windows ?cs1)) + {#w#}"
    using mset_update [of ?f ?cs1 sc_windows c2] f(3) by (simp add: c2_def)
  ultimately have m: "mset (concat (map sc_windows ?cs2)) = W" using k by (simp add: strip_simps)
  have e: "\<forall>c\<in>set ?cs. sc_windows c \<noteq> []" using k by (simp add: keeps_def)
  let ?s2 = "set_column (\<lambda>c. c\<lparr>sc_windows := sc_windows c @ [w]\<rparr>) ?f
      (set_column (\<lambda>c. c\<lparr>sc_windows := ws\<rparr>) (Suc ?f) s)"
  have s2: "sp_columns ?s2 = ?cs2" by (simp add: c1_def c2_def)
  have c: "consume_window s =
      Some (if ws = [] then ?s2\<lparr>sp_columns := remove_nth (Suc ?f) (sp_columns ?s2)\<rparr> else ?s2)"
    using False f nx by (simp add: consume_window_def Let_def)
  have sub: "set ?cs2 \<subseteq> {c1, c2} \<union> set ?cs"
    by (meson insert_subset order_trans set_update_subset_insert subset_insertI Un_upper2 Un_upper1 insertI1 insertI2 set_update_subsetI)
  show ?thesis
  proof (cases "ws = []")
    case True
    have "sc_windows (?cs2 ! Suc ?f) = []" using f(3) True by (simp add: c1_def)
    then have "mset (concat (map sc_windows (remove_nth (Suc ?f) ?cs2))) = W"
      using mset_remove_nth [of "Suc ?f" ?cs2 sc_windows] m f(3) by simp
    moreover have "remove_nth (Suc ?f) ?cs2 = (remove_nth (Suc ?f) ?cs)[?f := c2]"
      using f(3) by (simp add: remove_nth_def take_update_swap drop_update_swap list_update_append list_update_beyond)
    then have "set (remove_nth (Suc ?f) ?cs2) \<subseteq> insert c2 (set ?cs)"
      using set_update_subset_insert [of "remove_nth (Suc ?f) ?cs" ?f c2]
        set_remove_nth_subset [of "Suc ?f" ?cs] by auto
    then have "\<forall>c\<in>set (remove_nth (Suc ?f) ?cs2). sc_windows c \<noteq> []"
      using e by (fastforce simp: c2_def)
    moreover have "sp_focus s < int (length ?cs) - 1" using f by linarith
    ultimately show ?thesis using True c s2 f k
      by (simp add: keeps_def strip_windows_def column_count_def)
  next
    case ne: False
    then have "\<forall>c\<in>set ?cs2. sc_windows c \<noteq> []" using sub e by (auto simp: c1_def c2_def)
    moreover have "sp_focus s < int (length ?cs)" using f by linarith
    ultimately show ?thesis using ne c s2 f m k by (simp add: keeps_def strip_windows_def column_count_def)
  qed
qed (use k in \<open>auto simp: consume_window_def\<close>)

lemma expel_keeps:
  assumes k: "keeps s W"
  shows "keeps (expel_window s) W"
proof (cases "focus_valid s \<and> \<not> length (sc_windows (sp_columns s ! nat (sp_focus s))) < 2")
  case True
  let ?i = "nat (sp_focus s)" and ?cs = "sp_columns s"
  let ?ws = "sc_windows (?cs ! ?i)"
  let ?c = "(?cs ! ?i)\<lparr>sc_windows := butlast ?ws\<rparr>"
  have i: "?i < length ?cs" using True by (simp add: focus_valid_def column_count_def nat_less_iff)
  have ws: "butlast ?ws \<noteq> []" "?ws = butlast ?ws @ [last ?ws]"
    using True by (cases ?ws rule: rev_cases; auto)+
  have "mset (concat (map sc_windows (?cs[?i := ?c]))) + mset ?ws = mset (butlast ?ws) + W"
    using mset_update [OF i, of sc_windows ?c] k by (simp add: strip_simps)
  moreover have "mset ?ws = mset (butlast ?ws) + {#last ?ws#}"
    by (subst ws(2)) simp
  ultimately have "mset (concat (map sc_windows (?cs[?i := ?c]))) + {#last ?ws#} = W" by simp
  moreover have "\<forall>c\<in>set (?cs[?i := ?c]). sc_windows c \<noteq> []"
    using k ws(1) by (auto simp: keeps_def dest!: set_update_subset_insert [THEN subsetD])
  moreover have "0 \<le> sp_focus s" "sp_focus s < int (length ?cs)"
    using True by (auto simp: focus_valid_def column_count_def)
  ultimately show ?thesis using True i
    by (simp add: expel_window_def Let_def keeps_def strip_windows_def column_count_def mset_insert_at
        single_column_def)
qed (use k in \<open>auto simp: expel_window_def Let_def\<close>)

lemma viewport_keeps:
  assumes "keeps s W"
  shows "keeps (s\<lparr>sp_view := v\<rparr>) W" "keeps (clamp_viewport sw s) W"
    "keeps (scroll_to_focused sw s) W" "keeps (ensure_focused_visible sw s) W"
  using assms
  by (auto simp: strip_simps clamp_viewport_def scroll_to_focused_def ensure_focused_visible_def Let_def)

subsection \<open>Every history\<close>

datatype strip_op = AddColumn int | RemoveWindow int | FocusLeft | FocusRight | MoveLeft | MoveRight
  | CycleWidth | Consume | Expel | FocusContaining int | ScrollTo int | EnsureVisible int | Clamp int

fun strip_apply :: "strip_op \<Rightarrow> strip \<Rightarrow> strip option" where
  "strip_apply (AddColumn w) s = add_column w s"
| "strip_apply (RemoveWindow w) s = Some (strip_remove w s)"
| "strip_apply FocusLeft s = Some (focus_left s)"
| "strip_apply FocusRight s = Some (focus_right s)"
| "strip_apply MoveLeft s = move_column_left s"
| "strip_apply MoveRight s = move_column_right s"
| "strip_apply CycleWidth s = Some (cycle_width s)"
| "strip_apply Consume s = consume_window s"
| "strip_apply Expel s = Some (expel_window s)"
| "strip_apply (FocusContaining w) s = Some (snd (focus_containing w s))"
| "strip_apply (ScrollTo sw) s = Some (scroll_to_focused sw s)"
| "strip_apply (EnsureVisible sw) s = Some (ensure_focused_visible sw s)"
| "strip_apply (Clamp sw) s = Some (clamp_viewport sw s)"

fun windows_after :: "strip_op \<Rightarrow> int multiset \<Rightarrow> int multiset" where
  "windows_after (AddColumn w) W = add_mset w W"
| "windows_after (RemoveWindow w) W = W - {#w#}"
| "windows_after op W = W"

lemma apply_keeps: "keeps s W \<Longrightarrow> \<exists>s'. strip_apply op s = Some s' \<and> keeps s' (windows_after op W)"
  using add_column_keeps remove_keeps focus_keeps move_keeps cycle_keeps consume_keeps expel_keeps
    viewport_keeps by (cases op) simp_all

text \<open>The strips the program can reach: the window manager adds a window once.\<close>

inductive strip_reachable :: "strip \<Rightarrow> bool" where
  reach_new: "strip_reachable new_strip"
| reach_op: "strip_reachable s \<Longrightarrow> \<forall>w. op = AddColumn w \<longrightarrow> w \<notin> set (strip_windows s) \<Longrightarrow>
    strip_apply op s = Some s' \<Longrightarrow> strip_reachable s'"

lemma apply_inv:
  assumes "strip_inv s" "\<forall>w. op = AddColumn w \<longrightarrow> w \<notin> set (strip_windows s)"
  shows "\<exists>s'. strip_apply op s = Some s' \<and> strip_inv s' \<and>
    mset (strip_windows s') = windows_after op (mset (strip_windows s))"
proof -
  obtain s' where s': "strip_apply op s = Some s'" "keeps s' (windows_after op (mset (strip_windows s)))"
    using apply_keeps assms(1) strip_inv_keeps by blast
  have d: "distinct (strip_windows s)" using assms(1) by (simp add: strip_inv_def)
  obtain ws where "windows_after op (mset (strip_windows s)) = mset ws" "distinct ws"
  proof (cases op)
    case (AddColumn w)
    with assms(2) d show ?thesis by (intro that [of "w # strip_windows s"]) auto
  next
    case (RemoveWindow w)
    with d show ?thesis by (intro that [of "remove1 w (strip_windows s)"]) auto
  qed (use d in \<open>auto intro: that [of "strip_windows s"]\<close>)
  with s' keeps_inv have "strip_inv s'" by metis
  with s' show ?thesis by (auto simp: keeps_def)
qed

lemma reachable_inv: "strip_reachable s \<Longrightarrow> strip_inv s"
proof (induction rule: strip_reachable.induct)
  case (reach_op s op s')
  then show ?case using apply_inv [of s op] by auto
qed (rule new_strip_inv)

text \<open>
  C13. No operation of the scrolling layout panics in a reachable state, whatever the history: the
  focus stays the index of a column, no column is empty and no window occurs twice; a new column
  adds its window, a removal removes it, and every other operation keeps exactly the same windows.
\<close>

theorem strip_never_panics:
  assumes "strip_reachable s" "\<forall>w. op = AddColumn w \<longrightarrow> w \<notin> set (strip_windows s)"
  shows "\<exists>s'. strip_apply op s = Some s' \<and> strip_inv s' \<and>
    mset (strip_windows s') = windows_after op (mset (strip_windows s))"
  by (rule apply_inv [OF reachable_inv [OF assms(1)] assms(2)])

definition demo_strip :: strip where
  "demo_strip = new_strip\<lparr>sp_columns := [single_column 1, single_column 2, single_column 3], sp_focus := 2\<rparr>"

lemma demo_strip_reachable: "strip_reachable demo_strip"
proof -
  let ?s1 = "new_strip\<lparr>sp_columns := [single_column 1]\<rparr>"
  let ?s2 = "new_strip\<lparr>sp_columns := [single_column 1, single_column 2], sp_focus := 1\<rparr>"
  have "strip_reachable ?s1"
    by (rule reach_op [OF reach_new, of "AddColumn 1"])
      (simp_all add: new_strip_def add_column_def column_count_def strip_windows_def)
  then have "strip_reachable ?s2"
    by (rule reach_op [of _ "AddColumn 2"])
      (simp_all add: new_strip_def add_column_def column_count_def strip_windows_def single_column_def)
  then show ?thesis
    by (rule reach_op [of _ "AddColumn 3"])
      (simp_all add: new_strip_def add_column_def column_count_def strip_windows_def single_column_def
        demo_strip_def)
qed

theorem strip_never_panics_witness:
  "\<exists>s'. strip_apply MoveLeft demo_strip = Some s' \<and> mset (strip_windows s') = mset (strip_windows demo_strip)"
  using strip_never_panics [OF demo_strip_reachable, of MoveLeft] by auto

subsection \<open>The strip as a registry of windows\<close>

definition strip_open :: "unit \<Rightarrow> int \<Rightarrow> strip \<Rightarrow> strip" where
  "strip_open p w s = (case add_column w s of Some s' \<Rightarrow> s' | None \<Rightarrow> s)"

interpretation strip_reg: window_registry strip_inv "\<lambda>s. set (strip_windows s)" strip_open strip_remove
proof
  fix s w p
  assume s: "strip_inv s"
  obtain s' where r: "strip_remove w s = s'" "strip_inv s'" "mset (strip_windows s') = mset (strip_windows s) - {#w#}"
    using apply_inv [OF s, of "RemoveWindow w"] by auto
  then show "strip_inv (strip_remove w s)" by simp
  from r have "mset (strip_windows s') = mset (remove1 w (strip_windows s))" by simp
  then have "set (strip_windows s') = set (remove1 w (strip_windows s))" by (metis set_mset_mset)
  with r s show "set (strip_windows (strip_remove w s)) = set (strip_windows s) - {w}"
    by (simp add: strip_inv_def set_remove1_eq)
  assume w: "w \<notin> set (strip_windows s)"
  obtain s' where a: "add_column w s = Some s'" "strip_inv s'" "mset (strip_windows s') = mset (w # strip_windows s)"
    using apply_inv [OF s, of "AddColumn w"] w by auto
  then show "strip_inv (strip_open p w s)" by (simp add: strip_open_def)
  from a(3) have "set (strip_windows s') = set (w # strip_windows s)" by (metis set_mset_mset)
  with a show "set (strip_windows (strip_open p w s)) = insert w (set (strip_windows s))"
    by (simp add: strip_open_def)
qed

subsection \<open>Scrolling\<close>

lemma resolve_width_le: "0 \<le> sw \<Longrightarrow> resolve_width s c sw \<le> sw"
  by (auto simp: resolve_width_def Let_def min_def)

lemma resolve_width_nonneg: "0 \<le> sw \<Longrightarrow> 0 \<le> resolve_width s c sw"
  by (auto simp: resolve_width_def Let_def min_def)

lemma resolve_width_view [simp]:
  "resolve_width (s\<lparr>sp_view := v\<rparr>) c sw = resolve_width s c sw"
  by (simp add: resolve_width_def Let_def)

lemma column_end_le:
  assumes "0 \<le> sw" "0 \<le> sp_gap s" "k < length cs"
  shows "(\<Sum>c\<leftarrow>take k cs. resolve_width s c sw + sp_gap s) + resolve_width s (cs ! k) sw \<le> strip_width s sw cs"
  using assms(3)
proof (induction cs arbitrary: k)
  case (Cons c cs)
  have nn: "0 \<le> strip_width s sw cs" for cs
    by (induction cs rule: induct_list012) (use assms resolve_width_nonneg in auto)
  show ?case
  proof (cases k)
    case 0
    with nn [of cs] assms show ?thesis by (cases cs) auto
  next
    case (Suc j)
    with Cons.prems have "cs \<noteq> []" by auto
    then obtain d ds where "cs = d # ds" by (cases cs) auto
    with Suc Cons.IH [of j] Cons.prems show ?thesis by simp
  qed
qed simp

lemma column_x_nonneg: "0 \<le> sw \<Longrightarrow> 0 \<le> sp_gap s \<Longrightarrow> 0 \<le> column_x s i sw"
  by (auto simp: column_x_def intro!: sum_list_nonneg add_nonneg_nonneg resolve_width_nonneg)

lemma clamp_shows:
  assumes "0 \<le> sw" "0 \<le> sp_gap s" "focus_valid s"
    and "x = column_x s (sp_focus s) sw" "w = resolve_width s (sp_columns s ! nat (sp_focus s)) sw"
    and "s' = clamp_viewport sw (s\<lparr>sp_view := x - go_div (sw - w) 2\<rparr>)"
  shows "0 \<le> sp_view s' \<and> sp_view s' \<le> x \<and> x + w \<le> sp_view s' + sw \<and>
    sp_view s' \<le> max (total_strip_width s sw - sw) 0"
proof -
  let ?t = "total_strip_width s sw"
  have f: "nat (sp_focus s) < length (sp_columns s)"
    using assms(3) by (simp add: focus_valid_def column_count_def nat_less_iff)
  have "x + w \<le> ?t"
    using column_end_le [OF assms(1,2) f] by (simp add: assms(4,5) column_x_def total_strip_width_def)
  moreover have "0 \<le> x" using column_x_nonneg assms by simp
  moreover have "0 \<le> w" "w \<le> sw" using resolve_width_le resolve_width_nonneg assms by auto
  moreover have "strip_width (s\<lparr>sp_view := v\<rparr>) sw cs = strip_width s sw cs" for v cs
    by (induction cs rule: induct_list012) auto
  then have "total_strip_width (s\<lparr>sp_view := v\<rparr>) sw = ?t" for v by (simp add: total_strip_width_def)
  ultimately show ?thesis
    by (simp add: assms(6) clamp_viewport_def Let_def) (auto simp: max_def go_div_nonneg)
qed



text \<open>
  C3. \<^verbatim>\<open>EnsureFocusedVisible\<close> moves the viewport although the focused column is partly on screen: its
  comment promises to scroll only when the column is completely off-screen.
\<close>

theorem ensure_scrolls_partly_visible:
  "let s = new_strip\<lparr>sp_columns := [single_column 1, single_column 2], sp_focus := 1\<rparr>;
       x = column_x s 1 100
   in sp_view s \<le> x \<and> x < sp_view s + 100 \<and> sp_view (ensure_focused_visible 100 s) \<noteq> sp_view s"
  by code_simp

end
