(* ===== verification/ScrollingPositions.thy ===== *)
theory ScrollingPositions
  imports ScrollingInv
begin

text \<open>
  Where \<^verbatim>\<open>ComputePositions\<close> puts the windows: each column at its place on the strip, its windows
  stacked without a hole from the top margin to the last usable row, and no two windows on the
  same cell.
\<close>

text \<open>The rectangle of the \<open>m\<close>-th window of column \<open>i\<close>.\<close>

definition slot :: "strip \<Rightarrow> int \<Rightarrow> int \<Rightarrow> int \<Rightarrow> nat \<Rightarrow> nat \<Rightarrow> rect" where
  "slot s sw uh tm i m =
     (let c = sp_columns s ! i; k = int (length (sc_windows c)); ch = go_div uh k
      in mk_rect (column_x s (int i) sw - sp_view s) (tm + int m * ch) (resolve_width s c sw)
           (if int m = k - 1 then uh - int m * ch else ch))"

lemma place_stack_other: "v \<notin> set ws \<Longrightarrow> place_stack x cw uh tm k j ws res v = res v"
  by (induction ws arbitrary: j res) (auto simp: Let_def)

lemma place_stack_at:
  "distinct ws \<Longrightarrow> m < length ws \<Longrightarrow> place_stack x cw uh tm k j ws res (ws ! m) =
     Some (mk_rect x (tm + (j + int m) * go_div uh k) cw
       (if j + int m = k - 1 then uh - (j + int m) * go_div uh k else go_div uh k))"
proof (induction ws arbitrary: j m res)
  case (Cons w ws)
  show ?case
  proof (cases m)
    case 0
    with Cons.prems show ?thesis by (simp add: place_stack_other Let_def)
  next
    case (Suc n)
    with Cons.IH [of n "j + 1"] Cons.prems show ?thesis by (simp add: Let_def algebra_simps)
  qed
qed simp

lemma place_columns_other:
  "v \<notin> set (concat (map sc_windows cs)) \<Longrightarrow> place_columns s sw uh tm x cs res v = res v"
  by (induction cs arbitrary: x res) (auto simp: Let_def place_stack_other)

lemma place_columns_at:
  assumes "distinct (concat (map sc_windows cs))" "i < length cs" "m < length (sc_windows (cs ! i))"
  shows "place_columns s sw uh tm x cs res (sc_windows (cs ! i) ! m) =
    (let c = cs ! i; k = int (length (sc_windows c)); ch = go_div uh k
     in Some (mk_rect (x + (\<Sum>c\<leftarrow>take i cs. resolve_width s c sw + sp_gap s) - sp_view s)
          (tm + int m * ch) (resolve_width s c sw) (if int m = k - 1 then uh - int m * ch else ch)))"
  using assms
proof (induction cs arbitrary: i x res)
  case (Cons c cs)
  show ?case
  proof (cases i)
    case 0
    have "sc_windows c ! m \<notin> set (concat (map sc_windows cs))"
      using Cons.prems 0 nth_mem [of m "sc_windows c"] by (auto simp del: nth_mem)
    moreover have "sc_windows c \<noteq> []" using Cons.prems 0 by auto
    ultimately show ?thesis using Cons.prems 0
      by (simp add: place_columns_other place_stack_at Let_def)
  next
    case (Suc j)
    with Cons.IH [of j "x + resolve_width s c sw + sp_gap s"] Cons.prems show ?thesis
      by (simp add: Let_def algebra_simps)
  qed
qed simp

lemma compute_positions_slot:
  assumes "distinct (strip_windows s)" "i < length (sp_columns s)" "m < length (sc_windows (sp_columns s ! i))"
  shows "compute_positions s sw uh tm (sc_windows (sp_columns s ! i) ! m) = Some (slot s sw uh tm i m)"
  using place_columns_at [of "sp_columns s" i m s sw uh tm 0 Map.empty] assms
  by (simp add: compute_positions_def slot_def column_x_def Let_def strip_windows_def)

lemma window_slot:
  assumes "w \<in> set (strip_windows s)"
  obtains i m where "i < length (sp_columns s)" "m < length (sc_windows (sp_columns s ! i))"
    "w = sc_windows (sp_columns s ! i) ! m"
  using assms by (fastforce simp: strip_windows_def in_set_conv_nth)

lemma dom_positions:
  "distinct (strip_windows s) \<Longrightarrow> dom (compute_positions s sw uh tm) = set (strip_windows s)"
proof
  show "dom (compute_positions s sw uh tm) \<subseteq> set (strip_windows s)"
  proof
    fix v
    assume "v \<in> dom (compute_positions s sw uh tm)"
    then show "v \<in> set (strip_windows s)"
      using place_columns_other [of v "sp_columns s" s sw uh tm 0 Map.empty]
      by (cases "v \<in> set (strip_windows s)") (auto simp: compute_positions_def strip_windows_def)
  qed
  assume d: "distinct (strip_windows s)"
  show "set (strip_windows s) \<subseteq> dom (compute_positions s sw uh tm)"
  proof
    fix v
    assume "v \<in> set (strip_windows s)"
    then show "v \<in> dom (compute_positions s sw uh tm)"
      by (rule window_slot) (use compute_positions_slot [OF d] in auto)
  qed
qed

subsection \<open>Slots do not overlap\<close>

lemma column_order:
  assumes "0 \<le> sw" "0 \<le> sp_gap s" "i < j" "j \<le> length (sp_columns s)"
  shows "column_x s (int i) sw + resolve_width s (sp_columns s ! i) sw \<le> column_x s (int j) sw"
proof -
  let ?w = "\<lambda>c. resolve_width s c sw + sp_gap s" and ?cs = "sp_columns s"
  have "take j ?cs = take i ?cs @ ?cs ! i # take (j - Suc i) (drop (Suc i) ?cs)"
    using assms(3,4) by (metis Cons_nth_drop_Suc Suc_diff_Suc le_add_diff_inverse less_imp_le order_less_le_trans take_Suc_Cons take_add)
  then have "(\<Sum>c\<leftarrow>take j ?cs. ?w c) = (\<Sum>c\<leftarrow>take i ?cs. ?w c) + ?w (?cs ! i)
      + (\<Sum>c\<leftarrow>take (j - Suc i) (drop (Suc i) ?cs). ?w c)"
    by simp
  moreover have "0 \<le> (\<Sum>c\<leftarrow>take (j - Suc i) (drop (Suc i) ?cs). ?w c)"
    using assms resolve_width_nonneg by (auto intro!: sum_list_nonneg add_nonneg_nonneg)
  ultimately show ?thesis using assms(2) by (simp add: column_x_def)
qed

lemma slot_stack:
  assumes "0 \<le> uh" "m < length (sc_windows (sp_columns s ! i))"
  shows "ry (slot s sw uh tm i 0) = tm"
    "Suc m < length (sc_windows (sp_columns s ! i)) \<Longrightarrow>
       ry (slot s sw uh tm i (Suc m)) = ry (slot s sw uh tm i m) + rh (slot s sw uh tm i m)"
    "Suc m = length (sc_windows (sp_columns s ! i)) \<Longrightarrow>
       ry (slot s sw uh tm i m) + rh (slot s sw uh tm i m) = tm + uh"
    "0 \<le> rh (slot s sw uh tm i m)"
proof -
  let ?k = "int (length (sc_windows (sp_columns s ! i)))"
  have k: "0 < ?k" using assms(2) by linarith
  show "ry (slot s sw uh tm i 0) = tm" by (simp add: slot_def Let_def)
  show "Suc m < length (sc_windows (sp_columns s ! i)) \<Longrightarrow>
       ry (slot s sw uh tm i (Suc m)) = ry (slot s sw uh tm i m) + rh (slot s sw uh tm i m)"
    by (auto simp: slot_def Let_def algebra_simps)
  show "Suc m = length (sc_windows (sp_columns s ! i)) \<Longrightarrow>
       ry (slot s sw uh tm i m) + rh (slot s sw uh tm i m) = tm + uh"
    by (auto simp: slot_def Let_def)
  have d: "0 \<le> uh div ?k" using assms(1) k by (simp add: pos_imp_zdiv_nonneg_iff)
  have "int m * (uh div ?k) \<le> ?k * (uh div ?k)"
    using assms(2) d by (intro mult_right_mono) auto
  also have "\<dots> \<le> uh" using k mult_div_mod_eq [of ?k uh] pos_mod_sign [of ?k uh] by linarith
  finally show "0 \<le> rh (slot s sw uh tm i m)"
    using assms(1) k d by (auto simp: slot_def Let_def go_div_nonneg)
qed

lemma slots_disjoint:
  assumes "0 \<le> sw" "0 \<le> sp_gap s" "0 \<le> uh" "i < length (sp_columns s)" "j < length (sp_columns s)"
    and "m < length (sc_windows (sp_columns s ! i))" "n < length (sc_windows (sp_columns s ! j))"
    and "(i, m) \<noteq> (j, n)"
  shows "cells (slot s sw uh tm i m) \<inter> cells (slot s sw uh tm j n) = {}"
proof -
  have cols: "cells (slot s sw uh tm i m) \<inter> cells (slot s sw uh tm j n) = {}"
    if "i < j" "j < length (sp_columns s)" for i j m n
    using column_order [OF assms(1,2) that(1)] that(2)
    by (fastforce simp: slot_def Let_def cells_def)
  have rows: "cells (slot s sw uh tm i m) \<inter> cells (slot s sw uh tm i n) = {}"
    if "m < n" "n < length (sc_windows (sp_columns s ! i))" for m n
  proof -
    let ?ch = "uh div int (length (sc_windows (sp_columns s ! i)))"
    have "0 < int (length (sc_windows (sp_columns s ! i)))" using that by linarith
    then have "0 \<le> ?ch" using assms(3) by (simp only: pos_imp_zdiv_nonneg_iff)
    then have "int (Suc m) * ?ch \<le> int n * ?ch" using that(1) by (intro mult_right_mono) auto
    then have "int m * ?ch + ?ch \<le> int n * ?ch" by (simp add: algebra_simps)
    moreover have "go_div uh (int (length (sc_windows (sp_columns s ! i)))) = ?ch"
      using that assms(3) by (intro go_div_nonneg) auto
    moreover have "int m \<noteq> int (length (sc_windows (sp_columns s ! i))) - 1" using that by linarith
    ultimately show ?thesis by (auto simp: slot_def Let_def cells_def)
  qed
  consider "i < j" | "j < i" | "i = j" "m < n" | "i = j" "n < m" using assms(8) by fastforce
  then show ?thesis by cases (use cols rows assms in blast)+
qed

text \<open>
  C15. \<^verbatim>\<open>ComputePositions\<close> places exactly the windows of the strip: each column starts where the
  columns and gaps before it end, its windows are stacked from the top margin to the end of the
  usable height without a hole, and no cell belongs to two windows.
\<close>

theorem positions_partition_columns:
  assumes "strip_inv s" "0 \<le> sp_gap s" "0 \<le> sw" "0 \<le> uh"
  shows "dom (compute_positions s sw uh tm) = set (strip_windows s) \<and>
    (\<forall>i m r. i < length (sp_columns s) \<longrightarrow> m < length (sc_windows (sp_columns s ! i)) \<longrightarrow>
       compute_positions s sw uh tm (sc_windows (sp_columns s ! i) ! m) = Some r \<longrightarrow>
       rx r = column_x s (int i) sw - sp_view s \<and> rw r = resolve_width s (sp_columns s ! i) sw \<and> 0 \<le> rh r \<and>
       (m = 0 \<longrightarrow> ry r = tm) \<and>
       (if Suc m = length (sc_windows (sp_columns s ! i)) then ry r + rh r = tm + uh
        else map_option ry (compute_positions s sw uh tm (sc_windows (sp_columns s ! i) ! Suc m)) = Some (ry r + rh r))) \<and>
    (\<forall>v w r q. v \<noteq> w \<longrightarrow> compute_positions s sw uh tm v = Some r \<longrightarrow> compute_positions s sw uh tm w = Some q \<longrightarrow>
       cells r \<inter> cells q = {})"
proof (intro conjI allI impI)
  have d: "distinct (strip_windows s)" using assms(1) by (simp add: strip_inv_def)
  show "dom (compute_positions s sw uh tm) = set (strip_windows s)" by (rule dom_positions [OF d])
  fix i m r
  assume i: "i < length (sp_columns s)" "m < length (sc_windows (sp_columns s ! i))"
    and "compute_positions s sw uh tm (sc_windows (sp_columns s ! i) ! m) = Some r"
  then have r: "r = slot s sw uh tm i m" using compute_positions_slot [OF d i] by simp
  show "rx r = column_x s (int i) sw - sp_view s" "rw r = resolve_width s (sp_columns s ! i) sw"
    by (simp_all add: r slot_def Let_def)
  show "0 \<le> rh r" "m = 0 \<Longrightarrow> ry r = tm" using slot_stack [OF assms(4) i(2)] by (auto simp: r)
  show "if Suc m = length (sc_windows (sp_columns s ! i)) then ry r + rh r = tm + uh
        else map_option ry (compute_positions s sw uh tm (sc_windows (sp_columns s ! i) ! Suc m)) = Some (ry r + rh r)"
    using slot_stack [OF assms(4) i(2)] compute_positions_slot [OF d i(1), of "Suc m"] i(2)
    by (auto simp: r)
next
  fix v w r q
  assume vw: "v \<noteq> w" and r: "compute_positions s sw uh tm v = Some r" and q: "compute_positions s sw uh tm w = Some q"
  have d: "distinct (strip_windows s)" using assms(1) by (simp add: strip_inv_def)
  from r q have "v \<in> set (strip_windows s)" "w \<in> set (strip_windows s)" using dom_positions [OF d, of sw uh tm] by blast+
  then obtain i m j n where i: "i < length (sp_columns s)" "m < length (sc_windows (sp_columns s ! i))"
      "v = sc_windows (sp_columns s ! i) ! m" and j: "j < length (sp_columns s)"
      "n < length (sc_windows (sp_columns s ! j))" "w = sc_windows (sp_columns s ! j) ! n"
    using window_slot by metis
  then have "(i, m) \<noteq> (j, n)" using vw by auto
  from slots_disjoint [OF assms(3,2,4) i(1) j(1) i(2) j(2) this]
  show "cells r \<inter> cells q = {}"
    using compute_positions_slot [OF d i(1,2), of sw uh tm] compute_positions_slot [OF d j(1,2), of sw uh tm]
      r q unfolding i(3) j(3) by (metis option.inject)
qed

theorem positions_partition_columns_witness:
  "dom (compute_positions demo_strip 100 40 1) = {1, 2, 3}"
  using positions_partition_columns [OF reachable_inv [OF demo_strip_reachable], of 100 40 1]
  by (simp add: demo_strip_def new_strip_def strip_windows_def single_column_def)

end
