(* ===== verification/Tiling.thy ===== *)
theory Tiling
  imports BspTree
begin

text \<open>
  The master-stack layout and its separators (\<^verbatim>\<open>internal/layout/tiling.go\<close>): the tiles for \<open>n\<close>
  windows before and after the minimum size is enforced, and the lines read back from the gaps
  between panes. Tiles that did not have to be widened are separated by the gap, stay on screen,
  and no separator line touches a pane.
\<close>

subsection \<open>Tiles\<close>

definition clamp_master :: "f64 \<Rightarrow> f64" where
  "clamp_master r =
     (if r < f64_round (3 / 10) then f64_round (3 / 10)
      else if r > f64_round (7 / 10) then f64_round (7 / 10) else r)"

text \<open>
  The grid of more than four windows. The loop keeps the cell width it changed in the last row, so
  it is part of the state of the recursion.
\<close>

fun grid_tiles ::
    "int \<Rightarrow> int \<Rightarrow> int \<Rightarrow> int \<Rightarrow> int \<Rightarrow> int \<Rightarrow> int \<Rightarrow> int \<Rightarrow> int \<Rightarrow> int list \<Rightarrow> rect list" where
  "grid_tiles n cols rows sw uh tm gap ch cw [] = []"
| "grid_tiles n cols rows sw uh tm gap ch cw (i # is) =
     (let row = i div cols; col = i mod cols; remaining = n - row * cols;
          short = row = rows - 1 \<and> remaining < cols;
          actual = (if short then remaining else cols);
          cw' = (if short then go_div (sw - gap * (actual - 1)) actual else cw);
          x = col * (cw' + gap);
          w = (if col = actual - 1 then sw - x else cw');
          h = (if row = rows - 1 then uh - row * (ch + gap) else ch)
      in mk_rect x (tm + row * (ch + gap)) w h # grid_tiles n cols rows sw uh tm gap ch cw' is)"

definition raw_tiles :: "nat \<Rightarrow> int \<Rightarrow> int \<Rightarrow> int \<Rightarrow> f64 \<Rightarrow> int \<Rightarrow> rect list" where
  "raw_tiles n sw uh tm ratio gap =
     (let m = clamp_master ratio; halfh = go_div uh 2; halfw = go_div sw 2
      in if n = 0 then []
         else if n = 1 then [mk_rect 0 tm sw uh]
         else if n = 2 then
           if sw \<ge> uh * cell_aspect
           then let mw = scale_cells sw m
                in [mk_rect 0 tm mw uh, mk_rect (mw + gap) tm (sw - mw - gap) uh]
           else let mh = scale_cells uh m
                in [mk_rect 0 tm sw mh, mk_rect 0 (tm + mh + gap) sw (uh - mh - gap)]
         else if n = 3 then
           let mw = scale_cells sw m; sx = mw + gap
           in [mk_rect 0 tm mw uh, mk_rect sx tm (sw - sx) halfh,
               mk_rect sx (tm + halfh + gap) (sw - sx) (uh - halfh - gap)]
         else if n = 4 then
           let rx = halfw + gap; by = tm + halfh + gap
           in [mk_rect 0 tm halfw halfh, mk_rect rx tm (sw - rx) halfh,
               mk_rect 0 by halfw (uh - halfh - gap), mk_rect rx by (sw - rx) (uh - halfh - gap)]
         else
           let cols = (if n \<le> 6 then 2 else 3); rows = (int n + cols - 1) div cols
           in grid_tiles (int n) cols rows sw uh tm gap (go_div (uh - gap * (rows - 1)) rows)
                (go_div (sw - gap * (cols - 1)) cols) [0..int n - 1])"

definition ensure_minimum :: "int \<Rightarrow> int \<Rightarrow> int \<Rightarrow> rect \<Rightarrow> rect" where
  "ensure_minimum sw uh tm r =
     (let w = (if rw r < default_window_width then default_window_width else rw r);
          h = (if rh r < default_window_height then default_window_height else rh r)
      in mk_rect (max 0 (min (rx r) (sw - w))) (max tm (min (ry r) (tm + uh - h))) w h)"

definition calculate_tiling :: "nat \<Rightarrow> int \<Rightarrow> int \<Rightarrow> int \<Rightarrow> f64 \<Rightarrow> int \<Rightarrow> rect list" where
  "calculate_tiling n sw uh tm ratio gap =
     map (ensure_minimum sw uh tm) (raw_tiles n sw uh tm ratio gap)"

subsection \<open>Separators\<close>

definition free_cell :: "rect list \<Rightarrow> int \<Rightarrow> int \<Rightarrow> bool" where
  "free_cell rs x y \<longleftrightarrow> (\<forall>r\<in>set rs. \<not> (x \<ge> rx r \<and> x < rx r + rw r \<and> y \<ge> ry r \<and> y < ry r + rh r))"

fun grow_back :: "nat \<Rightarrow> (int \<Rightarrow> bool) \<Rightarrow> int \<Rightarrow> int" where
  "grow_back 0 ok from = from"
| "grow_back (Suc k) ok from = (if ok (from - 1) then grow_back k ok (from - 1) else from)"

fun grow_ahead :: "nat \<Rightarrow> (int \<Rightarrow> bool) \<Rightarrow> int \<Rightarrow> int" where
  "grow_ahead 0 ok to = to"
| "grow_ahead (Suc k) ok to = (if ok (to + 1) then grow_ahead k ok (to + 1) else to)"

definition line_at :: "rect list \<Rightarrow> int \<Rightarrow> bool \<Rightarrow> int \<Rightarrow> int \<Rightarrow> int \<Rightarrow> split_line" where
  "line_at rs gap vertical pos from to =
     (let ok = (\<lambda>along. if vertical then free_cell rs pos along else free_cell rs along pos)
      in \<lparr>sl_vertical = vertical, sl_pos = pos, sl_from = grow_back (nat gap) ok from,
          sl_to = grow_ahead (nat gap) ok to\<rparr>)"

definition lines_between :: "rect list \<Rightarrow> int \<Rightarrow> rect \<Rightarrow> rect \<Rightarrow> split_line list" where
  "lines_between rs gap a b =
     (let from = max (ry a) (ry b); to = min (ry a + rh a) (ry b + rh b) - 1
      in if rx b = rx a + rw a + gap \<and> from \<le> to
         then map (\<lambda>x. line_at rs gap True x from to) [rx a + rw a..rx b - 1] else []) @
     (let from = max (rx a) (rx b); to = min (rx a + rw a) (rx b + rw b) - 1
      in if ry b = ry a + rh a + gap \<and> from \<le> to
         then map (\<lambda>y. line_at rs gap False y from to) [ry a + rh a..ry b - 1] else [])"

definition splits_between :: "rect list \<Rightarrow> int \<Rightarrow> split_line list" where
  "splits_between rs gap =
     (if gap \<le> 0 then [] else concat (map (\<lambda>a. concat (map (lines_between rs gap a) rs)) rs))"

subsection \<open>Tiles are separated by the gap\<close>

definition apart :: "int \<Rightarrow> rect \<Rightarrow> rect \<Rightarrow> bool" where
  "apart gap a b \<longleftrightarrow> rx a + rw a + gap \<le> rx b \<or> rx b + rw b + gap \<le> rx a
     \<or> ry a + rh a + gap \<le> ry b \<or> ry b + rh b + gap \<le> ry a"

definition roomy :: "rect \<Rightarrow> bool" where
  "roomy r \<longleftrightarrow> default_window_width \<le> rw r \<and> default_window_height \<le> rh r"

lemma apart_disjoint: "0 \<le> gap \<Longrightarrow> apart gap a b \<Longrightarrow> cells a \<inter> cells b = {}"
  by (auto simp: apart_def cells_def)

text \<open>The closed form of a grid tile: the width the loop changed matters to its own row only.\<close>

definition short_row :: "int \<Rightarrow> int \<Rightarrow> int \<Rightarrow> int \<Rightarrow> bool" where
  "short_row n cols rows i \<longleftrightarrow> i div cols = rows - 1 \<and> n - i div cols * cols < cols"

definition grid_tile :: "int \<Rightarrow> int \<Rightarrow> int \<Rightarrow> int \<Rightarrow> int \<Rightarrow> int \<Rightarrow> int \<Rightarrow> int \<Rightarrow> int \<Rightarrow> int \<Rightarrow> rect" where
  "grid_tile n cols rows sw uh tm gap ch cw i = hd (grid_tiles n cols rows sw uh tm gap ch cw [i])"

lemma grid_tiles_map:
  assumes "0 < cols"
  shows "sorted is \<Longrightarrow> \<forall>i\<in>set is. i div cols \<le> rows - 1 \<Longrightarrow>
    cw = cw0 \<or> (\<forall>i\<in>set is. short_row n cols rows i) \<Longrightarrow>
    grid_tiles n cols rows sw uh tm gap ch cw is = map (grid_tile n cols rows sw uh tm gap ch cw0) is"
proof (induction "is" arbitrary: cw)
  case (Cons i "is")
  define cw' where "cw' = (if short_row n cols rows i
    then go_div (sw - gap * (n - i div cols * cols - 1)) (n - i div cols * cols) else cw)"
  have "cw' = cw0 \<or> (\<forall>j\<in>set is. short_row n cols rows j)"
  proof (cases "short_row n cols rows i")
    case True
    have "short_row n cols rows j" if "j \<in> set is" for j
    proof -
      have "i div cols \<le> j div cols" using that Cons.prems(1) assms by (intro zdiv_mono1) auto
      moreover have "j div cols \<le> rows - 1" using that Cons.prems(2) by simp
      ultimately have "j div cols = i div cols" using True by (simp add: short_row_def)
      with True show ?thesis unfolding short_row_def by metis
    qed
    then show ?thesis by blast
  qed (use Cons.prems(3) in \<open>auto simp: cw'_def\<close>)
  then have "grid_tiles n cols rows sw uh tm gap ch cw' is = map (grid_tile n cols rows sw uh tm gap ch cw0) is"
    using Cons by simp
  moreover have "hd (grid_tiles n cols rows sw uh tm gap ch cw [i]) = grid_tile n cols rows sw uh tm gap ch cw0 i"
    using Cons.prems(3) by (auto simp: grid_tile_def short_row_def Let_def)
  moreover have "grid_tiles n cols rows sw uh tm gap ch cw (i # is) =
      hd (grid_tiles n cols rows sw uh tm gap ch cw [i]) # grid_tiles n cols rows sw uh tm gap ch cw' is"
    by (cases "short_row n cols rows i") (auto simp: cw'_def short_row_def Let_def)
  ultimately show ?case by simp
qed simp

lemma grid_apart:
  assumes c: "0 < cols" "0 \<le> gap" and ij: "i < j" "0 \<le> i" "i div cols \<le> rows - 1" "j div cols \<le> rows - 1" "j < n"
    and room: "roomy (grid_tile n cols rows sw uh tm gap ch cw i)"
  shows "apart gap (grid_tile n cols rows sw uh tm gap ch cw i) (grid_tile n cols rows sw uh tm gap ch cw j)"
proof (cases "i div cols = j div cols")
  case True
  then have "i mod cols < j mod cols"
    using ij(1) by (metis add_less_cancel_left div_mult_mod_eq)
  define act where "act = (if short_row n cols rows j then n - j div cols * cols else cols)"
  define cw' where "cw' = (if short_row n cols rows j then go_div (sw - gap * (act - 1)) act else cw)"
  have j: "j mod cols \<le> act - 1"
  proof (cases "short_row n cols rows j")
    case True
    have "j = j div cols * cols + j mod cols" by simp
    moreover have "act = n - j div cols * cols" using True by (simp add: act_def)
    ultimately show ?thesis using ij(5) by linarith
  qed (use c(1) in \<open>simp add: act_def\<close>)
  have s: "short_row n cols rows i = short_row n cols rows j" using True by (simp add: short_row_def)
  have "rx (grid_tile n cols rows sw uh tm gap ch cw i) = i mod cols * (cw' + gap)"
    "rw (grid_tile n cols rows sw uh tm gap ch cw i) = cw'"
    "rx (grid_tile n cols rows sw uh tm gap ch cw j) = j mod cols * (cw' + gap)"
    using s True j \<open>i mod cols < j mod cols\<close>
    by (auto simp: grid_tile_def Let_def cw'_def act_def short_row_def)
  moreover have "0 \<le> cw' + gap"
    using room calculation(2) c(2) by (simp add: roomy_def default_window_width_def)
  then have "(i mod cols + 1) * (cw' + gap) \<le> j mod cols * (cw' + gap)"
    using \<open>i mod cols < j mod cols\<close> by (intro mult_right_mono) auto
  ultimately show ?thesis by (simp add: apart_def algebra_simps)
next
  case False
  moreover have "i div cols \<le> j div cols" using ij(1) c(1) by (intro zdiv_mono1) auto
  ultimately have lt: "i div cols < j div cols" by simp
  have "ry (grid_tile n cols rows sw uh tm gap ch cw i) = tm + i div cols * (ch + gap)"
    "rh (grid_tile n cols rows sw uh tm gap ch cw i) = ch"
    "ry (grid_tile n cols rows sw uh tm gap ch cw j) = tm + j div cols * (ch + gap)"
    using lt ij(4) by (auto simp: grid_tile_def Let_def)
  moreover have "0 \<le> ch + gap"
    using room calculation(2) c(2) by (simp add: roomy_def default_window_height_def)
  then have "(i div cols + 1) * (ch + gap) \<le> j div cols * (ch + gap)"
    using lt by (intro mult_right_mono) auto
  ultimately show ?thesis by (simp add: apart_def algebra_simps)
qed

text \<open>Earlier tiles are apart from later ones.\<close>

lemma raw_apart:
  assumes gap: "0 \<le> gap" and ij: "i < j" "j < length (raw_tiles n sw uh tm ratio gap)"
    and room: "\<forall>r\<in>set (raw_tiles n sw uh tm ratio gap). roomy r"
  shows "apart gap (raw_tiles n sw uh tm ratio gap ! i) (raw_tiles n sw uh tm ratio gap ! j)"
proof (cases "n \<le> 4")
  case True
  then consider "n = 0" | "n = 1" | "n = 2" | "n = 3" | "n = 4" by linarith
  then show ?thesis
    by cases (use ij in \<open>auto simp: raw_tiles_def Let_def apart_def less_Suc_eq nth_Cons' split: if_splits\<close>)
next
  case False
  define cols where "cols = (if n \<le> 6 then 2 else 3 :: int)"
  define rows where "rows = (int n + cols - 1) div cols"
  let ?ch = "go_div (uh - gap * (rows - 1)) rows" and ?cw = "go_div (sw - gap * (cols - 1)) cols"
  have c: "0 < cols" by (simp add: cols_def)
  have last: "k div cols \<le> rows - 1" if "k < int n" for k
  proof -
    have "k + cols \<le> int n + cols - 1" using that by simp
    then have "(k + cols) div cols \<le> rows" unfolding rows_def using c by (rule zdiv_mono1)
    then show ?thesis using c by simp
  qed
  have "raw_tiles n sw uh tm ratio gap = grid_tiles (int n) cols rows sw uh tm gap ?ch ?cw [0..int n - 1]"
    using False by (simp add: raw_tiles_def Let_def cols_def rows_def)
  also have "\<dots> = map (grid_tile (int n) cols rows sw uh tm gap ?ch ?cw) [0..int n - 1]"
    by (rule grid_tiles_map [OF c]) (use last in auto)
  finally have r: "raw_tiles n sw uh tm ratio gap = map (grid_tile (int n) cols rows sw uh tm gap ?ch ?cw) [0..int n - 1]" .
  have l: "length (raw_tiles n sw uh tm ratio gap) = n" by (simp add: r)
  have "roomy (grid_tile (int n) cols rows sw uh tm gap ?ch ?cw (int i))"
    using room ij l by (auto simp: r)
  then show ?thesis
    using ij l by (auto simp: r intro!: grid_apart [OF c gap] last)
qed

lemma length_raw: "length (raw_tiles n sw uh tm ratio gap) = n"
proof (cases "n \<le> 4")
  case True
  then consider "n = 0" | "n = 1" | "n = 2" | "n = 3" | "n = 4" by linarith
  then show ?thesis by cases (simp_all add: raw_tiles_def Let_def)
next
  case False
  have "length (grid_tiles m c r sw uh tm gap ch cw is) = length is" for m c r ch cw "is"
    by (induction "is" arbitrary: cw) (auto simp: Let_def)
  with False show ?thesis by (simp add: raw_tiles_def Let_def)
qed



text \<open>
  When no tile had to be widened, any two of them keep the gap between them, so no cell belongs
  to two windows, and the minimum size changes nothing.
\<close>

lemma tiles_apart:
  assumes "0 \<le> gap" "i < j" "j < n" "\<forall>r\<in>set (raw_tiles n sw uh tm ratio gap). roomy r"
  shows "apart gap (raw_tiles n sw uh tm ratio gap ! i) (raw_tiles n sw uh tm ratio gap ! j) \<and>
    cells (raw_tiles n sw uh tm ratio gap ! i) \<inter> cells (raw_tiles n sw uh tm ratio gap ! j) = {}"
  using raw_apart [OF assms(1,2) _ assms(4)] assms(3) apart_disjoint [OF assms(1)] by (simp add: length_raw)

lemma tiles_apart_witness:
  "cells (raw_tiles 5 120 40 1 (1 / 2) 1 ! 0) \<inter> cells (raw_tiles 5 120 40 1 (1 / 2) 1 ! 1) = {}"
proof -
  have "\<forall>r\<in>set (raw_tiles 5 120 40 1 (1 / 2) 1). roomy r" by code_simp
  then show ?thesis using tiles_apart [of 1 0 1 5 120 40 1 "1 / 2"] by simp
qed

subsection \<open>Separators stay off the panes\<close>

lemma grow_back_free: "from' \<le> y \<Longrightarrow> y < from \<Longrightarrow> from' = grow_back k ok from \<Longrightarrow> ok y"
  by (induction k arbitrary: "from") (auto split: if_splits, metis linorder_neqE_linordered_idom zle_diff1_eq order_le_less)

lemma grow_ahead_free: "y \<le> grow_ahead k ok to \<Longrightarrow> to < y \<Longrightarrow> ok y"
  by (induction k arbitrary: to) (auto split: if_splits, metis add1_zle_eq order_le_less)

definition line_cell :: "split_line \<Rightarrow> int \<times> int \<Rightarrow> bool" where
  "line_cell l c \<longleftrightarrow> (let along = (if sl_vertical l then snd c else fst c);
       pos = (if sl_vertical l then fst c else snd c)
     in pos = sl_pos l \<and> sl_from l \<le> along \<and> along \<le> sl_to l)"

lemma line_at_free:
  assumes "\<forall>y. from \<le> y \<and> y \<le> to \<longrightarrow> (if v then free_cell rs pos y else free_cell rs y pos)"
    and "line_cell (line_at rs gap v pos from to) c"
  shows "free_cell rs (fst c) (snd c)"
proof -
  let ?ok = "\<lambda>a. if v then free_cell rs pos a else free_cell rs a pos"
  have "?ok y" if "grow_back (nat gap) ?ok from \<le> y" "y \<le> grow_ahead (nat gap) ?ok to" for y
    using that assms(1) grow_back_free [of _ y "from" "nat gap" ?ok] grow_ahead_free [of y "nat gap" ?ok to]
    by (metis linorder_not_le)
  with assms(2) show ?thesis by (auto simp: line_cell_def line_at_def Let_def split: if_splits)
qed

text \<open>
  C17. Panes that keep the gap between them are never painted over: no cell of a separator line
  belongs to a pane, the ends grown into neighbouring gaps included.
\<close>

theorem separators_off_panes:
  assumes "\<forall>a\<in>set rs. 0 < rw a \<and> 0 < rh a" "\<forall>a\<in>set rs. \<forall>b\<in>set rs. a \<noteq> b \<longrightarrow> apart gap a b"
    and "l \<in> set (splits_between rs gap)" "line_cell l c"
  shows "free_cell rs (fst c) (snd c)"
proof -
  have gap: "0 < gap" using assms(3) by (auto simp: splits_between_def split: if_splits)
  obtain a b where ab: "a \<in> set rs" "b \<in> set rs" "l \<in> set (lines_between rs gap a b)"
    using assms(3) by (auto simp: splits_between_def split: if_splits)
  have v: "free_cell rs x y" if o: "rx b = rx a + rw a + gap" "rx a + rw a \<le> x" "x < rx b"
      "ry a \<le> y" "ry b \<le> y" "y < ry a + rh a" "y < ry b + rh b" for x y
  proof -
    have "\<not> (rx r \<le> x \<and> x < rx r + rw r \<and> ry r \<le> y \<and> y < ry r + rh r)" if r: "r \<in> set rs" for r
    proof
      assume i: "rx r \<le> x \<and> x < rx r + rw r \<and> ry r \<le> y \<and> y < ry r + rh r"
      have "0 < rw a" using assms(1) ab(1) by blast
      have "r \<noteq> a" using i o by auto
      then have "apart gap a r" using bspec [OF bspec [OF assms(2) ab(1)] r] by simp
      moreover have "\<not> rx a + rw a + gap \<le> rx r" "\<not> rx r + rw r + gap \<le> rx a"
          "\<not> ry a + rh a + gap \<le> ry r" "\<not> ry r + rh r + gap \<le> ry a"
        using i o gap \<open>0 < rw a\<close> by linarith+
      ultimately show False by (simp add: apart_def)
    qed
    then show ?thesis by (auto simp: free_cell_def)
  qed
  have h: "free_cell rs x y" if o: "ry b = ry a + rh a + gap" "ry a + rh a \<le> y" "y < ry b"
      "rx a \<le> x" "rx b \<le> x" "x < rx a + rw a" "x < rx b + rw b" for x y
  proof -
    have "\<not> (rx r \<le> x \<and> x < rx r + rw r \<and> ry r \<le> y \<and> y < ry r + rh r)" if r: "r \<in> set rs" for r
    proof
      assume i: "rx r \<le> x \<and> x < rx r + rw r \<and> ry r \<le> y \<and> y < ry r + rh r"
      have "0 < rh a" using assms(1) ab(1) by blast
      have "r \<noteq> a" using i o by auto
      then have "apart gap a r" using bspec [OF bspec [OF assms(2) ab(1)] r] by simp
      moreover have "\<not> rx a + rw a + gap \<le> rx r" "\<not> rx r + rw r + gap \<le> rx a"
          "\<not> ry a + rh a + gap \<le> ry r" "\<not> ry r + rh r + gap \<le> ry a"
        using i o gap \<open>0 < rh a\<close> by linarith+
      ultimately show False by (simp add: apart_def)
    qed
    then show ?thesis by (auto simp: free_cell_def)
  qed
  consider x where "rx b = rx a + rw a + gap" "rx a + rw a \<le> x" "x < rx b"
      "l = line_at rs gap True x (max (ry a) (ry b)) (min (ry a + rh a) (ry b + rh b) - 1)"
    | y where "ry b = ry a + rh a + gap" "ry a + rh a \<le> y" "y < ry b"
      "l = line_at rs gap False y (max (rx a) (rx b)) (min (rx a + rw a) (rx b + rw b) - 1)"
    using ab(3) by (auto simp: lines_between_def Let_def split: if_splits)
  then show ?thesis
  proof cases
    case (1 x)
    show ?thesis
      by (rule line_at_free [OF _ assms(4) [unfolded 1(4)]]) (use v [OF 1(1-3)] in auto)
  next
    case (2 y)
    show ?thesis
      by (rule line_at_free [OF _ assms(4) [unfolded 2(4)]]) (use h [OF 2(1-3)] in auto)
  qed
qed

theorem separators_off_panes_witness:
  "free_cell [mk_rect 0 0 10 10, mk_rect 11 0 10 10] 10 4"
proof -
  let ?rs = "[mk_rect 0 0 10 10, mk_rect 11 0 10 10]"
  have "\<forall>a\<in>set ?rs. \<forall>b\<in>set ?rs. a \<noteq> b \<longrightarrow> apart 1 a b" by (simp add: apart_def mk_rect_def)
  moreover have "hd (splits_between ?rs 1) \<in> set (splits_between ?rs 1)"
    "line_cell (hd (splits_between ?rs 1)) (10, 4)" by code_simp+
  ultimately show ?thesis
    using separators_off_panes [of ?rs 1 "hd (splits_between ?rs 1)" "(10, 4)"] by (simp add: mk_rect_def)
qed

text \<open>The position clamp does not keep widened tiles apart, which its comment suggests.\<close>

theorem widened_tiles_overlap:
  "(10, 0) \<in> cells (calculate_tiling 2 30 10 0 (1 / 2) 1 ! 0) \<inter> cells (calculate_tiling 2 30 10 0 (1 / 2) 1 ! 1)"
proof -
  have "calculate_tiling 2 30 10 0 (1 / 2) 1 = [mk_rect 0 0 20 10, mk_rect 10 0 20 10]" by code_simp
  then show ?thesis by (simp add: mem_cells)
qed

end
