(* ===== verification/Scrollback.thy ===== *)
theory Scrollback
  imports Prelude "HOL-Library.Word"
begin

text \<open>
  The scrollback (\<^verbatim>\<open>internal/vt/scrollback.go\<close>): a ring buffer of lines that grows up to a limit
  and then overwrites its oldest line. A cell is a type parameter. The two slices \<^verbatim>\<open>lines\<close> and
  \<^verbatim>\<open>wraps\<close>, always indexed together, are one list of pairs; a nil line is the empty list. The
  calls of the \<^verbatim>\<open>onTrim\<close> callback are collected, newest last, in \<open>rg_trims\<close>.
\<close>

subsection \<open>How a line ends\<close>

type_synonym line_wrap = "8 word"

definition hard_break :: line_wrap where "hard_break = 0"

definition soft_wrap :: "int \<Rightarrow> line_wrap" where
  "soft_wrap spacer = word_of_int (1 + max 0 (min spacer 254))"

definition wrapped :: "line_wrap \<Rightarrow> bool" where
  "wrapped w \<longleftrightarrow> w \<noteq> hard_break"

definition spacer_of :: "line_wrap \<Rightarrow> int" where
  "spacer_of w = (if w = hard_break then 0 else uint w - 1)"

definition bool_wrap :: "bool \<Rightarrow> line_wrap" where
  "bool_wrap b = (if b then soft_wrap 0 else hard_break)"

lemma soft_wrap_uint: "uint (soft_wrap n) = 1 + max 0 (min n 254)"
  unfolding soft_wrap_def by (subst uint_word_of_int_eq, subst take_bit_int_eq_self) auto

lemma soft_wrap_wrapped [simp]: "wrapped (soft_wrap n)"
  using soft_wrap_uint [of n] by (auto simp: wrapped_def hard_break_def)

lemma spacer_soft_wrap: "spacer_of (soft_wrap n) = max 0 (min n 254)"
  using soft_wrap_uint [of n] soft_wrap_wrapped [of n] by (simp add: spacer_of_def wrapped_def)

subsection \<open>The ring\<close>

type_synonym 'c slot = "'c list \<times> line_wrap"

definition no_line :: "'c slot" where "no_line = ([], hard_break)"

record 'c ring =
  rg_slots :: "'c slot list"
  rg_max :: nat
  rg_head :: nat
  rg_tail :: nat
  rg_full :: bool
  rg_width :: int
  rg_pending :: nat
  rg_trims :: "nat list"

definition default_scrollback_size :: nat where "default_scrollback_size = 10000"
definition unlimited_scrollback :: nat where "unlimited_scrollback = 9223372036854775807"
definition initial_ring :: nat where "initial_ring = 1024"

definition empty_slots :: "nat \<Rightarrow> 'c slot list" where
  "empty_slots n = replicate n no_line"

definition new_scrollback :: "int \<Rightarrow> 'c ring" where
  "new_scrollback maxl =
     (let m = (if maxl \<le> 0 then default_scrollback_size else nat maxl)
      in \<lparr>rg_slots = empty_slots (min m initial_ring), rg_max = m, rg_head = 0, rg_tail = 0,
          rg_full = False, rg_width = 0, rg_pending = 0, rg_trims = []\<rparr>)"

definition ring_size :: "'c ring \<Rightarrow> nat" where
  "ring_size r = length (rg_slots r)"

definition ring_len :: "'c ring \<Rightarrow> nat" where
  "ring_len r =
     (if rg_full r then ring_size r
      else if rg_tail r \<ge> rg_head r then rg_tail r - rg_head r
      else ring_size r - rg_head r + rg_tail r)"

definition ring_slot :: "'c ring \<Rightarrow> nat \<Rightarrow> 'c slot" where
  "ring_slot r i = rg_slots r ! ((rg_head r + i) mod ring_size r)"

text \<open>\<^verbatim>\<open>appendRange\<close> from \<open>i\<close> up to \<open>j\<close>, and all retained lines, oldest first.\<close>

definition ring_range :: "'c ring \<Rightarrow> nat \<Rightarrow> nat \<Rightarrow> 'c slot list" where
  "ring_range r i j = map (ring_slot r) [i..<j]"

definition contents :: "'c ring \<Rightarrow> 'c slot list" where
  "contents r = ring_range r 0 (ring_len r)"

definition ring_lines :: "'c ring \<Rightarrow> 'c list list" where
  "ring_lines r = map fst (contents r)"

definition ring_line :: "'c ring \<Rightarrow> int \<Rightarrow> 'c list" where
  "ring_line r i = (if i < 0 \<or> i \<ge> int (ring_len r) then [] else fst (ring_slot r (nat i)))"

definition ring_wrap :: "'c ring \<Rightarrow> int \<Rightarrow> line_wrap" where
  "ring_wrap r i = (if i < 0 \<or> i \<ge> int (ring_len r) then hard_break else snd (ring_slot r (nat i)))"

definition is_soft_wrapped :: "'c ring \<Rightarrow> int \<Rightarrow> bool" where
  "is_soft_wrapped r i = wrapped (ring_wrap r i)"

subsection \<open>Growing and pushing\<close>

definition ring_grow :: "nat \<Rightarrow> 'c ring \<Rightarrow> 'c ring" where
  "ring_grow m r =
     (let size = min (rg_max r) (max m (max (2 * ring_size r) initial_ring)); n = ring_len r
      in if size \<le> ring_size r then r
         else r\<lparr>rg_slots := contents r @ empty_slots (size - n), rg_head := 0, rg_tail := n mod size,
               rg_full := n = size\<rparr>)"

text \<open>\<open>push_owned\<close> also returns the evicted line, empty when there is none.\<close>

definition push_slot :: "'c slot \<Rightarrow> 'c ring \<Rightarrow> 'c list \<times> 'c ring" where
  "push_slot s r1 =
     (let evicted = (if rg_full r1 then fst (rg_slots r1 ! rg_tail r1) else []);
          r2 = r1\<lparr>rg_slots := (rg_slots r1)[rg_tail r1 := s],
                  rg_tail := (rg_tail r1 + 1) mod ring_size r1\<rparr>;
          r3 = (if rg_full r2
                then r2\<lparr>rg_head := (rg_head r2 + 1) mod ring_size r2,
                        rg_pending := rg_pending r2 - 1, rg_trims := rg_trims r2 @ [1]\<rparr>
                else r2);
          r4 = (if rg_tail r3 = rg_head r3 then r3\<lparr>rg_full := True\<rparr> else r3)
      in (evicted, r4))"

definition push_owned :: "'c list \<Rightarrow> line_wrap \<Rightarrow> 'c ring \<Rightarrow> 'c list \<times> 'c ring" where
  "push_owned line w r =
     (if line = [] then ([], r)
      else push_slot (line, w)
        (if rg_full r \<and> ring_size r < rg_max r then ring_grow (ring_size r + 1) r else r))"

definition push_line_wrap :: "'c list \<Rightarrow> line_wrap \<Rightarrow> 'c ring \<Rightarrow> 'c ring" where
  "push_line_wrap line w r = (if line = [] then r else snd (push_owned line w r))"

definition push_line :: "'c list \<Rightarrow> 'c ring \<Rightarrow> 'c ring" where
  "push_line line r = push_line_wrap line hard_break r"

definition push_line_with_wrap :: "'c list \<Rightarrow> bool \<Rightarrow> 'c ring \<Rightarrow> 'c ring" where
  "push_line_with_wrap line soft r = push_line_wrap line (bool_wrap soft) r"

definition push_line_recycle :: "'c list \<Rightarrow> bool \<Rightarrow> 'c ring \<Rightarrow> 'c list \<times> 'c ring" where
  "push_line_recycle line soft r = push_owned line (bool_wrap soft) r"

definition clear_ring :: "'c ring \<Rightarrow> 'c ring" where
  "clear_ring r =
     r\<lparr>rg_slots := empty_slots (ring_size r), rg_head := 0, rg_tail := 0, rg_full := False, rg_pending := 0,
       rg_trims := rg_trims r @ (if ring_len r > 0 then [ring_len r] else [])\<rparr>"

subsection \<open>Replacing\<close>

fun replace_loop :: "'c slot list \<Rightarrow> nat \<Rightarrow> 'c ring \<Rightarrow> nat \<Rightarrow> nat \<times> nat \<times> 'c ring" where
  "replace_loop [] len r dropped = (len, dropped, r)"
| "replace_loop (s # ss) len r dropped =
     (let full = len = ring_size r;
          r1 = (if full then r\<lparr>rg_head := (rg_head r + 1) mod ring_size r\<rparr> else r);
          r2 = r1\<lparr>rg_slots := (rg_slots r1)[rg_tail r1 := s], rg_tail := (rg_tail r1 + 1) mod ring_size r1\<rparr>
      in replace_loop ss ((if full then len - 1 else len) + 1) r2 (if full then dropped + 1 else dropped))"

text \<open>Forgetting the lines from \<open>i\<close> on, as the first loop of \<^verbatim>\<open>replaceTail\<close> does.\<close>

definition drop_from :: "nat \<Rightarrow> 'c ring \<Rightarrow> 'c ring" where
  "drop_from i r =
     r\<lparr>rg_slots := fold (\<lambda>k ss. ss[(rg_head r + k) mod ring_size r := no_line]) [i..<ring_len r] (rg_slots r),
       rg_tail := (rg_head r + i) mod ring_size r, rg_full := i = ring_size r\<rparr>"

definition replace_tail :: "int \<Rightarrow> 'c slot list \<Rightarrow> 'c ring \<Rightarrow> nat \<times> 'c ring" where
  "replace_tail from0 ss r =
     (let f = nat (min (max from0 0) (int (ring_len r)));
          r1 = drop_from f r;
          want = min (rg_max r1) (f + length ss);
          r2 = (if want > ring_size r1 then ring_grow want r1 else r1);
          (len, dropped, r3) = replace_loop ss f r2 0
      in (dropped, r3\<lparr>rg_full := len = ring_size r3, rg_pending := rg_pending r3 - dropped\<rparr>))"

definition replace_all :: "'c slot list \<Rightarrow> 'c ring \<Rightarrow> 'c ring" where
  "replace_all ss r =
     (let ss' = (if length ss > rg_max r then drop (length ss - rg_max r) ss else ss);
          size = min (rg_max r) (max (length ss') (ring_size r)); n = min (length ss') size
      in r\<lparr>rg_slots := take size ss' @ empty_slots (size - n), rg_head := 0, rg_tail := n mod size,
           rg_full := n = size\<rparr>)"

subsection \<open>Limits and widths\<close>

definition set_capture_width :: "int \<Rightarrow> 'c ring \<Rightarrow> 'c ring" where
  "set_capture_width w r = (if w > 0 \<and> w \<noteq> rg_width r then r\<lparr>rg_width := w\<rparr> else r)"

definition set_max_lines :: "int \<Rightarrow> 'c ring \<Rightarrow> 'c ring" where
  "set_max_lines maxl r =
     (let m = (if maxl < 0 then unlimited_scrollback else if maxl = 0 then default_scrollback_size
               else nat maxl);
          old = ring_len r
      in if m = rg_max r then r
         else if old = 0
         then r\<lparr>rg_slots := empty_slots (min m initial_ring), rg_max := m, rg_head := 0, rg_tail := 0,
                rg_full := False\<rparr>
         else let n = min old m; size = min m (max n initial_ring)
              in r\<lparr>rg_slots := ring_range r (old - n) old @ empty_slots (size - n), rg_max := m, rg_head := 0,
                   rg_tail := n mod size, rg_full := n = size, rg_pending := rg_pending r - (old - n),
                   rg_trims := rg_trims r @ (if old > n then [old - n] else [])\<rparr>)"

end
