(* ===== verification/TermCell.thy ===== *)
theory TermCell
  imports Prelude
begin

text \<open>
  A cell of a terminal row, as the ultraviolet package has it: the fields the code reads;
  \<open>st_other\<close> stands for the rest of a style.
\<close>

record style =
  st_bg :: "int option"
  st_underline :: bool
  st_reverse :: bool
  st_strike :: bool
  st_other :: int

record cell =
  c_content :: string
  c_width :: int
  c_style :: style
  c_url :: string

definition plain_style :: style where
  "plain_style = \<lparr>st_bg = None, st_underline = False, st_reverse = False, st_strike = False, st_other = 0\<rparr>"

definition empty_cell :: cell where
  "empty_cell = \<lparr>c_content = '' '', c_width = 1, c_style = plain_style, c_url = []\<rparr>"

end
