(* ===== verification/Reflow.thy ===== *)
theory Reflow
  imports Scrollback TermCell
begin

text \<open>
  Laying rows out again at a new width (\<^verbatim>\<open>internal/vt/reflow.go\<close>, \<^verbatim>\<open>Scrollback.Reflow\<close>): rows are
  grouped into logical lines by their wrap flags, a logical line is a run of clusters, and the
  clusters are placed on output rows of the new width. Storage is a value here, so the recycling of
  rows and the callback's early return leave no trace but what they produce: \<open>walk\<close> returns all
  placements, and a visitor that stops sees a prefix of them.
\<close>

subsection \<open>Cells\<close>

definition is_blank_cell :: "cell \<Rightarrow> bool" where
  "is_blank_cell c \<longleftrightarrow> c_width c = 1 \<and> (c_content c = '' '' \<or> c_content c = []) \<and> c_url c = [] \<and>
     \<not> st_underline (c_style c) \<and> \<not> st_reverse (c_style c) \<and> \<not> st_strike (c_style c)"

type_synonym row = "cell list"
type_synonym rows = "cell slot list"

fun trimmed_from :: "nat \<Rightarrow> row \<Rightarrow> nat" where
  "trimmed_from 0 r = 0"
| "trimmed_from (Suc n) r = (if is_blank_cell (r ! n) then trimmed_from n r else Suc n)"

definition trimmed_len :: "row \<Rightarrow> nat" where
  "trimmed_len r = trimmed_from (length r) r"

subsection \<open>Logical lines\<close>

definition content_len :: "cell slot \<Rightarrow> nat" where
  "content_len s =
     (if wrapped (snd s) then nat (max (int (length (fst s)) - spacer_of (snd s)) 0)
      else trimmed_len (fst s))"

text \<open>
  The content lengths of all rows. The row \<open>ext\<close> of the cursor counts up to \<open>extlen\<close>, unless its
  logical line is that one row and holds no text; an unwrapped row is alone on its line when the row
  before it is not wrapped.
\<close>

definition content_lens :: "rows \<Rightarrow> int \<Rightarrow> nat \<Rightarrow> nat list" where
  "content_lens rs ext extlen =
     (let base = map content_len rs; i = nat ext
      in if 0 \<le> ext \<and> ext < int (length rs) \<and> \<not> wrapped (snd (rs ! i)) \<and>
            (0 < i \<and> wrapped (snd (rs ! (i - 1))) \<or> 0 < base ! i)
         then base[i := max (base ! i) (min extlen (length (fst (rs ! i))))]
         else base)"

text \<open>A source row with its content length, and the runs that form logical lines.\<close>

type_synonym src_row = "cell slot \<times> nat"

fun group_rows :: "src_row list \<Rightarrow> src_row list list" where
  "group_rows [] = []"
| "group_rows [s] = [[s]]"
| "group_rows (s # t # ss) =
     (if wrapped (snd (fst s))
      then (case group_rows (t # ss) of l # ls \<Rightarrow> (s # l) # ls | [] \<Rightarrow> [[s]])
      else [s] # group_rows (t # ss))"

record reflow_line =
  ln_first :: nat
  ln_rows :: "src_row list"
  ln_start :: nat
  ln_count :: nat

record reflower =
  rf_width :: nat
  rf_lines :: "reflow_line list"
  rf_total :: nat

definition line_wrap_of :: "src_row list \<Rightarrow> line_wrap" where
  "line_wrap_of l = snd (fst (last l))"

subsection \<open>Clusters and their placement\<close>

definition group_width :: "row \<Rightarrow> nat \<Rightarrow> nat \<Rightarrow> nat" where
  "group_width r x n = (let w = c_width (r ! x) in if w \<le> 1 \<or> int x + w > int n then 1 else nat w)"

lemma group_width_pos [simp]: "0 < group_width r x n"
  by (simp add: group_width_def Let_def)

function row_groups :: "row \<Rightarrow> nat \<Rightarrow> nat \<Rightarrow> (nat \<times> nat) list" where
  "row_groups r n x = (if x < n then (x, group_width r x n) # row_groups r n (x + group_width r x n) else [])"
  by pat_completeness auto
termination
proof (relation "measure (\<lambda>(r, n, x). n - x)")
  fix r :: row and n x :: nat
  assume "x < n"
  moreover have "n - (x + g) < n - x" if "x < n" "0 < g" for g using that by linarith
  ultimately show "((r, n, x + group_width r x n), r, n, x) \<in> measure (\<lambda>(r, n, x). n - x)"
    by auto
qed simp

declare row_groups.simps [simp del]

text \<open>A cluster: its source row (relative to the line), column and cells; where it lands.\<close>

record spot =
  k_row :: nat
  k_x :: nat
  k_gw :: nat
  k_orow :: nat
  k_ocol :: nat
  k_pw :: nat

definition line_groups :: "src_row list \<Rightarrow> (nat \<times> nat \<times> nat) list" where
  "line_groups l =
     concat (map (\<lambda>i. map (\<lambda>(x, gw). (i, x, gw)) (row_groups (fst (fst (l ! i))) (snd (l ! i)) 0)) [0..<length l])"

fun place :: "nat \<Rightarrow> nat \<Rightarrow> nat \<Rightarrow> (nat \<times> nat \<times> nat) list \<Rightarrow> spot list \<times> nat \<times> nat" where
  "place w row col [] = ([], row, col)"
| "place w row col ((i, x, gw) # gs) =
     (let pw = (if gw > w then 1 else gw);
          (row', col') = (if col + pw > w then (row + 1, 0) else (row, col));
          (ks, e) = place w row' (col' + pw) gs
      in (\<lparr>k_row = i, k_x = x, k_gw = gw, k_orow = row', k_ocol = col', k_pw = pw\<rparr> # ks, e))"

definition walk :: "nat \<Rightarrow> src_row list \<Rightarrow> spot list \<times> nat \<times> nat" where
  "walk w l = place w 0 0 (line_groups l)"

definition fits_line :: "nat \<Rightarrow> src_row list \<Rightarrow> bool" where
  "fits_line w l \<longleftrightarrow> length l = 1 \<and> \<not> wrapped (line_wrap_of l) \<and> snd (hd l) \<le> w"

definition count_rows :: "nat \<Rightarrow> src_row list \<Rightarrow> nat" where
  "count_rows w l = (if fits_line w l then 1 else fst (snd (walk w l)) + 1)"

fun lay_lines :: "nat \<Rightarrow> nat \<Rightarrow> nat \<Rightarrow> src_row list list \<Rightarrow> reflow_line list \<times> nat" where
  "lay_lines w first tot [] = ([], tot)"
| "lay_lines w first tot (l # ls) =
     (let c = count_rows w l; (rs, t) = lay_lines w (first + length l) (tot + c) ls
      in (\<lparr>ln_first = first, ln_rows = l, ln_start = tot, ln_count = c\<rparr> # rs, t))"

definition new_reflower :: "rows \<Rightarrow> int \<Rightarrow> int \<Rightarrow> nat \<Rightarrow> reflower" where
  "new_reflower rs width ext extlen =
     (let w = nat (max width 1); (ls, t) = lay_lines w 0 0 (group_rows (zip rs (content_lens rs ext extlen)))
      in \<lparr>rf_width = w, rf_lines = ls, rf_total = t\<rparr>)"

subsection \<open>Building rows\<close>

definition pad_row :: "nat \<Rightarrow> row \<Rightarrow> row" where
  "pad_row w r = r @ replicate (w - length r) empty_cell"

definition fit_width :: "row \<Rightarrow> nat \<Rightarrow> row" where
  "fit_width r w = take w r @ replicate (w - length r) empty_cell"

text \<open>
  The state of \<^verbatim>\<open>emit\<close>: \<open>em_cur\<close> holds the cells written so far of the row being built, \<open>None\<close>
  when that row is outside the wanted range.
\<close>

record emitting =
  em_out :: rows
  em_cur :: "row option"
  em_row :: int
  em_end :: nat

definition flush_row :: "nat \<Rightarrow> line_wrap \<Rightarrow> emitting \<Rightarrow> emitting" where
  "flush_row w wrap st =
     (case em_cur st of None \<Rightarrow> st
      | Some c \<Rightarrow> st\<lparr>em_out := em_out st @ [(pad_row w c, wrap)], em_cur := None\<rparr>)"

text \<open>The cells a cluster becomes: itself, or a blank for a broken pair or a cluster too wide.\<close>

definition spot_cells :: "src_row list \<Rightarrow> spot \<Rightarrow> row" where
  "spot_cells l k =
     (let src = fst (fst (l ! k_row k))
      in if k_pw k = k_gw k \<and> c_width (src ! k_x k) = int (k_gw k)
         then take (k_gw k) (drop (k_x k) src)
         else [empty_cell\<lparr>c_style := c_style (src ! k_x k)\<rparr>])"

definition emit_spot :: "nat \<Rightarrow> src_row list \<Rightarrow> (nat \<Rightarrow> bool) \<Rightarrow> spot \<Rightarrow> emitting \<Rightarrow> emitting" where
  "emit_spot w l in_range k st =
     (let st1 = (if int (k_orow k) \<noteq> em_row st
                 then (flush_row w (soft_wrap (int w - int (em_end st))) st)
                   \<lparr>em_row := int (k_orow k), em_end := 0,
                    em_cur := (if in_range (k_orow k) then Some [] else None)\<rparr>
                 else st)
      in st1\<lparr>em_cur := map_option (\<lambda>c. c @ spot_cells l k) (em_cur st1), em_end := k_ocol k + k_pw k\<rparr>)"

definition emit_line :: "nat \<Rightarrow> nat \<Rightarrow> nat \<Rightarrow> reflow_line \<Rightarrow> rows" where
  "emit_line w from to g =
     (let l = ln_rows g;
          in_range = (\<lambda>rel. from \<le> ln_start g + rel \<and> ln_start g + rel < to);
          spots = takeWhile (\<lambda>k. ln_start g + k_orow k < to) (fst (walk w l));
          st0 = fold (emit_spot w l in_range) spots \<lparr>em_out = [], em_cur = None, em_row = - 1, em_end = 0\<rparr>;
          st = (if em_row st0 < 0
                then st0\<lparr>em_row := 0, em_cur := (if in_range 0 then Some [] else None)\<rparr> else st0)
      in case em_cur st of None \<Rightarrow> em_out st
         | Some cur \<Rightarrow>
           if em_row st \<noteq> int (ln_count g) - 1 \<or> wrapped (line_wrap_of l)
           then em_out (flush_row w (soft_wrap (int w - int (em_end st))) st)
           else let src = fst (fst (last l)); n = snd (last l)
                in em_out (flush_row w hard_break
                     (st\<lparr>em_cur := Some (cur @ take (w - em_end st) (drop n src))\<rparr>)))"

definition build :: "nat \<Rightarrow> nat \<Rightarrow> nat \<Rightarrow> reflower \<Rightarrow> rows" where
  "build from to exact_from r =
     (if to \<le> from then []
      else let ls = takeWhile (\<lambda>l. ln_start l < to)
                 (dropWhile (\<lambda>l. \<not> ln_start l + ln_count l > from) (rf_lines r))
           in concat (map (\<lambda>l. if fits_line (rf_width r) (ln_rows l)
                then [((if ln_start l \<ge> exact_from then fit_width (fst (fst (hd (ln_rows l)))) (rf_width r)
                        else fst (fst (hd (ln_rows l)))), hard_break)]
                else emit_line (rf_width r) from to l) ls))"

subsection \<open>Following a position\<close>

definition line_holding :: "reflower \<Rightarrow> nat \<Rightarrow> reflow_line" where
  "line_holding r i = hd (filter (\<lambda>l. ln_first l \<le> i \<and> i < ln_first l + length (ln_rows l)) (rf_lines r))"

text \<open>\<open>i\<close> is relative to the line; \<open>None\<close> when no cluster up to the position covers it.\<close>

definition spot_at :: "nat \<Rightarrow> int \<Rightarrow> spot list \<Rightarrow> (nat \<times> nat) option" where
  "spot_at i x ks =
     map_option (\<lambda>k. (k_orow k, k_ocol k + min (nat x - k_x k) (k_pw k - 1)))
       (List.find (\<lambda>k. k_row k = i \<and> x \<ge> int (k_x k) \<and> x < int (k_x k) + int (k_gw k)) ks)"

text \<open>Where the layout stood after the last cluster of the rows up to \<open>i\<close>.\<close>

definition end_at :: "nat \<Rightarrow> spot list \<Rightarrow> nat \<times> nat" where
  "end_at i ks =
     (case rev (takeWhile (\<lambda>k. \<not> k_row k > i) ks) of [] \<Rightarrow> (0, 0) | k # _ \<Rightarrow> (k_orow k, k_ocol k + k_pw k))"

definition locate :: "reflower \<Rightarrow> nat \<Rightarrow> int \<Rightarrow> int \<Rightarrow> nat \<times> int \<times> bool" where
  "locate r nrows src_row0 x =
     (if nrows = 0 then (0, 0, False)
      else let src = nat (max 0 (min src_row0 (int nrows - 1)));
               l = line_holding r src; w = rf_width r; i = src - ln_first l; n = snd (ln_rows l ! i)
      in if fits_line w (ln_rows l)
         then if x < int n then (ln_start l, x, False)
              else if x = int n \<and> n = w then (ln_start l, int w - 1, True)
              else (ln_start l, min x (int w - 1), False)
         else case spot_at i x (fst (walk w (ln_rows l))) of
           Some (row, col) \<Rightarrow> (ln_start l + row, int col, False)
         | None \<Rightarrow>
           let (erow, ecol) = end_at i (fst (walk w (ln_rows l))); extra = max (x - int n) 0
           in if extra = 0 \<and> ecol = w then (ln_start l + erow, int w - 1, True)
              else if ecol \<ge> w \<and> extra > 0 \<and> erow + 1 < ln_count l
              then (ln_start l + erow + 1, min (extra - 1) (int w - 1), False)
              else (ln_start l + erow, min (int ecol + extra) (int w - 1), False))"

subsection \<open>The scrollback on its own\<close>

definition scrollback_reflow :: "int \<Rightarrow> cell ring \<Rightarrow> cell ring" where
  "scrollback_reflow width sb =
     (if width \<le> 0 then sb
      else let sb1 = sb\<lparr>rg_width := width\<rparr>; rs = contents sb1
           in if rs = [] then sb1
              else let r = new_reflower rs width (- 1) 0;
                       from = rf_total r - rg_max sb1
                   in (replace_all (build from (rf_total r) (rf_total r) r) sb1)\<lparr>rg_pending := 0\<rparr>)"

text \<open>
  \<^verbatim>\<open>reflowTailStart\<close>: whole logical lines are taken from the newest back. \<open>tail_line\<close> walks back
  over the rows of one line and returns where it starts and how many cells it holds.
\<close>

fun tail_line :: "cell ring \<Rightarrow> nat \<Rightarrow> nat \<Rightarrow> nat \<times> nat" where
  "tail_line sb 0 acc = (0, acc)"
| "tail_line sb (Suc start) acc =
     (let acc1 = acc + content_len (ring_slot sb start)
      in if start = rg_pending sb \<or> \<not> wrapped (ring_wrap sb (int start - 1)) then (start, acc1)
         else tail_line sb start acc1)"

lemma tail_line_less: "fst (tail_line sb (Suc start) acc) < Suc start"
proof (induction start arbitrary: acc)
  case (Suc start)
  then show ?case by (subst tail_line.simps) (auto simp: Let_def less_SucI simp del: tail_line.simps)
qed (simp add: Let_def)

function tail_start :: "cell ring \<Rightarrow> nat \<Rightarrow> int \<Rightarrow> nat \<Rightarrow> nat \<Rightarrow> nat" where
  "tail_start sb width height start rows =
     (if start > rg_pending sb \<and> int rows \<le> height
      then let (start', acc) = tail_line sb start 0
           in tail_start sb width height start' (rows + max 1 ((acc + width - 1) div width))
      else start)"
  by pat_completeness auto
termination
proof (relation "measure (\<lambda>(sb, w, h, start, rows). start)")
  fix sb :: "cell ring" and w start rows start' acc :: nat and h :: int and x
  assume "start > rg_pending sb \<and> int rows \<le> h" "x = tail_line sb start 0" "(start', acc) = x"
  then show "((sb, w, h, start', rows + max 1 ((acc + w - 1) div w)), sb, w, h, start, rows)
      \<in> measure (\<lambda>(sb, w, h, start, rows). start)"
    using tail_line_less [of sb "start - 1" 0] by (cases start) (auto simp: fst_def split: prod.splits)
qed simp

declare tail_start.simps [simp del]

definition reflow_tail_start :: "int \<Rightarrow> int \<Rightarrow> cell ring \<Rightarrow> nat" where
  "reflow_tail_start width height sb = tail_start sb (nat (max width 1)) height (ring_len sb) 0"

end
