(* ===== verification/BoundedLog.thy ===== *)
theory BoundedLog
  imports Prelude
begin

text \<open>
  The contract of a history with a limit: pushing an admitted element adds it at the end and drops
  from the front what the limit has no room for; an element that is not admitted changes nothing.
\<close>

locale bounded_log =
  fixes inv :: "'s \<Rightarrow> bool"
    and log :: "'s \<Rightarrow> 'e list"
    and limit :: "'s \<Rightarrow> nat"
    and admit :: "'e \<Rightarrow> bool"
    and push :: "'e \<Rightarrow> 's \<Rightarrow> 's"
  assumes bounded: "inv s \<Longrightarrow> length (log s) \<le> limit s"
    and push_inv: "inv s \<Longrightarrow> inv (push e s)"
    and push_limit: "inv s \<Longrightarrow> limit (push e s) = limit s"
    and push_log: "inv s \<Longrightarrow> log (push e s) = (if admit e then lastn (limit s) (log s @ [e]) else log s)"
begin

lemma run_inv: "inv s \<Longrightarrow> inv (fold push es s) \<and> limit (fold push es s) = limit s"
  by (induction es arbitrary: s) (simp_all add: push_inv push_limit)

lemma run_log: "inv s \<Longrightarrow> log (fold push es s) = lastn (limit s) (log s @ filter admit es)"
proof (induction es arbitrary: s)
  case Nil
  then show ?case by (simp add: bounded lastn_all)
next
  case (Cons e es)
  show ?case
  proof (cases "admit e")
    case True
    have "log (fold push (e # es) s) = lastn (limit s) (lastn (limit s) (log s @ [e]) @ filter admit es)"
      using Cons True by (simp add: push_inv push_limit push_log)
    also have "\<dots> = lastn (limit s) ((log s @ [e]) @ filter admit es)" by (rule lastn_lastn_append)
    finally show ?thesis using True by simp
  qed (use Cons in \<open>simp add: push_inv push_limit push_log\<close>)
qed

end

end
