(* ===== verification/ScrollbackInv.thy ===== *)
theory ScrollbackInv
  imports Scrollback BoundedLog
begin

text \<open>
  The scrollback is a bounded log: its contents are the newest lines that were pushed, as many as
  the limit allows, whatever the ring's size, position and growth. Every operation is described on
  that list.
\<close>

subsection \<open>The invariant\<close>

definition ring_at :: "'c ring \<Rightarrow> nat \<Rightarrow> bool" where
  "ring_at r n \<longleftrightarrow> 0 < ring_size r \<and> ring_size r \<le> rg_max r \<and> rg_head r < ring_size r \<and>
     n \<le> ring_size r \<and> rg_tail r = (rg_head r + n) mod ring_size r \<and> rg_full r = (n = ring_size r)"

definition ring_inv :: "'c ring \<Rightarrow> bool" where
  "ring_inv r \<longleftrightarrow> ring_at r (ring_len r) \<and> rg_pending r \<le> ring_len r"

lemma ring_at_len: "ring_at r n \<Longrightarrow> ring_len r = n"
proof -
  assume a: "ring_at r n"
  show ?thesis
  proof (cases "n = ring_size r")
    case False
    then have n: "n < ring_size r" "rg_head r < ring_size r" using a by (auto simp: ring_at_def)
    show ?thesis
    proof (cases "rg_head r + n < ring_size r")
      case False
      with n have "(rg_head r + n) mod ring_size r = rg_head r + n - ring_size r" by (simp add: mod_if)
      with a False n show ?thesis by (auto simp: ring_at_def ring_len_def)
    qed (use a n in \<open>auto simp: ring_at_def ring_len_def\<close>)
  qed (use a in \<open>auto simp: ring_at_def ring_len_def\<close>)
qed

lemma ring_invI: "ring_at r n \<Longrightarrow> rg_pending r \<le> n \<Longrightarrow> ring_inv r"
  using ring_at_len by (fastforce simp: ring_inv_def)

lemma length_contents [simp]: "length (contents r) = ring_len r"
  by (simp add: contents_def ring_range_def)

lemma contents_nth: "i < ring_len r \<Longrightarrow> contents r ! i = ring_slot r i"
  by (simp add: contents_def ring_range_def)

lemma ring_slot_inj:
  "ring_at r n \<Longrightarrow> i < ring_size r \<Longrightarrow> j < ring_size r \<Longrightarrow>
   (rg_head r + i) mod ring_size r = (rg_head r + j) mod ring_size r \<Longrightarrow> i = j"
  by (auto simp: ring_at_def mod_if split: if_splits)

text \<open>A ring laid out from slot 0.\<close>

lemma ring_at_front:
  assumes "rg_slots r = ss @ empty_slots k" "rg_head r = 0" "rg_tail r = length ss mod (length ss + k)"
    "rg_full r = (k = 0)" "0 < length ss + k" "length ss + k \<le> rg_max r"
  shows "ring_at r (length ss)" "contents r = ss"
proof -
  show a: "ring_at r (length ss)" using assms by (auto simp: ring_at_def ring_size_def empty_slots_def)
  show "contents r = ss"
    by (rule nth_equalityI)
      (use ring_at_len [OF a] assms in \<open>auto simp: contents_nth ring_slot_def ring_size_def empty_slots_def nth_append\<close>)
qed

lemma new_scrollback_inv:
  "ring_inv (new_scrollback m)" "contents (new_scrollback m) = []"
proof -
  let ?r = "new_scrollback m"
  have m: "0 < rg_max ?r" by (auto simp: new_scrollback_def Let_def default_scrollback_size_def)
  note f = ring_at_front [of ?r "[]" "min (rg_max ?r) initial_ring"]
  have "ring_at ?r 0" "contents ?r = []"
    using f m by (simp_all add: new_scrollback_def Let_def initial_ring_def)
  then show "ring_inv ?r" "contents ?r = []" by (auto intro: ring_invI simp: new_scrollback_def Let_def)
qed

subsection \<open>Growing\<close>

lemma grow_inv:
  assumes "ring_at r n"
  shows "ring_at (ring_grow m r) n" "contents (ring_grow m r) = contents r"
    "rg_max (ring_grow m r) = rg_max r" "rg_pending (ring_grow m r) = rg_pending r"
    "rg_trims (ring_grow m r) = rg_trims r" "min m (rg_max r) \<le> ring_size (ring_grow m r)"
    "ring_size r \<le> ring_size (ring_grow m r)"
proof -
  let ?s = "min (rg_max r) (max m (max (2 * ring_size r) initial_ring))"
  have l: "ring_len r = n" by (rule ring_at_len [OF assms])
  define sz where "sz = ?s"
  have sz: "sz \<le> rg_max r" "min m (rg_max r) \<le> sz" by (auto simp: sz_def)
  have "ring_at (ring_grow m r) n \<and> contents (ring_grow m r) = contents r \<and>
      min m (rg_max r) \<le> ring_size (ring_grow m r) \<and> ring_size r \<le> ring_size (ring_grow m r)"
  proof (cases "sz \<le> ring_size r")
    case False
    then have g: "ring_grow m r = r\<lparr>rg_slots := contents r @ empty_slots (sz - n), rg_head := 0,
        rg_tail := n mod sz, rg_full := n = sz\<rparr>"
      unfolding ring_grow_def l sz_def by (simp add: Let_def)
    have n: "n < sz" using assms False by (simp add: ring_at_def)
    then have "ring_at (ring_grow m r) n \<and> contents (ring_grow m r) = contents r"
      using ring_at_front [of "ring_grow m r" "contents r" "sz - n"] l sz(1) unfolding g by simp
    moreover have "ring_size (ring_grow m r) = sz" using n l by (simp add: g ring_size_def empty_slots_def)
    ultimately show ?thesis using False sz(2) by simp
  next
    case True
    then have "ring_grow m r = r" unfolding ring_grow_def sz_def by (simp add: Let_def)
    with True assms sz(2) show ?thesis by simp
  qed
  then show "ring_at (ring_grow m r) n" "contents (ring_grow m r) = contents r"
    "min m (rg_max r) \<le> ring_size (ring_grow m r)" "ring_size r \<le> ring_size (ring_grow m r)" by auto
  show "rg_max (ring_grow m r) = rg_max r" "rg_pending (ring_grow m r) = rg_pending r"
    "rg_trims (ring_grow m r) = rg_trims r" by (simp_all add: ring_grow_def Let_def)
qed

subsection \<open>Writing at the tail\<close>

lemma write_free:
  assumes "ring_at r n" "n < ring_size r"
    and "r' = r\<lparr>rg_slots := (rg_slots r)[rg_tail r := s], rg_tail := (rg_tail r + 1) mod ring_size r,
           rg_full := Suc n = ring_size r\<rparr>"
  shows "ring_at r' (Suc n)" "contents r' = contents r @ [s]"
proof -
  have l: "ring_len r = n" by (rule ring_at_len [OF assms(1)])
  have z: "ring_size r' = ring_size r" by (simp add: assms(3) ring_size_def)
  show a: "ring_at r' (Suc n)"
    using assms(1,2) z unfolding ring_at_def by (simp add: assms(3) mod_Suc_eq)
  show "contents r' = contents r @ [s]"
  proof (rule nth_equalityI)
    show len: "length (contents r') = length (contents r @ [s])" using ring_at_len [OF a] l by simp
    fix i
    assume "i < length (contents r')"
    then have i: "i \<le> n" using len l by simp
    have t: "rg_tail r = (rg_head r + n) mod ring_size r" "rg_tail r < length (rg_slots r)"
      using assms(1) by (auto simp: ring_at_def ring_size_def)
    have "contents r' ! i = (rg_slots r)[rg_tail r := s] ! ((rg_head r + i) mod ring_size r)"
      using i ring_at_len [OF a] z by (simp add: contents_nth ring_slot_def assms(3))
    also have "\<dots> = (contents r @ [s]) ! i"
    proof (cases "i = n")
      case False
      then have "(rg_head r + i) mod ring_size r \<noteq> rg_tail r"
        using ring_slot_inj [OF assms(1), of i n] i assms(2) t(1) by auto
      with False i l show ?thesis by (simp add: contents_nth ring_slot_def nth_append)
    qed (use t l in \<open>simp add: nth_append\<close>)
    finally show "contents r' ! i = (contents r @ [s]) ! i" .
  qed
qed

lemma write_full:
  assumes "ring_at r (ring_size r)"
    and "r' = r\<lparr>rg_slots := (rg_slots r)[rg_tail r := s], rg_tail := (rg_tail r + 1) mod ring_size r,
           rg_head := (rg_head r + 1) mod ring_size r, rg_pending := p, rg_trims := ts\<rparr>"
  shows "ring_at r' (ring_size r)" "contents r' = tl (contents r) @ [s]" "rg_tail r = rg_head r"
    "ring_size r' = ring_size r"
proof -
  let ?n = "ring_size r"
  have l: "ring_len r = ?n" by (rule ring_at_len [OF assms(1)])
  show z: "ring_size r' = ?n" by (simp add: assms(2) ring_size_def)
  have pos: "0 < ?n" using assms(1) by (simp add: ring_at_def)
  show t: "rg_tail r = rg_head r" using assms(1) by (simp add: ring_at_def)
  show a: "ring_at r' ?n"
    using assms(1) z t unfolding ring_at_def by (simp add: assms(2))
  show "contents r' = tl (contents r) @ [s]"
  proof (rule nth_equalityI)
    show len: "length (contents r') = length (tl (contents r) @ [s])" using ring_at_len [OF a] l pos by simp
    fix i
    assume "i < length (contents r')"
    then have i: "i < ?n" using ring_at_len [OF a] by simp
    have h: "(((rg_head r + 1) mod ?n) + i) mod ?n = (rg_head r + Suc i) mod ?n" by (simp add: mod_simps)
    have "contents r' ! i = (rg_slots r)[rg_head r := s] ! ((rg_head r + Suc i) mod ?n)"
      using i ring_at_len [OF a] z h t by (simp add: contents_nth ring_slot_def assms(2))
    also have "\<dots> = (tl (contents r) @ [s]) ! i"
    proof (cases "Suc i = ?n")
      case True
      have "rg_head r < length (rg_slots r)" using assms(1) by (simp add: ring_at_def ring_size_def)
      with True l show ?thesis using assms(1) by (auto simp: nth_append ring_at_def)
    next
      case False
      then have si: "Suc i < ?n" using i by simp
      have "(rg_head r + Suc i) mod ?n \<noteq> (rg_head r + 0) mod ?n"
        using ring_slot_inj [OF assms(1), of "Suc i" 0] si pos by blast
      moreover have "(rg_head r + 0) mod ?n = rg_head r" using assms(1) by (simp add: ring_at_def)
      moreover have "i < ring_size r - Suc 0" using si by simp
      ultimately show ?thesis using si l
        by (simp add: nth_append nth_tl contents_nth ring_slot_def)
    qed
    finally show "contents r' ! i = (tl (contents r) @ [s]) ! i" .
  qed
qed

subsection \<open>Pushing\<close>

lemma wrap_eq: "h < L \<Longrightarrow> n < L \<Longrightarrow> ((h + n) mod L + 1) mod L = h \<longleftrightarrow> Suc n = (L :: nat)"
proof -
  assume h: "h < L" "n < L"
  have "((h + n) mod L + 1) mod L = (h + Suc n) mod L" by (simp add: mod_simps)
  with h show ?thesis by (cases "Suc n = L"; cases "h + Suc n < L") (auto simp: mod_if)
qed

lemma push_free:
  assumes "ring_at r n" "n < ring_size r"
  shows "\<exists>r'. push_slot s r = ([], r') \<and> ring_at r' (Suc n) \<and> contents r' = contents r @ [s] \<and>
    rg_max r' = rg_max r \<and> rg_pending r' = rg_pending r \<and> rg_trims r' = rg_trims r"
proof -
  have nf: "\<not> rg_full r" and h: "rg_head r < ring_size r" "rg_tail r = (rg_head r + n) mod ring_size r"
    using assms by (auto simp: ring_at_def)
  define r2 where "r2 = r\<lparr>rg_slots := (rg_slots r)[rg_tail r := s],
      rg_tail := (rg_tail r + 1) mod ring_size r, rg_full := Suc n = ring_size r\<rparr>"
  have "push_slot s r = ([], r2)"
    using nf wrap_eq [OF h(1) assms(2)] unfolding push_slot_def r2_def by (simp add: Let_def h(2))
  with write_free [OF assms r2_def] show ?thesis by (simp add: r2_def)
qed

lemma push_full:
  assumes "ring_at r (ring_size r)"
  shows "\<exists>r'. push_slot s r = (fst (hd (contents r)), r') \<and> ring_at r' (ring_size r) \<and>
    contents r' = tl (contents r) @ [s] \<and> rg_max r' = rg_max r \<and> rg_pending r' = rg_pending r - 1 \<and>
    rg_trims r' = rg_trims r @ [1]"
proof -
  have f: "rg_full r" "0 < ring_size r" "rg_head r < ring_size r" using assms by (auto simp: ring_at_def)
  define r2 where "r2 = r\<lparr>rg_slots := (rg_slots r)[rg_tail r := s],
      rg_tail := (rg_tail r + 1) mod ring_size r, rg_head := (rg_head r + 1) mod ring_size r,
      rg_pending := rg_pending r - 1, rg_trims := rg_trims r @ [1]\<rparr>"
  note wf = write_full [OF assms r2_def]
  have l: "ring_len r = ring_size r" by (rule ring_at_len [OF assms])
  have "contents r \<noteq> []" using f(2) l by (simp flip: length_0_conv)
  then have "hd (contents r) = rg_slots r ! rg_tail r"
    using f l wf(3) by (simp add: hd_conv_nth contents_nth ring_slot_def)
  moreover have "push_slot s r = (fst (rg_slots r ! rg_tail r), r2)"
    using f(1) wf(3) unfolding push_slot_def r2_def by (simp add: Let_def ring_size_def)
  ultimately show ?thesis using wf by (simp add: r2_def)
qed

lemma push_owned_spec:
  assumes inv: "ring_inv r" and line: "line \<noteq> []" and p: "push_owned line w r = (ev, r')"
  shows "ring_inv r' \<and> rg_max r' = rg_max r \<and> contents r' = lastn (rg_max r) (contents r @ [(line, w)]) \<and>
    ev = (if ring_len r = rg_max r then fst (hd (contents r)) else []) \<and>
    rg_trims r' = rg_trims r @ (if ring_len r = rg_max r then [1] else [])"
proof -
  define n where "n = ring_len r"
  have a: "ring_at r n" "rg_pending r \<le> n" using inv by (auto simp: ring_inv_def n_def)
  define q where "q = (if rg_full r \<and> ring_size r < rg_max r then ring_grow (ring_size r + 1) r else r)"
  have q: "ring_at q n" "contents q = contents r" "rg_max q = rg_max r" "rg_pending q = rg_pending r"
      "rg_trims q = rg_trims r"
    using grow_inv [OF a(1), of "ring_size r + 1"] a(1) by (auto simp: q_def)
  have p': "push_slot (line, w) q = (ev, r')" using p line by (simp add: push_owned_def q_def)
  have le: "n \<le> ring_size q" "ring_size q \<le> rg_max r" using q(1,3) by (auto simp: ring_at_def)
  have full: "n = ring_size q \<longleftrightarrow> n = rg_max r"
  proof (cases "rg_full r \<and> ring_size r < rg_max r")
    case True
    then have "n < ring_size q" "n < rg_max r"
      using grow_inv(6) [OF a(1), of "ring_size r + 1"] a(1) by (auto simp: ring_at_def q_def)
    then show ?thesis by simp
  next
    case False
    then have "q = r" by (auto simp: q_def)
    with a(1) False show ?thesis by (auto simp: ring_at_def)
  qed
  show ?thesis
  proof (cases "n = rg_max r")
    case False
    then have "n < ring_size q" "n < rg_max r" using full le by auto
    with push_free [OF q(1), of "(line, w)"] p' q a(2) False show ?thesis
      by (auto simp: n_def [symmetric] lastn_all intro: ring_invI)
  next
    case True
    then have z: "ring_at q (ring_size q)" "ring_size q = n" using full q(1) by auto
    have "0 < n" using z by (auto simp: ring_at_def)
    then have "contents r \<noteq> []" "length (contents r) = rg_max r" using True by (auto simp: n_def simp flip: length_0_conv)
    then have "lastn (rg_max r) (contents r @ [(line, w)]) = tl (contents r) @ [(line, w)]"
      by (cases "contents r") (auto simp: lastn_def)
    with push_full [OF z(1), of "(line, w)"] p' q a(2) True z(2) show ?thesis
      by (auto simp: n_def [symmetric] intro!: ring_invI)
  qed
qed

subsection \<open>The scrollback as a bounded log\<close>

definition push_line_slot :: "'c slot \<Rightarrow> 'c ring \<Rightarrow> 'c ring" where
  "push_line_slot s r = push_line_wrap (fst s) (snd s) r"

lemma push_line_slot_spec:
  assumes "ring_inv r"
  shows "ring_inv (push_line_slot s r) \<and> rg_max (push_line_slot s r) = rg_max r \<and>
    contents (push_line_slot s r) =
      (if fst s \<noteq> [] then lastn (rg_max r) (contents r @ [s]) else contents r)"
proof (cases "fst s = []")
  case False
  obtain ev r' where p: "push_owned (fst s) (snd s) r = (ev, r')" by fastforce
  from push_owned_spec [OF assms False p] False p show ?thesis
    by (simp add: push_line_slot_def push_line_wrap_def)
qed (use assms in \<open>simp add: push_line_slot_def push_line_wrap_def\<close>)

lemma ring_len_bounded: "ring_inv r \<Longrightarrow> ring_len r \<le> rg_max r"
  by (simp add: ring_inv_def ring_at_def)

interpretation ring_log: bounded_log ring_inv contents rg_max "\<lambda>s. fst s \<noteq> []" push_line_slot
  by unfold_locales (simp_all add: push_line_slot_spec ring_len_bounded)

text \<open>
  C18. The scrollback keeps the newest lines: after any sequence of pushes a new buffer holds exactly
  the last \<^verbatim>\<open>maxLines\<close> of the non-empty lines pushed, oldest first, each with the way it ended,
  and \<^verbatim>\<open>Line\<close> and \<^verbatim>\<open>LineWrap\<close> read them by index, out of range included.
\<close>

theorem scrollback_keeps_newest:
  assumes "r = fold push_line_slot ss (new_scrollback m)"
    and "kept = lastn (rg_max (new_scrollback m :: 'c ring)) (filter (\<lambda>s. fst s \<noteq> []) (ss :: 'c slot list))"
  shows "ring_inv r \<and> contents r = kept \<and> ring_len r = length kept \<and>
    (\<forall>i. ring_line r i = (if 0 \<le> i \<and> i < int (length kept) then fst (kept ! nat i) else []) \<and>
         ring_wrap r i = (if 0 \<le> i \<and> i < int (length kept) then snd (kept ! nat i) else hard_break))"
proof -
  have r: "ring_inv r" "contents r = kept"
    using ring_log.run_inv [of "new_scrollback m" ss] ring_log.run_log [of "new_scrollback m" ss]
    by (simp_all add: assms new_scrollback_inv)
  then have l: "ring_len r = length kept" using length_contents [of r] by simp
  have "contents r ! nat i = ring_slot r (nat i)" if "0 \<le> i" "i < int (length kept)" for i
    using that l by (intro contents_nth) simp
  with r l show ?thesis by (auto simp: ring_line_def ring_wrap_def)
qed

theorem scrollback_keeps_newest_witness:
  "ring_line (fold push_line_slot [(''ab'', 0), ('''', 0), (''c'', 1), (''d'', 0)] (new_scrollback 2)) 0 = ''c''"
proof -
  have m: "rg_max (new_scrollback 2 :: char ring) = 2" by (simp add: new_scrollback_def Let_def)
  show ?thesis
    using scrollback_keeps_newest [OF refl refl, of "[(''ab'', 0), ('''', 0), (''c'', 1), (''d'', 0)]" 2]
    unfolding m by (simp add: lastn_def)
qed

subsection \<open>Clearing, limits\<close>

lemma clear_spec: "ring_inv r \<Longrightarrow> ring_inv (clear_ring r) \<and> contents (clear_ring r) = []"
proof -
  assume "ring_inv r"
  then have "0 < ring_size r" "ring_size r \<le> rg_max r" by (auto simp: ring_inv_def ring_at_def)
  then have "ring_at (clear_ring r) 0" "contents (clear_ring r) = []"
    using ring_at_front [of "clear_ring r" "[]" "ring_size r"] by (simp_all add: clear_ring_def)
  then show ?thesis by (auto intro!: ring_invI simp: clear_ring_def)
qed

lemma range_lastn:
  "k \<le> ring_len r \<Longrightarrow> ring_range r (ring_len r - k) (ring_len r) = lastn k (contents r)"
  by (simp add: contents_def ring_range_def lastn_def drop_map)

text \<open>
  C23. Changing the limit keeps the newest lines that fit, reports exactly how many of the oldest
  were dropped, and leaves the buffer sound; \<^verbatim>\<open>Clear\<close> empties it.
\<close>

theorem set_max_lines_keeps_newest:
  assumes "ring_inv r" "r' = set_max_lines m r"
  shows "ring_inv r' \<and> contents r' = lastn (rg_max r') (contents r) \<and>
    rg_max r' = (if m < 0 then unlimited_scrollback else if m = 0 then default_scrollback_size else nat m) \<and>
    sum_list (rg_trims r') = sum_list (rg_trims r) + (ring_len r - ring_len r') \<and>
    ring_inv (clear_ring r) \<and> contents (clear_ring r) = []"
proof -
  define k where "k = (if m < 0 then unlimited_scrollback else if m = 0 then default_scrollback_size else nat m)"
  have kpos: "0 < k" by (auto simp: k_def unlimited_scrollback_def default_scrollback_size_def)
  have a: "ring_at r (ring_len r)" "rg_pending r \<le> ring_len r" using assms(1) by (auto simp: ring_inv_def)
  have "ring_inv r' \<and> contents r' = lastn (rg_max r') (contents r) \<and> rg_max r' = k \<and>
      sum_list (rg_trims r') = sum_list (rg_trims r) + (ring_len r - ring_len r')"
  proof -
    consider "k = rg_max r" | "k \<noteq> rg_max r" "ring_len r = 0" | "k \<noteq> rg_max r" "ring_len r \<noteq> 0" by blast
    then show ?thesis
    proof cases
      case 1
      then have "r' = r" by (simp add: assms(2) set_max_lines_def k_def)
      with 1 assms(1) ring_len_bounded [OF assms(1)] show ?thesis by (simp add: lastn_all)
    next
      case 2
      then have r': "r' = r\<lparr>rg_slots := empty_slots (min k initial_ring), rg_max := k, rg_head := 0,
          rg_tail := 0, rg_full := False\<rparr>"
        by (simp add: assms(2) set_max_lines_def k_def Let_def)
      have f: "ring_at r' 0" "contents r' = []"
        using ring_at_front [of r' "[]" "min k initial_ring"] kpos by (simp_all add: r' initial_ring_def)
      moreover have "contents r = []" using 2 by (simp add: contents_def ring_range_def)
      moreover have "rg_pending r' \<le> 0" using a(2) 2 by (simp add: r')
      ultimately show ?thesis using 2 by (auto intro!: ring_invI simp: r' lastn_def)
    next
      case 3
      define n where "n = min (ring_len r) k"
      define z where "z = min k (max n initial_ring)"
      have n: "n \<le> z" "z \<le> k" "0 < z" "n \<le> ring_len r" using kpos by (auto simp: n_def z_def initial_ring_def)
      have r': "r' = r\<lparr>rg_slots := lastn n (contents r) @ empty_slots (z - n), rg_max := k, rg_head := 0,
          rg_tail := n mod z, rg_full := n = z, rg_pending := rg_pending r - (ring_len r - n),
          rg_trims := rg_trims r @ (if ring_len r > n then [ring_len r - n] else [])\<rparr>"
        using 3 range_lastn [OF n(4)]
        by (simp add: assms(2) set_max_lines_def k_def [symmetric] n_def [symmetric] z_def [symmetric] Let_def)
      have ln: "length (lastn n (contents r)) = n" using n by simp
      have at: "ring_at r' n" "contents r' = lastn n (contents r)"
        by (rule ring_at_front [of r' "lastn n (contents r)" "z - n", unfolded ln]; use n in \<open>auto simp: r'\<close>)+
      moreover have "lastn n (contents r) = lastn k (contents r)"
        by (cases "ring_len r \<le> k") (simp_all add: n_def min_def lastn_all)
      moreover have "ring_len r' = n" by (rule ring_at_len [OF at(1)])
      ultimately show ?thesis using a(2) n by (auto intro!: ring_invI simp: r')
    qed
  qed
  with clear_spec [OF assms(1)] show ?thesis by (simp add: k_def)
qed

theorem set_max_lines_keeps_newest_witness:
  "contents (set_max_lines 1 (push_line ''b'' (push_line ''a'' (new_scrollback 3)))) = [(''b'', hard_break)]"
proof -
  have p: "push_line l r = push_line_slot (l, hard_break) r" for l and r :: "char ring"
    by (simp add: push_line_def push_line_slot_def)
  have m: "rg_max (new_scrollback 3 :: char ring) = 3" by (simp add: new_scrollback_def Let_def)
  define r where "r = fold push_line_slot [(''a'', hard_break), (''b'', hard_break)] (new_scrollback 3)"
  have i: "ring_inv r" "contents r = [(''a'', hard_break), (''b'', hard_break)]"
    using ring_log.run_inv [of "new_scrollback 3" "[(''a'', hard_break), (''b'', hard_break)]"]
      ring_log.run_log [of "new_scrollback 3" "[(''a'', hard_break), (''b'', hard_break)]"]
    by (simp_all add: r_def m new_scrollback_inv lastn_def)
  have "push_line ''b'' (push_line ''a'' (new_scrollback 3)) = r" by (simp add: p r_def)
  moreover have "lastn 1 [x, y] = [y]" for x y :: "char slot" by (simp add: lastn_def)
  ultimately show ?thesis using set_max_lines_keeps_newest [OF i(1) refl, of 1] i(2) by simp
qed

subsection \<open>Replacing the tail\<close>

lemma fold_clear_nth:
  "j \<notin> (\<lambda>k. (h + k) mod L) ` set ks \<Longrightarrow>
   fold (\<lambda>k ss. ss[(h + k) mod L := x]) ks ss ! j = ss ! j"
  by (induction ks arbitrary: ss) auto

lemma fold_clear_length: "length (fold (\<lambda>k ss. ss[(h + k) mod L := x]) ks ss) = length ss"
  by (induction ks arbitrary: ss) auto

lemma drop_from_spec:
  assumes "ring_at r n" "f \<le> n"
  shows "ring_at (drop_from f r) f" "contents (drop_from f r) = take f (contents r)"
    "rg_max (drop_from f r) = rg_max r" "rg_pending (drop_from f r) = rg_pending r"
proof -
  have l: "ring_len r = n" by (rule ring_at_len [OF assms(1)])
  have z: "ring_size (drop_from f r) = ring_size r"
    by (simp add: drop_from_def ring_size_def fold_clear_length)
  show a: "ring_at (drop_from f r) f"
    using assms z by (auto simp: ring_at_def drop_from_def)
  show "contents (drop_from f r) = take f (contents r)"
  proof (rule nth_equalityI)
    show len: "length (contents (drop_from f r)) = length (take f (contents r))"
      using ring_at_len [OF a] l assms(2) by simp
    fix i
    assume "i < length (contents (drop_from f r))"
    then have i: "i < f" using ring_at_len [OF a] by simp
    have "(rg_head r + i) mod ring_size r \<notin> (\<lambda>k. (rg_head r + k) mod ring_size r) ` set [f..<n]"
    proof
      assume "(rg_head r + i) mod ring_size r \<in> (\<lambda>k. (rg_head r + k) mod ring_size r) ` set [f..<n]"
      then obtain k where k: "(rg_head r + i) mod ring_size r = (rg_head r + k) mod ring_size r" "f \<le> k" "k < n"
        by auto
      moreover have "n \<le> ring_size r" using assms(1) by (simp add: ring_at_def)
      ultimately have "i = k" using ring_slot_inj [OF assms(1), of i k] i by simp
      with k i show False by simp
    qed
    then have "rg_slots (drop_from f r) ! ((rg_head r + i) mod ring_size r) =
        rg_slots r ! ((rg_head r + i) mod ring_size r)"
      unfolding drop_from_def l by (simp add: fold_clear_nth)
    then show "contents (drop_from f r) ! i = take f (contents r) ! i"
      using i l assms(2) ring_at_len [OF a] z
      by (simp add: contents_nth ring_slot_def) (simp add: drop_from_def)
  qed
  show "rg_max (drop_from f r) = rg_max r" "rg_pending (drop_from f r) = rg_pending r"
    by (simp_all add: drop_from_def)
qed

definition sealed :: "nat \<Rightarrow> 'c ring \<Rightarrow> 'c ring" where
  "sealed n r = r\<lparr>rg_full := n = ring_size r\<rparr>"

lemma sealed_size [simp]: "ring_size (sealed n r) = ring_size r" "rg_max (sealed n r) = rg_max r"
    "rg_pending (sealed n r) = rg_pending r"
  by (simp_all add: sealed_def ring_size_def)

lemma replace_loop_spec:
  "ring_at (sealed n r) n \<Longrightarrow> replace_loop ss n r d = (n', d', r') \<Longrightarrow>
   ring_at (sealed n' r') n' \<and> contents (sealed n' r') = lastn (ring_size r) (contents (sealed n r) @ ss) \<and>
   d' = d + (n + length ss - ring_size r) \<and> ring_size r' = ring_size r \<and> rg_max r' = rg_max r \<and>
   rg_pending r' = rg_pending r"
proof (induction ss arbitrary: n r d)
  case Nil
  then show ?case using ring_at_len [of "sealed n r" n] by (auto simp: lastn_all ring_at_def)
next
  case (Cons s ss)
  let ?q = "sealed n r"
  have l: "length (contents ?q) = n" using ring_at_len [OF Cons.prems(1)] by simp
  have le: "n \<le> ring_size r" "0 < ring_size r" using Cons.prems(1) by (auto simp: ring_at_def)
  show ?case
  proof (cases "n = ring_size r")
    case False
    define q where "q = ?q\<lparr>rg_slots := (rg_slots ?q)[rg_tail ?q := s],
        rg_tail := (rg_tail ?q + 1) mod ring_size ?q, rg_full := Suc n = ring_size ?q\<rparr>"
    have lt: "n < ring_size ?q" using le False by simp
    note w = write_free [OF Cons.prems(1) lt q_def]
    define r2 where "r2 = r\<lparr>rg_slots := (rg_slots r)[rg_tail r := s], rg_tail := (rg_tail r + 1) mod ring_size r\<rparr>"
    have q: "q = sealed (n + 1) r2" by (simp add: q_def r2_def sealed_def ring_size_def)
    have "replace_loop ss (n + 1) r2 d = (n', d', r')"
      using Cons.prems(2) False by (simp add: r2_def Let_def)
    moreover have z: "ring_size r2 = ring_size r" "rg_max r2 = rg_max r" "rg_pending r2 = rg_pending r"
      by (simp_all add: r2_def ring_size_def)
    ultimately show ?thesis using Cons.IH [of "n + 1" r2 d] w unfolding q by simp
  next
    case True
    define q where "q = ?q\<lparr>rg_slots := (rg_slots ?q)[rg_tail ?q := s],
        rg_tail := (rg_tail ?q + 1) mod ring_size ?q, rg_head := (rg_head ?q + 1) mod ring_size ?q,
        rg_pending := rg_pending ?q, rg_trims := rg_trims ?q\<rparr>"
    have at: "ring_at ?q (ring_size ?q)" using Cons.prems(1) True by simp
    note w = write_full [OF at q_def]
    define r2 where "r2 = r\<lparr>rg_head := (rg_head r + 1) mod ring_size r,
        rg_slots := (rg_slots r)[rg_tail r := s], rg_tail := (rg_tail r + 1) mod ring_size r\<rparr>"
    have z: "ring_size r2 = ring_size r" "rg_max r2 = rg_max r" "rg_pending r2 = rg_pending r"
      by (simp_all add: r2_def ring_size_def)
    have q: "q = sealed n r2" using True z by (simp add: q_def r2_def sealed_def ring_size_def)
    have "replace_loop ss n r2 (d + 1) = (n', d', r')"
      using Cons.prems(2) True le by (simp add: r2_def Let_def ring_size_def)
    moreover have "0 < length (contents ?q)" using l le True by simp
    then have "contents ?q \<noteq> []" by (rule length_greater_0_conv [THEN iffD1])
    then obtain x xs where xs: "contents ?q = x # xs" by (auto simp: neq_Nil_conv)
    then have "ring_size r = Suc (length xs)" using l True by (metis length_Cons)
    then have "lastn (ring_size r) ((tl (contents ?q) @ [s]) @ ss) = lastn (ring_size r) (contents ?q @ s # ss)"
      by (simp add: xs lastn_def)
    ultimately show ?thesis using Cons.IH [of n r2 "d + 1"] w(1,2) z True unfolding q by simp
  qed
qed

lemma contents_cong:
  "rg_slots r' = rg_slots r \<Longrightarrow> rg_head r' = rg_head r \<Longrightarrow> rg_tail r' = rg_tail r \<Longrightarrow> rg_full r' = rg_full r \<Longrightarrow>
   rg_max r' = rg_max r \<Longrightarrow> contents r' = contents r \<and> ring_at r' n = ring_at r n"
  by (simp add: contents_def ring_range_def ring_len_def ring_size_def ring_slot_def [abs_def] ring_at_def)

lemma replace_tail_result:
  assumes "ring_inv r" "replace_tail from0 ss r = (dropped, r')"
    and "f = nat (min (max from0 0) (int (ring_len r)))" "rg_pending r \<le> f"
  shows "ring_inv r' \<and> contents r' = lastn (rg_max r) (take f (contents r) @ ss) \<and>
    dropped = f + length ss - rg_max r \<and> rg_max r' = rg_max r"
proof -
  have a: "ring_at r (ring_len r)" using assms(1) by (simp add: ring_inv_def)
  have f: "f \<le> ring_len r" by (simp add: assms(3))
  note d = drop_from_spec [OF a f]
  define p where "p = drop_from f r"
  define want where "want = min (rg_max p) (f + length ss)"
  define q where "q = (if want > ring_size p then ring_grow want p else p)"
  have d: "ring_at p f" "contents p = take f (contents r)" "rg_max p = rg_max r" "rg_pending p = rg_pending r"
    using drop_from_spec [OF a f] by (simp_all add: p_def)
  have q: "ring_at q f" "contents q = take f (contents r)" "rg_max q = rg_max r" "rg_pending q = rg_pending r"
      "want \<le> ring_size q"
    using grow_inv [OF d(1), of want] d by (auto simp: q_def want_def)
  have s: "sealed f q = q" using q(1) by (simp add: sealed_def ring_at_def)
  obtain n' d' r3 where loop: "replace_loop ss f q 0 = (n', d', r3)" by (rule prod_cases3)
  have "replace_tail from0 ss r = (d', (sealed n' r3)\<lparr>rg_pending := rg_pending r3 - d'\<rparr>)"
    unfolding replace_tail_def assms(3) [symmetric] p_def [symmetric] Let_def want_def [symmetric]
      q_def [symmetric] loop by (simp add: sealed_def)
  then have r': "dropped = d'" "r' = (sealed n' r3)\<lparr>rg_pending := rg_pending r3 - d'\<rparr>"
    using assms(2) by auto
  have z: "ring_size q \<le> rg_max r" using q(1,3) by (simp add: ring_at_def)
  have l: "ring_at (sealed n' r3) n'" "contents (sealed n' r3) = lastn (ring_size q) (take f (contents r) @ ss)"
      "d' = f + length ss - ring_size q" "rg_max r3 = rg_max r" "rg_pending r3 = rg_pending r"
    using replace_loop_spec [of f q ss 0 n' d' r3] loop q s by auto
  have fl: "length (take f (contents r)) = f" using f by simp
  have same: "lastn (ring_size q) (take f (contents r) @ ss) = lastn (rg_max r) (take f (contents r) @ ss)
      \<and> f + length ss - ring_size q = f + length ss - rg_max r"
  proof (cases "ring_size q = rg_max r")
    case False
    then have "f + length ss \<le> ring_size q" using q(5) z d(3) by (simp add: want_def min_def split: if_splits)
    then show ?thesis using z fl by (simp add: lastn_all)
  qed simp
  have len: "n' = min (rg_max r) (f + length ss)"
    using ring_at_len [OF l(1)] l(2) same fl length_contents [of "sealed n' r3"] by simp
  have "contents r' = contents (sealed n' r3) \<and> ring_at r' n' = ring_at (sealed n' r3) n'"
    by (rule contents_cong) (simp_all add: r')
  moreover have "rg_pending r' \<le> n'"
    using assms(4) l(3,5) len same by (simp add: r') arith
  ultimately show ?thesis using l same r' by (auto intro!: ring_invI)
qed

text \<open>
  C24. \<^verbatim>\<open>replaceTail\<close> keeps the lines before \<open>from\<close>, puts the given lines after them and, when that
  is more than the limit, drops the oldest: the result is the newest part of the concatenation, and
  the number it returns is how many lines were dropped.
\<close>

theorem replace_tail_spec:
  assumes "ring_inv r" "replace_tail from0 ss r = (dropped, r')"
    and "f = nat (min (max from0 0) (int (ring_len r)))" "rg_pending r \<le> f"
  shows "ring_inv r' \<and> contents r' = lastn (rg_max r) (take f (contents r) @ ss) \<and>
    dropped = f + length ss - rg_max r \<and> rg_max r' = rg_max r"
  by (rule replace_tail_result [OF assms])

theorem replace_tail_spec_witness:
  "contents (snd (replace_tail 1 [(''x'', 0), (''y'', 0)] (new_scrollback 1))) = [(''y'', 0)]"
proof -
  have m: "rg_max (new_scrollback 1 :: char ring) = 1" "rg_pending (new_scrollback 1 :: char ring) = 0"
    by (simp_all add: new_scrollback_def Let_def)
  from replace_tail_spec [OF new_scrollback_inv(1) prod.collapse [symmetric] refl, of 1 1 "[(''x'', 0), (''y'', 0)]"]
  show ?thesis by (simp add: m new_scrollback_inv(2) lastn_def)
qed

end
