(* ===== verification/ReflowText.thy ===== *)
theory ReflowText
  imports Reflow ScrollbackInv
begin

text \<open>
  A reflow keeps the text: the logical lines of the rows it builds are the logical lines of the
  rows it was given, cell by cell, whatever the width. A logical line is read as the code reads it,
  soft-wrapped rows without their spacer columns joined up to a hard break, without trailing blanks.
\<close>

subsection \<open>Trimming\<close>

definition trim_row :: "row \<Rightarrow> row" where
  "trim_row r = take (trimmed_len r) r"

lemma trimmed_from_rev: "n \<le> length r \<Longrightarrow> trimmed_from n r = length (dropWhile is_blank_cell (rev (take n r)))"
  by (induction n) (auto simp: take_Suc_conv_app_nth)

lemma trimmed_len_le: "trimmed_len r \<le> length r"
  by (metis length_dropWhile_le length_rev length_take min.idem order_refl take_all trimmed_from_rev trimmed_len_def)

lemma trim_row_rev: "trim_row r = rev (dropWhile is_blank_cell (rev r))"
proof -
  have "rev r = takeWhile is_blank_cell (rev r) @ dropWhile is_blank_cell (rev r)" by simp
  then have "r = rev (dropWhile is_blank_cell (rev r)) @ rev (takeWhile is_blank_cell (rev r))"
    by (metis rev_append rev_rev_ident)
  moreover have "trimmed_len r = length (rev (dropWhile is_blank_cell (rev r)))"
    by (simp add: trimmed_len_def trimmed_from_rev)
  ultimately show ?thesis unfolding trim_row_def by (metis append_eq_conv_conj)
qed

lemma blank_tail: "x \<in> set (drop (trimmed_len r) r) \<Longrightarrow> is_blank_cell x"
proof -
  have "trimmed_len r = length (trim_row r)" by (simp add: trim_row_def trimmed_len_le)
  moreover have "r = trim_row r @ rev (takeWhile is_blank_cell (rev r))"
    unfolding trim_row_rev by (metis rev_append rev_rev_ident takeWhile_dropWhile_id)
  ultimately have "drop (trimmed_len r) r = rev (takeWhile is_blank_cell (rev r))" by (metis append_eq_conv_conj)
  then show "x \<in> set (drop (trimmed_len r) r) \<Longrightarrow> is_blank_cell x" by (auto dest: set_takeWhileD)
qed

lemma dropWhile_blanks: "\<forall>x\<in>set xs. P x \<Longrightarrow> dropWhile P (xs @ ys) = dropWhile P ys"
  by (simp add: dropWhile_append)

lemma trim_blanks: "\<forall>x\<in>set bs. is_blank_cell x \<Longrightarrow> trim_row (r @ bs) = trim_row r"
  by (simp add: trim_row_rev dropWhile_blanks)

lemma trim_trim: "trim_row (xs @ trim_row r) = trim_row (xs @ r)"
proof -
  have "trim_row (xs @ r) = trim_row ((xs @ trim_row r) @ drop (trimmed_len r) r)"
    by (simp add: trim_row_def)
  also have "\<dots> = trim_row (xs @ trim_row r)" by (rule trim_blanks) (use blank_tail in blast)
  finally show ?thesis by simp
qed

lemma empty_blank [simp]: "is_blank_cell empty_cell"
  by (simp add: is_blank_cell_def empty_cell_def plain_style_def)

lemma trim_pad: "trim_row (pad_row w r) = trim_row r"
  by (simp add: pad_row_def trim_blanks)

lemma trim_take: "trimmed_len r \<le> w \<Longrightarrow> trim_row (take w r) = trim_row r"
proof -
  assume "trimmed_len r \<le> w"
  then have "set (drop w r) \<subseteq> set (drop (trimmed_len r) r)" by (rule set_drop_subset_set_drop)
  then have "\<forall>x\<in>set (drop w r). is_blank_cell x" using blank_tail by blast
  then show ?thesis using trim_blanks [of "drop w r" "take w r"] by simp
qed

lemma trim_fit: "trimmed_len r \<le> w \<Longrightarrow> trim_row (fit_width r w) = trim_row r"
  by (simp add: fit_width_def trim_blanks trim_take)

subsection \<open>Reading rows as text\<close>

definition src_text :: "src_row \<Rightarrow> row" where
  "src_text s = take (snd s) (fst (fst s))"

definition logical_text :: "src_row list \<Rightarrow> row" where
  "logical_text l = trim_row (concat (map src_text l))"

definition with_content :: "rows \<Rightarrow> src_row list" where
  "with_content rs = map (\<lambda>s. (s, content_len s)) rs"

definition document :: "rows \<Rightarrow> row list" where
  "document rs = map logical_text (group_rows (with_content rs))"

text \<open>A run of rows that is one logical line ended by a hard break.\<close>

definition hard_line :: "src_row list \<Rightarrow> bool" where
  "hard_line l \<longleftrightarrow> l \<noteq> [] \<and> \<not> wrapped (line_wrap_of l) \<and> (\<forall>s\<in>set (butlast l). wrapped (snd (fst s)))"

lemma group_hard_line: "hard_line l \<Longrightarrow> group_rows (l @ ss) = l # group_rows ss"
proof (induction l)
  case (Cons s l)
  show ?case
  proof (cases l)
    case Nil
    with Cons.prems show ?thesis by (cases ss) (simp_all add: hard_line_def line_wrap_of_def)
  next
    case (Cons t l')
    then have "hard_line l" "wrapped (snd (fst s))"
      using Cons.prems by (auto simp: hard_line_def line_wrap_of_def)
    with Cons.IH Cons show ?thesis by simp
  qed
qed (simp add: hard_line_def)

lemma group_rows_hard:
  "ss \<noteq> [] \<Longrightarrow> \<not> wrapped (snd (fst (last ss))) \<Longrightarrow>
   concat (group_rows ss) = ss \<and> (\<forall>l\<in>set (group_rows ss). hard_line l)"
proof (induction ss rule: group_rows.induct)
  case (3 s t ss)
  have IH: "concat (group_rows (t # ss)) = t # ss" "\<forall>l\<in>set (group_rows (t # ss)). hard_line l"
    using 3 by (cases "wrapped (snd (fst s))"; simp)+
  show ?case
  proof (cases "wrapped (snd (fst s))")
    case True
    obtain l ls where g: "group_rows (t # ss) = l # ls" using IH(1) by (cases "group_rows (t # ss)") auto
    then have "hard_line l" using IH(2) by simp
    then have "hard_line (s # l)" using True by (simp add: hard_line_def line_wrap_of_def)
    with IH g True show ?thesis by simp
  next
    case False
    then have "hard_line [s]" by (simp add: hard_line_def line_wrap_of_def)
    with IH False show ?thesis by simp
  qed
qed (auto simp: hard_line_def line_wrap_of_def)

subsection \<open>Clusters\<close>

text \<open>
  Content without broken clusters: the cell that starts a cluster is as wide as the cluster, and
  no cluster is wider than the new width (nor than a spacer count can hold).
\<close>

definition sound_groups :: "nat \<Rightarrow> src_row \<Rightarrow> bool" where
  "sound_groups w s \<longleftrightarrow> snd s \<le> length (fst (fst s)) \<and>
     (\<forall>(x, gw) \<in> set (row_groups (fst (fst s)) (snd s) 0).
        c_width (fst (fst s) ! x) = int gw \<and> gw \<le> w \<and> gw \<le> 255)"

lemma row_groups_cover:
  "n \<le> length r \<Longrightarrow> x \<le> n \<Longrightarrow> concat (map (\<lambda>(x, gw). take gw (drop x r)) (row_groups r n x)) = take (n - x) (drop x r)"
proof (induction r n x rule: row_groups.induct)
  case (1 r n x)
  show ?case
  proof (cases "x < n")
    case True
    let ?g = "group_width r x n"
    have g: "x + ?g \<le> n" using True by (auto simp: group_width_def Let_def)
    have "take (n - x) (drop x r) = take ?g (drop x r) @ take (n - (x + ?g)) (drop (x + ?g) r)"
    proof -
      have "n - x = ?g + (n - (x + ?g))" using g by simp
      then show ?thesis by (metis drop_drop take_add add.commute)
    qed
    with 1 True g show ?thesis by (simp add: row_groups.simps [of r n x])
  next
    case False
    then have "row_groups r n x = []" by (subst row_groups.simps) simp
    with False "1.prems" show ?thesis by simp
  qed
qed

lemma row_groups_range: "(y, gw) \<in> set (row_groups r n x) \<Longrightarrow> y + gw \<le> n \<and> 0 < gw \<and> x \<le> y"
proof (induction r n x rule: row_groups.induct)
  case (1 r n x)
  have "x < n" using "1.prems" by (subst (asm) row_groups.simps) (auto split: if_splits)
  moreover have "x + group_width r x n \<le> n" using calculation by (auto simp: group_width_def Let_def)
  moreover have "y = x \<and> gw = group_width r x n \<or> (y, gw) \<in> set (row_groups r n (x + group_width r x n))"
    using "1.prems" calculation(1) by (subst (asm) row_groups.simps) auto
  ultimately show ?case using "1.IH" group_width_pos [of r x n] by (auto simp del: group_width_pos)
qed

definition good_spot :: "nat \<Rightarrow> src_row list \<Rightarrow> nat \<times> nat \<times> nat \<Rightarrow> bool" where
  "good_spot w l g \<longleftrightarrow> (case g of (i, x, gw) \<Rightarrow>
     i < length l \<and> x + gw \<le> length (fst (fst (l ! i))) \<and> 0 < gw \<and> gw \<le> w \<and> gw \<le> 255 \<and>
     c_width (fst (fst (l ! i)) ! x) = int gw)"

definition group_cells :: "src_row list \<Rightarrow> nat \<times> nat \<times> nat \<Rightarrow> row" where
  "group_cells l g = (case g of (i, x, gw) \<Rightarrow> take gw (drop x (fst (fst (l ! i)))))"

lemma line_groups_good:
  assumes "\<forall>s\<in>set l. sound_groups w s"
  shows "\<forall>g\<in>set (line_groups l). good_spot w l g"
proof
  fix g
  assume "g \<in> set (line_groups l)"
  then obtain i x gw where g: "g = (i, x, gw)" "i < length l"
      "(x, gw) \<in> set (row_groups (fst (fst (l ! i))) (snd (l ! i)) 0)"
    by (auto simp: line_groups_def)
  have "sound_groups w (l ! i)" using assms g(2) by simp
  with g row_groups_range [OF g(3)] show "good_spot w l g"
    by (fastforce simp: good_spot_def sound_groups_def)
qed

lemma concat_map_concat: "concat (map f (concat xss)) = concat (map (\<lambda>xs. concat (map f xs)) xss)"
  by (induction xss) auto

lemma line_groups_text:
  assumes "\<forall>s\<in>set l. snd s \<le> length (fst (fst s))"
  shows "concat (map (group_cells l) (line_groups l)) = concat (map src_text l)"
proof -
  have "concat (map (group_cells l) (line_groups l)) = concat (map (\<lambda>i. src_text (l ! i)) [0..<length l])"
  proof -
    have *: "concat (map (group_cells l) (map (\<lambda>(x, gw). (i, x, gw)) (row_groups (fst (fst (l ! i))) (snd (l ! i)) 0)))
        = src_text (l ! i)" if "i < length l" for i
    proof -
      have "concat (map (group_cells l) (map (\<lambda>(x, gw). (i, x, gw)) (row_groups (fst (fst (l ! i))) (snd (l ! i)) 0)))
          = concat (map (\<lambda>(x, gw). take gw (drop x (fst (fst (l ! i))))) (row_groups (fst (fst (l ! i))) (snd (l ! i)) 0))"
        by (rule arg_cong [where f = concat]) (auto simp: group_cells_def)
      also have "\<dots> = src_text (l ! i)"
        using row_groups_cover [of "snd (l ! i)" "fst (fst (l ! i))" 0] assms that by (simp add: src_text_def)
      finally show ?thesis .
    qed
    have "concat (map (group_cells l) (line_groups l)) =
        concat (map (\<lambda>i. concat (map (group_cells l) (map (\<lambda>(x, gw). (i, x, gw))
          (row_groups (fst (fst (l ! i))) (snd (l ! i)) 0)))) [0..<length l])"
      by (simp add: line_groups_def concat_map_concat comp_def)
    also have "\<dots> = concat (map (\<lambda>i. src_text (l ! i)) [0..<length l])"
      by (rule arg_cong [where f = concat], rule map_cong) (use * in auto)
    finally show ?thesis .
  qed
  also have "map (\<lambda>i. src_text (l ! i)) [0..<length l] = map src_text l"
    by (rule nth_equalityI) simp_all
  finally show ?thesis .
qed

subsection \<open>Placing and emitting\<close>

definition rows_text :: "rows \<Rightarrow> row" where
  "rows_text rs = concat (map src_text (with_content rs))"

lemma rows_text_append [simp]: "rows_text (xs @ ys) = rows_text xs @ rows_text ys"
  by (simp add: rows_text_def with_content_def)

text \<open>A row that broke where the next cluster did not fit: its spacer is what it did not fill.\<close>

lemma broken_row:
  assumes "length c \<le> w" "w - length c \<le> 254"
  shows "rows_text [(pad_row w c, soft_wrap (int w - int (length c)))] = c"
proof -
  have "spacer_of (soft_wrap (int w - int (length c))) = int (w - length c)"
    using assms by (simp add: spacer_soft_wrap)
  then show ?thesis
    using assms(1) by (simp add: rows_text_def with_content_def src_text_def content_len_def pad_row_def)
qed

text \<open>The cells of the groups that were placed.\<close>

definition placed :: "nat \<Rightarrow> src_row list \<Rightarrow> emitting \<Rightarrow> nat \<Rightarrow> nat \<Rightarrow> row \<Rightarrow> bool" where
  "placed w l st row col tx \<longleftrightarrow>
     (\<exists>c. em_cur st = Some c \<and> length c = col \<and> col \<le> w \<and> em_row st = int row \<and> em_end st = col \<and>
       rows_text (em_out st) @ c = tx \<and> length (em_out st) = row \<and>
       (\<forall>s\<in>set (em_out st). wrapped (snd s) \<and> length (fst s) = w))"

lemma spot_cells_good:
  assumes "good_spot w l (i, x, gw)"
  shows "spot_cells l \<lparr>k_row = i, k_x = x, k_gw = gw, k_orow = orow, k_ocol = ocol, k_pw = gw\<rparr> = group_cells l (i, x, gw)"
    "length (group_cells l (i, x, gw)) = gw"
  using assms by (auto simp: spot_cells_def good_spot_def group_cells_def Let_def)

lemma emit_same_row:
  assumes "placed w l st row col tx" "good_spot w l (i, x, gw)" "col + gw \<le> w"
  shows "placed w l (emit_spot w l rng \<lparr>k_row = i, k_x = x, k_gw = gw, k_orow = row, k_ocol = col, k_pw = gw\<rparr> st)
    row (col + gw) (tx @ group_cells l (i, x, gw))"
proof -
  obtain c where c: "em_cur st = Some c" "length c = col" "em_row st = int row" "rows_text (em_out st) @ c = tx"
      "length (em_out st) = row" "\<forall>s\<in>set (em_out st). wrapped (snd s) \<and> length (fst s) = w"
    using assms(1) by (auto simp: placed_def)
  with spot_cells_good [OF assms(2)] assms(3) show ?thesis
    unfolding placed_def by (intro exI [of _ "c @ group_cells l (i, x, gw)"]) (auto simp: emit_spot_def)
qed

lemma emit_next_row:
  assumes "placed w l st row col tx" "good_spot w l (i, x, gw)" "col + gw > w" "rng (row + 1)"
  shows "placed w l (emit_spot w l rng \<lparr>k_row = i, k_x = x, k_gw = gw, k_orow = row + 1, k_ocol = 0, k_pw = gw\<rparr> st)
    (row + 1) gw (tx @ group_cells l (i, x, gw))"
proof -
  obtain c where c: "em_cur st = Some c" "length c = col" "em_row st = int row" "rows_text (em_out st) @ c = tx"
      "length (em_out st) = row" "\<forall>s\<in>set (em_out st). wrapped (snd s) \<and> length (fst s) = w" "em_end st = col" "col \<le> w"
    using assms(1) by (auto simp: placed_def)
  have g: "gw \<le> w" "gw \<le> 255" using assms(2) by (auto simp: good_spot_def)
  have "rows_text [(pad_row w c, soft_wrap (int w - int col))] = c"
    using broken_row [of c w] c(2,8) g assms(3) by simp
  with c spot_cells_good [OF assms(2)] g assms(4) show ?thesis
    unfolding placed_def
    by (intro exI [of _ "group_cells l (i, x, gw)"]) (auto simp: emit_spot_def flush_row_def pad_row_def)
qed

lemma emit_first:
  assumes "good_spot w l (i, x, gw)" "rng 0"
  shows "placed w l (emit_spot w l rng \<lparr>k_row = i, k_x = x, k_gw = gw, k_orow = 0, k_ocol = 0, k_pw = gw\<rparr>
      \<lparr>em_out = [], em_cur = None, em_row = - 1, em_end = 0\<rparr>) 0 gw (group_cells l (i, x, gw))"
  using spot_cells_good [OF assms(1)] assms
  unfolding placed_def
  by (intro exI [of _ "group_cells l (i, x, gw)"])
    (auto simp: emit_spot_def flush_row_def good_spot_def rows_text_def with_content_def)

lemma place_rows:
  "place w row col gs = (ks, row', col') \<Longrightarrow> row \<le> row' \<and> (\<forall>k\<in>set ks. row \<le> k_orow k \<and> k_orow k \<le> row')"
proof (induction gs arbitrary: row col ks)
  case (Cons g gs)
  obtain i x gw where g: "g = (i, x, gw)" by (rule prod_cases3)
  define pw where "pw = (if gw > w then 1 else gw)"
  define r1 where "r1 = (if col + pw > w then row + 1 else row)"
  define c1 where "c1 = (if col + pw > w then 0 else col)"
  obtain ks1 where ks1: "place w r1 (c1 + pw) gs = (ks1, row', col')"
      "ks = \<lparr>k_row = i, k_x = x, k_gw = gw, k_orow = r1, k_ocol = c1, k_pw = pw\<rparr> # ks1"
    using Cons.prems by (auto simp: g r1_def c1_def pw_def Let_def split: prod.splits if_splits)
  have "row \<le> r1" by (simp add: r1_def)
  with Cons.IH [OF ks1(1)] show ?case by (auto simp: ks1(2))
qed simp

lemma emit_groups:
  assumes "placed w l st row col tx" "\<forall>g\<in>set gs. good_spot w l g" "\<forall>j\<le>row'. rng j"
    and "place w row col gs = (ks, row', col')"
  shows "placed w l (fold (emit_spot w l rng) ks st) row' col' (tx @ concat (map (group_cells l) gs))"
  using assms
proof (induction gs arbitrary: st row col tx ks)
  case (Cons g gs)
  obtain i x gw where g: "g = (i, x, gw)" by (rule prod_cases3)
  have good: "good_spot w l (i, x, gw)" "gw \<le> w" using Cons.prems(2) g by (auto simp: good_spot_def)
  define r1 where "r1 = (if col + gw > w then row + 1 else row)"
  define c1 where "c1 = (if col + gw > w then 0 else col)"
  obtain ks1 where ks1: "place w r1 (c1 + gw) gs = (ks1, row', col')"
      "ks = \<lparr>k_row = i, k_x = x, k_gw = gw, k_orow = r1, k_ocol = c1, k_pw = gw\<rparr> # ks1"
    using Cons.prems(4) good(2) by (auto simp: g r1_def c1_def Let_def split: prod.splits if_splits)
  have r1: "rng r1" using Cons.prems(3) place_rows [OF ks1(1)] by blast
  then have "placed w l (emit_spot w l rng \<lparr>k_row = i, k_x = x, k_gw = gw, k_orow = r1, k_ocol = c1, k_pw = gw\<rparr> st)
      r1 (c1 + gw) (tx @ group_cells l g)"
    using emit_same_row [OF Cons.prems(1) good(1), of rng] emit_next_row [OF Cons.prems(1) good(1), of rng]
    by (simp add: g r1_def c1_def split: if_splits)
  from Cons.IH [OF this _ Cons.prems(3) ks1(1)] Cons.prems(2) show ?case by (simp add: ks1(2))
qed simp

text \<open>All rows of a logical line, built at once.\<close>

lemma emit_whole:
  assumes "hard_line l" "\<forall>s\<in>set l. sound_groups w s" "trimmed_len (fst (fst (last l))) \<le> snd (last l)"
    and "\<not> fits_line w l" "ln_rows g = l" "ln_count g = count_rows w l" "from0 \<le> ln_start g"
      "ln_start g + ln_count g \<le> to0" "0 < w"
    and "out = emit_line w from0 to0 g"
  shows "hard_line (with_content out) \<and> logical_text (with_content out) = logical_text l \<and>
    length out = count_rows w l \<and> (\<forall>s\<in>set out. length (fst s) = w)"
proof -
  let ?rng = "\<lambda>rel. from0 \<le> ln_start g + rel \<and> ln_start g + rel < to0"
  obtain ks row col where ks: "walk w l = (ks, row, col)" by (rule prod_cases3)
  have count: "ln_count g = row + 1" using assms(4,6) ks by (simp add: count_rows_def)
  have good: "\<forall>g\<in>set (line_groups l). good_spot w l g" by (rule line_groups_good [OF assms(2)])
  have tx: "concat (map (group_cells l) (line_groups l)) = concat (map src_text l)"
    by (rule line_groups_text) (use assms(2) in \<open>auto simp: sound_groups_def\<close>)
  have rng: "?rng j" if "j \<le> row" for j using that assms(7,8) count by simp
  define st0 where "st0 = fold (emit_spot w l ?rng) ks \<lparr>em_out = [], em_cur = None, em_row = - 1, em_end = 0\<rparr>"
  define st where "st = (if em_row st0 < 0
    then st0\<lparr>em_row := 0, em_cur := (if ?rng 0 then Some [] else None)\<rparr> else st0)"
  have pl: "place w 0 0 (line_groups l) = (ks, row, col)" using ks by (simp add: walk_def)
  have st: "placed w l st row col (concat (map src_text l))"
  proof (cases "line_groups l")
    case Nil
    with pl tx rng [of 0] show ?thesis
      by (auto simp: placed_def st_def st0_def rows_text_def with_content_def)
  next
    case (Cons h gs)
    obtain i x gw where h: "h = (i, x, gw)" by (rule prod_cases3)
    have gd: "good_spot w l (i, x, gw)" "gw \<le> w" using good Cons h by (auto simp: good_spot_def)
    obtain ks1 where ks1: "place w 0 gw gs = (ks1, row, col)"
        "ks = \<lparr>k_row = i, k_x = x, k_gw = gw, k_orow = 0, k_ocol = 0, k_pw = gw\<rparr> # ks1"
      using pl Cons h gd(2) by (auto simp: Let_def split: prod.splits)
    have r0: "?rng 0" by (rule rng) simp
    have "placed w l st0 row col (group_cells l h @ concat (map (group_cells l) gs))"
      unfolding st0_def ks1(2) fold.simps comp_def
      by (rule emit_groups [OF emit_first [OF gd(1), of ?rng, OF r0] _ _ ks1(1), unfolded h [symmetric]])
        (use rng good Cons in auto)
    moreover have "em_row st0 \<ge> 0" using calculation by (auto simp: placed_def)
    ultimately show ?thesis using tx Cons by (simp add: st_def)
  qed
  then obtain c where c: "em_cur st = Some c" "length c = col" "col \<le> w" "em_row st = int row" "em_end st = col"
      "rows_text (em_out st) @ c = concat (map src_text l)" "length (em_out st) = row"
      "\<forall>s\<in>set (em_out st). wrapped (snd s) \<and> length (fst s) = w" by (auto simp: placed_def)
  have all: "takeWhile (\<lambda>k. ln_start g + k_orow k < to0) ks = ks"
    using place_rows [OF pl] assms(8) count by (auto simp: takeWhile_eq_all_conv)
  have nw: "\<not> wrapped (line_wrap_of l)" using assms(1) by (simp add: hard_line_def)
  define lst where "lst = pad_row w (c @ take (w - col) (drop (snd (last l)) (fst (fst (last l)))))"
  have out: "out = em_out st @ [(lst, hard_break)]"
    unfolding assms(10) emit_line_def assms(5) ks fst_conv all st0_def [symmetric] st_def [symmetric] Let_def
    using c nw count by (simp add: flush_row_def lst_def)
  have "set (drop (snd (last l)) (fst (fst (last l)))) \<subseteq> set (drop (trimmed_len (fst (fst (last l)))) (fst (fst (last l))))"
    using assms(3) by (rule set_drop_subset_set_drop)
  then have blank: "\<forall>x\<in>set (take k (drop (snd (last l)) (fst (fst (last l))))). is_blank_cell x" for k
    using blank_tail [of _ "fst (fst (last l))"] by (auto dest: in_set_takeD)
  have hl: "hard_line (with_content out)"
    using c(8) by (auto simp: out hard_line_def with_content_def line_wrap_of_def wrapped_def butlast_append)
  have "logical_text (with_content out) = trim_row (rows_text (em_out st) @ rows_text [(lst, hard_break)])"
    by (simp add: out logical_text_def rows_text_def with_content_def)
  also have "rows_text [(lst, hard_break)] = trim_row lst"
    by (simp add: rows_text_def with_content_def src_text_def content_len_def wrapped_def trim_row_def)
  also have "trim_row lst = trim_row c"
    unfolding lst_def trim_pad by (rule trim_blanks [OF blank])
  also have "trim_row (rows_text (em_out st) @ trim_row c) = logical_text l"
    unfolding trim_trim c(6) by (simp add: logical_text_def)
  finally have lt: "logical_text (with_content out) = logical_text l" .
  have "length lst = w" using c(2,3) by (simp add: lst_def pad_row_def)
  with hl lt c(7,8) count assms(6) show ?thesis by (auto simp: out)
qed

subsection \<open>A whole reflow\<close>

lemma count_rows_pos: "0 < count_rows w l"
  by (simp add: count_rows_def)

lemma lay_lines_spec:
  "lay_lines w f t ls = (gs, t') \<Longrightarrow> map ln_rows gs = ls \<and> t \<le> t' \<and> t' = t + sum_list (map (count_rows w) ls) \<and>
     (\<forall>g\<in>set gs. ln_count g = count_rows w (ln_rows g) \<and> t \<le> ln_start g \<and> ln_start g + ln_count g \<le> t')"
proof (induction ls arbitrary: f t gs)
  case (Cons l ls)
  obtain gs1 where gs1: "lay_lines w (f + length l) (t + count_rows w l) ls = (gs1, t')"
      "gs = \<lparr>ln_first = f, ln_rows = l, ln_start = t, ln_count = count_rows w l\<rparr> # gs1"
    using Cons.prems by (auto simp: Let_def split: prod.splits)
  show ?case using Cons.IH [OF gs1(1)] by (auto simp: gs1(2) dest: bspec)
qed simp

lemma group_concat_hard: "\<forall>l\<in>set ls. hard_line l \<Longrightarrow> group_rows (concat ls) = ls"
  by (induction ls) (simp_all add: group_hard_line)

lemma with_content_concat: "with_content (concat xss) = concat (map with_content xss)"
  by (induction xss) (simp_all add: with_content_def)

definition line_out :: "nat \<Rightarrow> nat \<Rightarrow> nat \<Rightarrow> nat \<Rightarrow> reflow_line \<Rightarrow> rows" where
  "line_out w from to exact_from g =
     (if fits_line w (ln_rows g)
      then [((if ln_start g \<ge> exact_from then fit_width (fst (fst (hd (ln_rows g)))) w
              else fst (fst (hd (ln_rows g)))), hard_break)]
      else emit_line w from to g)"

lemma fitting_line_out:
  assumes "fits_line w (ln_rows g)" "trimmed_len (fst (fst (last (ln_rows g)))) \<le> snd (last (ln_rows g))"
  shows "hard_line (with_content (line_out w from to ef g)) \<and>
    logical_text (with_content (line_out w from to ef g)) = logical_text (ln_rows g) \<and>
    length (line_out w from to ef g) = count_rows w (ln_rows g) \<and>
    (ef \<le> ln_start g \<longrightarrow> (\<forall>s\<in>set (line_out w from to ef g). length (fst s) = w))"
proof -
  obtain s where s: "ln_rows g = [s]" using assms(1) by (cases "ln_rows g") (auto simp: fits_line_def)
  have n: "trimmed_len (fst (fst s)) \<le> snd s" "snd s \<le> w" using assms s by (auto simp: fits_line_def)
  have one: "logical_text (with_content [(r, hard_break)]) = trim_row r" for r
    using trim_trim [of "[]" r] by (simp add: logical_text_def with_content_def src_text_def content_len_def trim_row_def
        wrapped_def)
  have "logical_text (ln_rows g) = trim_row (fst (fst s))"
    using trim_take [OF n(1)] s by (simp add: logical_text_def src_text_def)
  moreover have "trim_row (fit_width (fst (fst s)) w) = trim_row (fst (fst s))"
    using n by (simp add: trim_fit)
  moreover have "hard_line (with_content [(r, hard_break)])" for r
    by (simp add: hard_line_def with_content_def line_wrap_of_def wrapped_def)
  ultimately show ?thesis
    using assms(1) s one by (auto simp: line_out_def count_rows_def fit_width_def)
qed

text \<open>
  Rows with the cells that count as their content: at least the text of a row that ends a line, and
  whole clusters that fit the new width.
\<close>

definition sound_src :: "nat \<Rightarrow> src_row list \<Rightarrow> bool" where
  "sound_src w src \<longleftrightarrow> 0 < w \<and> src \<noteq> [] \<and> \<not> wrapped (snd (fst (last src))) \<and>
     (\<forall>s\<in>set src. sound_groups w s \<and> (\<not> wrapped (snd (fst s)) \<longrightarrow> trimmed_len (fst (fst s)) \<le> snd s))"

definition sound_rows :: "nat \<Rightarrow> rows \<Rightarrow> bool" where
  "sound_rows w rs \<longleftrightarrow> 0 < w \<and> rs \<noteq> [] \<and> \<not> wrapped (snd (last rs)) \<and> (\<forall>s\<in>set (with_content rs). sound_groups w s)"

lemma sound_rows_src: "sound_rows w rs \<Longrightarrow> sound_src w (with_content rs)"
  by (auto simp: sound_rows_def sound_src_def with_content_def last_map content_len_def)

lemma line_out_spec:
  assumes "hard_line (ln_rows g)" "set (ln_rows g) \<subseteq> set src" "sound_src w src"
    and "ln_count g = count_rows w (ln_rows g)" "from \<le> ln_start g" "ln_start g + ln_count g \<le> to"
  shows "hard_line (with_content (line_out w from to ef g)) \<and>
    logical_text (with_content (line_out w from to ef g)) = logical_text (ln_rows g) \<and>
    length (line_out w from to ef g) = count_rows w (ln_rows g) \<and>
    (ef \<le> ln_start g \<longrightarrow> (\<forall>s\<in>set (line_out w from to ef g). length (fst s) = w))"
proof -
  have "last (ln_rows g) \<in> set src" "\<not> wrapped (snd (fst (last (ln_rows g))))"
    using assms(1,2) by (auto simp: hard_line_def line_wrap_of_def)
  then have n: "trimmed_len (fst (fst (last (ln_rows g)))) \<le> snd (last (ln_rows g))" using assms(3) by (simp add: sound_src_def)
  show ?thesis
  proof (cases "fits_line w (ln_rows g)")
    case True
    then show ?thesis using fitting_line_out n by blast
  next
    case False
    have "\<forall>s\<in>set (ln_rows g). sound_groups w s" "0 < w" using assms(2,3) by (auto simp: sound_src_def)
    from emit_whole [OF assms(1) this(1) n False refl assms(4-6) this(2) refl] False
    show ?thesis by (simp add: line_out_def)
  qed
qed

lemma build_all:
  assumes "\<forall>g\<in>set (rf_lines r). 0 < ln_count g \<and> from \<le> ln_start g \<and> ln_start g + ln_count g \<le> to"
  shows "build from to ef r = concat (map (line_out (rf_width r) from to ef) (rf_lines r))"
proof (cases "to \<le> from")
  case True
  have "rf_lines r = []"
  proof (cases "rf_lines r")
    case (Cons g gs)
    with assms have "0 < ln_count g \<and> from \<le> ln_start g \<and> ln_start g + ln_count g \<le> to" by simp
    with True show ?thesis by linarith
  qed
  with True show ?thesis by (simp add: build_def)
next
  case False
  have dw: "dropWhile (\<lambda>l. \<not> ln_start l + ln_count l > from) (rf_lines r) = rf_lines r"
  proof (cases "rf_lines r")
    case (Cons g gs)
    with assms have "0 < ln_count g \<and> from \<le> ln_start g \<and> ln_start g + ln_count g \<le> to" by simp
    then have "ln_start g + ln_count g > from" by linarith
    with Cons show ?thesis by simp
  qed simp
  have tw: "takeWhile (\<lambda>l. ln_start l < to) (rf_lines r) = rf_lines r"
    using assms by (fastforce simp: takeWhile_eq_all_conv)
  show ?thesis using False unfolding build_def Let_def dw tw line_out_def [abs_def] by simp
qed

lemma group_rows_subset: "l \<in> set (group_rows ss) \<Longrightarrow> concat (group_rows ss) = ss \<Longrightarrow> set l \<subseteq> set ss"
  by (metis UN_upper set_concat)

lemma new_reflower_plain:
  "new_reflower rs (int w) (- 1) 0 =
    (let (ls, t) = lay_lines (max w 1) 0 0 (group_rows (with_content rs))
     in \<lparr>rf_width = max w 1, rf_lines = ls, rf_total = t\<rparr>)"
proof -
  have "zip rs (content_lens rs (- 1) 0) = with_content rs"
    by (simp add: content_lens_def with_content_def zip_map2 zip_same_conv_map)
  moreover have "nat (max (int w) 1) = max w 1" by linarith
  ultimately show ?thesis by (simp add: new_reflower_def Let_def)
qed

text \<open>The lines of the output are the logical lines of the source.\<close>

lemma lay_whole:
  assumes "sound_src w src" "lay_lines w 0 0 (group_rows src) = (gs, t)" "out = concat (map (line_out w 0 t ef) gs)"
  shows "group_rows (with_content out) = map (\<lambda>g. with_content (line_out w 0 t ef g)) gs \<and>
    document out = map logical_text (group_rows src) \<and> length out = t \<and>
    (ef = 0 \<longrightarrow> (\<forall>s\<in>set out. length (fst s) = w)) \<and> (out \<noteq> [] \<longrightarrow> \<not> wrapped (snd (last out)))"
proof -
  have ls: "map ln_rows gs = group_rows src" "t = sum_list (map (count_rows w) (group_rows src))"
      "\<forall>g\<in>set gs. ln_count g = count_rows w (ln_rows g) \<and> ln_start g + ln_count g \<le> t"
    using lay_lines_spec [OF assms(2)] by auto
  have hard: "concat (group_rows src) = src" "\<forall>l\<in>set (group_rows src). hard_line l"
    using group_rows_hard [of src] assms(1) by (auto simp: sound_src_def)
  define f where "f = line_out w 0 t ef"
  have line: "hard_line (with_content (f g)) \<and> logical_text (with_content (f g)) = logical_text (ln_rows g) \<and>
      length (f g) = count_rows w (ln_rows g) \<and> (ef \<le> ln_start g \<longrightarrow> (\<forall>s\<in>set (f g). length (fst s) = w))"
    if "g \<in> set gs" for g
  proof -
    have "ln_rows g \<in> set (group_rows src)" using that ls(1) by (metis imageI list.set_map)
    with hard group_rows_subset have "hard_line (ln_rows g)" "set (ln_rows g) \<subseteq> set src" by blast+
    with ls(3) that show ?thesis unfolding f_def by (intro line_out_spec [OF _ _ assms(1)]) auto
  qed
  have out: "out = concat (map f gs)" by (simp add: assms(3) f_def)
  have groups: "group_rows (with_content out) = map (\<lambda>g. with_content (f g)) gs"
    unfolding out with_content_concat using group_concat_hard [of "map (\<lambda>g. with_content (f g)) gs"] line
    by (simp add: comp_def)
  then have "document out = map (\<lambda>g. logical_text (ln_rows g)) gs"
    using line by (simp add: document_def)
  moreover have "map logical_text (group_rows src) = map (\<lambda>g. logical_text (ln_rows g)) gs"
    unfolding ls(1) [symmetric] by simp
  moreover have "length out = t"
    unfolding out ls(2) ls(1) [symmetric] using line
    by (simp add: length_concat comp_def cong: map_cong)
  moreover have "\<forall>s\<in>set out. length (fst s) = w" if "ef = 0" using line that by (auto simp: out)
  moreover have "\<not> wrapped (snd (last out))" if "out \<noteq> []"
  proof -
    have "gs \<noteq> []" using that out by auto
    then obtain g gs' where gs: "gs = gs' @ [g]" by (cases gs rule: rev_cases) auto
    then have h: "hard_line (with_content (f g))" using line by simp
    then have "f g \<noteq> []" by (auto simp: hard_line_def with_content_def)
    then have "last out = last (f g)" by (simp add: out gs)
    with h \<open>f g \<noteq> []\<close> show ?thesis by (simp add: hard_line_def line_wrap_of_def with_content_def last_map)
  qed
  ultimately show ?thesis using groups by (simp add: f_def)
qed

lemma lay_whole_build:
  assumes "sound_src w src" "lay_lines w 0 0 (group_rows src) = (gs, t)"
  shows "build 0 t ef \<lparr>rf_width = w, rf_lines = gs, rf_total = t\<rparr> = concat (map (line_out w 0 t ef) gs)"
proof -
  have "\<forall>g\<in>set gs. 0 < ln_count g \<and> 0 \<le> ln_start g \<and> ln_start g + ln_count g \<le> t"
    using lay_lines_spec [OF assms(2)] count_rows_pos by auto
  then show ?thesis using build_all [of "\<lparr>rf_width = w, rf_lines = gs, rf_total = t\<rparr>" 0 t ef] by simp
qed

lemma reflow_whole:
  assumes "sound_rows w rs" "r = new_reflower rs (int w) (- 1) 0" "out = build 0 (rf_total r) ef r"
  shows "document out = document rs \<and> length out = rf_total r \<and> (ef = 0 \<longrightarrow> (\<forall>s\<in>set out. length (fst s) = w))"
proof -
  have s: "sound_src w (with_content rs)" by (rule sound_rows_src [OF assms(1)])
  have w: "max w 1 = w" using assms(1) by (simp add: sound_rows_def)
  obtain gs t where gs: "lay_lines w 0 0 (group_rows (with_content rs)) = (gs, t)" by fastforce
  have r: "r = \<lparr>rf_width = w, rf_lines = gs, rf_total = t\<rparr>"
    unfolding assms(2) new_reflower_plain w gs by simp
  have "out = concat (map (line_out w 0 t ef) gs)" unfolding assms(3) r by (simp add: lay_whole_build [OF s gs])
  from lay_whole [OF s gs this] show ?thesis unfolding r document_def [of rs] reflower.simps by blast
qed

end
