(* ===== verification/ReflowSpec.thy ===== *)
theory ReflowSpec
  imports ReflowText
begin

text \<open>
  What a reflow promises: the text of the rows survives, every row has the new width, a position
  is followed to a cell of the output, and the scrollback's own reflow keeps its log.
\<close>

subsection \<open>The text\<close>

text \<open>
  C25. Laying rows out again keeps the text: over rows that end with a hard break and whose clusters
  are whole and fit the new width, the logical lines of the rows built, read cell by cell without
  spacer columns and trailing blanks, are the logical lines of the source rows, as many rows are
  built as were counted beforehand, and screen rows have exactly the new width.
\<close>

theorem reflow_keeps_text:
  assumes "sound_rows w rs" "r = new_reflower rs (int w) (- 1) 0" "out = build 0 (rf_total r) ef r"
  shows "document out = document rs \<and> length out = rf_total r \<and> (ef = 0 \<longrightarrow> (\<forall>s\<in>set out. length (fst s) = w))"
  using reflow_whole [OF assms] .

definition sample_cell :: "char \<Rightarrow> cell" where
  "sample_cell c = \<lparr>c_content = [c], c_width = 1, c_style = plain_style, c_url = []\<rparr>"

definition sample_rows :: rows where
  "sample_rows = [(map sample_cell ''abc'', soft_wrap 0), ([sample_cell CHR ''d'', empty_cell], hard_break)]"

lemma sample_not_blank: "is_blank_cell (sample_cell c) \<longleftrightarrow> c = CHR '' ''"
  by (simp add: sample_cell_def is_blank_cell_def plain_style_def)

lemma sample_sound: "sound_rows 2 sample_rows"
proof -
  have w: "c_width (sample_cell c) = 1" for c by (simp add: sample_cell_def)
  have "trimmed_len [sample_cell CHR ''d'', empty_cell] = 1"
    by (simp add: trimmed_len_def numeral_2_eq_2 sample_not_blank)
  then have "with_content sample_rows = [((map sample_cell ''abc'', soft_wrap 0), 3), (([sample_cell CHR ''d'', empty_cell], hard_break), 1)]"
    by (simp add: with_content_def sample_rows_def content_len_def spacer_soft_wrap) (simp add: wrapped_def)
  moreover have "row_groups (map sample_cell ''abc'') 3 0 = [(0, 1), (1, 1), (2, 1)]"
    by (simp add: row_groups.simps group_width_def w)
  moreover have "row_groups [sample_cell CHR ''d'', empty_cell] 1 0 = [(0, 1)]"
    by (simp add: row_groups.simps group_width_def w)
  ultimately show ?thesis
    by (simp add: sound_rows_def sound_groups_def w) (simp add: sample_rows_def wrapped_def)
qed

theorem reflow_keeps_text_witness:
  "document (build 0 (rf_total (new_reflower sample_rows 2 (- 1) 0)) 0 (new_reflower sample_rows 2 (- 1) 0)) =
   document sample_rows"
  using reflow_keeps_text [OF sample_sound refl refl] by simp

subsection \<open>The scrollback\<close>

lemma sample_ring:
  "ring_inv (fold push_line_slot sample_rows (new_scrollback 5))"
  "contents (fold push_line_slot sample_rows (new_scrollback 5)) = sample_rows"
  "rg_max (fold push_line_slot sample_rows (new_scrollback 5)) = 5"
  using ring_log.run_inv [of "new_scrollback 5" sample_rows] ring_log.run_log [of "new_scrollback 5" sample_rows]
  by (simp_all add: new_scrollback_inv) (simp_all add: new_scrollback_def sample_rows_def lastn_def)

lemma replace_all_spec:
  assumes "0 < ring_size r" "ring_size r \<le> rg_max r"
  shows "ring_inv ((replace_all ss r)\<lparr>rg_pending := 0\<rparr>) \<and>
    contents ((replace_all ss r)\<lparr>rg_pending := 0\<rparr>) = lastn (rg_max r) ss"
proof -
  define ss' where "ss' = lastn (rg_max r) ss"
  have ss': "(if length ss > rg_max r then drop (length ss - rg_max r) ss else ss) = ss'" "length ss' \<le> rg_max r"
    by (auto simp: ss'_def lastn_def)
  define size where "size = min (rg_max r) (max (length ss') (ring_size r))"
  have sz: "length ss' \<le> size" "0 < size" "size \<le> rg_max r" using ss'(2) assms by (auto simp: size_def)
  define r' where "r' = (replace_all ss r)\<lparr>rg_pending := 0\<rparr>"
  have eq: "r' = r\<lparr>rg_slots := ss' @ empty_slots (size - length ss'), rg_head := 0,
      rg_tail := length ss' mod size, rg_full := length ss' = size, rg_pending := 0\<rparr>"
    unfolding r'_def replace_all_def ss'(1) Let_def size_def [symmetric] using sz by (simp add: min_absorb1)
  have "rg_slots r' = ss' @ empty_slots (size - length ss')" "rg_head r' = 0"
    "rg_tail r' = length ss' mod (length ss' + (size - length ss'))" "rg_full r' = (size - length ss' = 0)"
    "0 < length ss' + (size - length ss')" "length ss' + (size - length ss') \<le> rg_max r'" "rg_pending r' = 0"
    using sz by (auto simp: eq)
  note r' = this
  have "ring_at r' (length ss')" "contents r' = ss'" by (rule ring_at_front [OF r'(1-6)])+
  then show ?thesis using r'(7) unfolding r'_def [symmetric] by (auto intro!: ring_invI simp: ss'_def)
qed

text \<open>
  Reflowing the scrollback on its own keeps the ring's invariant and its text: when the rows
  fit the limit at the new width, the logical lines held afterwards are those held before.
\<close>

lemma scrollback_reflow_keeps_text:
  assumes "ring_inv sb" "sound_rows w (contents sb)"
    and "rf_total (new_reflower (contents sb) (int w) (- 1) 0) \<le> rg_max sb"
  shows "ring_inv (scrollback_reflow (int w) sb) \<and>
    document (contents (scrollback_reflow (int w) sb)) = document (contents sb)"
proof -
  define sb1 where "sb1 = sb\<lparr>rg_width := int w\<rparr>"
  have c: "contents sb1 = contents sb" by (simp add: sb1_def contents_def ring_range_def ring_slot_def [abs_def] ring_len_def ring_size_def)
  define r where "r = new_reflower (contents sb) (int w) (- 1) 0"
  define out where "out = build 0 (rf_total r) (rf_total r) r"
  have doc: "document out = document (contents sb) \<and> length out = rf_total r"
    using reflow_whole [OF assms(2) r_def out_def] by simp
  have ring: "0 < ring_size sb1" "ring_size sb1 \<le> rg_max sb1"
    using assms(1) by (auto simp: ring_inv_def ring_at_def sb1_def ring_size_def)
  have "scrollback_reflow (int w) sb = (replace_all out sb1)\<lparr>rg_pending := 0\<rparr>"
    using assms(2,3) c by (simp add: scrollback_reflow_def sound_rows_def sb1_def [symmetric] r_def [symmetric]
        out_def Let_def) (simp add: sb1_def)
  moreover have "lastn (rg_max sb1) out = out"
    using doc assms(3) by (simp add: lastn_def r_def sb1_def)
  ultimately show ?thesis using replace_all_spec [OF ring, of out] doc by simp
qed

lemma scrollback_reflow_keeps_text_witness:
  "document (contents (scrollback_reflow 2 (fold push_line_slot sample_rows (new_scrollback 5)))) =
   document sample_rows"
proof -
  have "rf_total (new_reflower sample_rows 2 (- 1) 0) \<le> 5" by code_simp
  then show ?thesis
    using scrollback_reflow_keeps_text [OF sample_ring(1), of 2] sample_ring sample_sound by simp
qed

subsection \<open>Following a position\<close>

lemma concat_group_rows: "concat (group_rows ss) = ss \<and> [] \<notin> set (group_rows ss)"
proof (induction ss rule: group_rows.induct)
  case (3 s t ss)
  show ?case
  proof (cases "wrapped (snd (fst s))")
    case True
    with 3 show ?thesis by (cases "group_rows (t # ss)") auto
  next
    case False
    with 3 show ?thesis by simp
  qed
qed simp_all

lemma lay_lines_find:
  "lay_lines w f t ls = (gs, t') \<Longrightarrow> f \<le> i \<Longrightarrow> i < f + length (concat ls) \<Longrightarrow>
   \<exists>g\<in>set gs. ln_first g \<le> i \<and> i < ln_first g + length (ln_rows g)"
proof (induction ls arbitrary: f t gs)
  case (Cons l ls)
  obtain gs1 where gs1: "lay_lines w (f + length l) (t + count_rows w l) ls = (gs1, t')"
      "gs = \<lparr>ln_first = f, ln_rows = l, ln_start = t, ln_count = count_rows w l\<rparr> # gs1"
    using Cons.prems(1) by (auto simp: Let_def split: prod.splits)
  show ?case
  proof (cases "i < f + length l")
    case False
    then have "f + length l \<le> i" "i < f + length l + length (concat ls)" using Cons.prems(3) by auto
    from Cons.IH [OF gs1(1) this] show ?thesis by (simp add: gs1(2))
  qed (use Cons.prems(2) gs1(2) in simp)
qed simp

lemma filter_hd: "\<exists>x\<in>set xs. P x \<Longrightarrow> hd (filter P xs) \<in> set xs \<and> P (hd (filter P xs))"
  by (induction xs) auto

lemma place_cols:
  "place w row col gs = (ks, row', col') \<Longrightarrow> 0 < w \<Longrightarrow> \<forall>(i, x, gw)\<in>set gs. 0 < gw \<Longrightarrow>
   \<forall>k\<in>set ks. k_orow k \<le> row' \<and> k_ocol k + k_pw k \<le> w \<and> 0 < k_pw k"
proof (induction gs arbitrary: row col ks)
  case (Cons g gs)
  obtain i x gw where g: "g = (i, x, gw)" by (rule prod_cases3)
  define pw where "pw = (if gw > w then 1 else gw)"
  define r1 where "r1 = (if col + pw > w then row + 1 else row)"
  define c1 where "c1 = (if col + pw > w then 0 else col)"
  obtain ks1 where ks1: "place w r1 (c1 + pw) gs = (ks1, row', col')"
      "ks = \<lparr>k_row = i, k_x = x, k_gw = gw, k_orow = r1, k_ocol = c1, k_pw = pw\<rparr> # ks1"
    using Cons.prems(1) by (auto simp: g r1_def c1_def pw_def Let_def split: prod.splits if_splits)
  have "pw \<le> w" "0 < pw" using Cons.prems(2,3) by (auto simp: pw_def g)
  moreover have "r1 \<le> row'" using place_rows [OF ks1(1)] by simp
  ultimately show ?case using Cons.IH [OF ks1(1) Cons.prems(2)] Cons.prems(3) by (auto simp: ks1(2) c1_def)
qed simp

lemma line_groups_pos: "\<forall>(i, x, gw)\<in>set (line_groups l). 0 < gw"
  using row_groups_range by (fastforce simp: line_groups_def)

lemma locate_range:
  assumes "rs \<noteq> []" "0 \<le> x" "r = new_reflower rs width ext extlen" "locate r (length rs) src x = (row, col, at_end)"
  shows "row < rf_total r \<and> 0 \<le> col \<and> col < int (rf_width r)"
proof -
  define w where "w = nat (max width 1)"
  have w: "0 < w" by (simp add: w_def)
  obtain gs t where gs: "lay_lines w 0 0 (group_rows (zip rs (content_lens rs ext extlen))) = (gs, t)" by fastforce
  have r: "r = \<lparr>rf_width = w, rf_lines = gs, rf_total = t\<rparr>"
    unfolding assms(3) new_reflower_def w_def [symmetric] Let_def gs by simp
  define i where "i = nat (max 0 (min src (int (length rs) - 1)))"
  have "length (content_lens rs ext extlen) = length rs" by (simp add: content_lens_def Let_def)
  then have "i < length (concat (group_rows (zip rs (content_lens rs ext extlen))))"
    using concat_group_rows [of "zip rs (content_lens rs ext extlen)"] assms(1) by (simp add: i_def nat_less_iff)
  then have "\<exists>g\<in>set gs. ln_first g \<le> i \<and> i < ln_first g + length (ln_rows g)"
    using lay_lines_find [OF gs, of i] by simp
  from filter_hd [OF this] have l: "line_holding r i \<in> set gs" by (simp add: line_holding_def r)
  define l where "l = line_holding r i"
  have cnt: "ln_count l = count_rows w (ln_rows l)" "ln_start l + ln_count l \<le> t"
    using lay_lines_spec [OF gs] l by (auto simp: l_def)
  have loc: "locate r (length rs) src x = (row, col, at_end)" by (rule assms(4))
  have lr: "line_holding \<lparr>rf_width = w, rf_lines = gs, rf_total = t\<rparr> i = l" by (simp add: l_def r)
  show ?thesis
  proof (cases "fits_line w (ln_rows l)")
    case True
    then have n: "snd (ln_rows l ! (i - ln_first l)) \<le> w \<or> i - ln_first l \<noteq> 0"
      by (cases "ln_rows l") (auto simp: fits_line_def)
    have "length (ln_rows l) = 1" using True by (simp add: fits_line_def)
    moreover have "ln_first l \<le> i \<and> i < ln_first l + length (ln_rows l)"
      using filter_hd [OF \<open>\<exists>g\<in>set gs. _ g\<close>] by (simp add: l_def line_holding_def r)
    ultimately have n: "snd (ln_rows l ! (i - ln_first l)) \<le> w" using n by simp
    have "ln_start l < t" using cnt count_rows_pos [of w "ln_rows l"] by linarith
    moreover have "row = ln_start l \<and> 0 \<le> col \<and> col < int w"
      using loc True n assms(1,2) w
      by (auto simp: locate_def r i_def [symmetric] lr Let_def split: if_splits)
    ultimately show ?thesis by (simp add: r)
  next
    case False
    obtain ks erow ecol where ks: "walk w (ln_rows l) = (ks, erow, ecol)" by (rule prod_cases3)
    have k: "\<forall>k\<in>set ks. k_orow k \<le> erow \<and> k_ocol k + k_pw k \<le> w \<and> 0 < k_pw k"
      using place_cols [of w 0 0 "line_groups (ln_rows l)"] ks w line_groups_pos by (simp add: walk_def)
    have c: "ln_count l = erow + 1" using False ks cnt(1) by (simp add: count_rows_def)
    show ?thesis
    proof (cases "spot_at (i - ln_first l) x ks")
      case (Some p)
      then obtain k where kk: "k \<in> set ks" "p = (k_orow k, k_ocol k + min (nat x - k_x k) (k_pw k - 1))"
        by (auto simp: spot_at_def find_Some_iff in_set_conv_nth)
      have "k_orow k \<le> erow" "k_ocol k + min (nat x - k_x k) (k_pw k - 1) < w" using k kk(1) by fastforce+
      with loc False Some kk ks cnt(2) c show ?thesis
        by (auto simp: locate_def r i_def [symmetric] lr Let_def assms(1))
    next
      case None
      obtain fr fc where e: "end_at (i - ln_first l) ks = (fr, fc)" by fastforce
      have fr: "fr \<le> erow \<and> fc \<le> w"
      proof (cases "rev (takeWhile (\<lambda>k. \<not> k_row k > i - ln_first l) ks)")
        case Nil
        with e show ?thesis by (simp add: end_at_def)
      next
        case (Cons k kk)
        then have "k \<in> set ks" by (metis list.set_intros(1) set_rev set_takeWhileD)
        with k e Cons show ?thesis by (fastforce simp: end_at_def)
      qed
      define extra where "extra = max (x - int (snd (ln_rows l ! (i - ln_first l)))) 0"
      have "(row, col, at_end) =
          (if extra = 0 \<and> fc = w then (ln_start l + fr, int w - 1, True)
           else if w \<le> fc \<and> 0 < extra \<and> fr + 1 < ln_count l
           then (ln_start l + fr + 1, min (extra - 1) (int w - 1), False)
           else (ln_start l + fr, min (int fc + extra) (int w - 1), False))"
        using loc False None ks e assms(1)
        by (simp add: locate_def r i_def [symmetric] lr Let_def extra_def cong: if_cong)
      moreover have "0 \<le> extra" by (simp add: extra_def)
      ultimately have "row < ln_start l + ln_count l \<and> 0 \<le> col \<and> col < int w"
        using w fr c by (auto split: if_splits)
      with cnt(2) show ?thesis by (simp add: r)
    qed
  qed
qed

text \<open>
  C26. A position is followed to a cell of the output: whatever row and column it had, and whatever
  the new width, the row is one of the rows built and the column one of its columns.
\<close>

theorem locate_in_bounds:
  assumes "rs \<noteq> []" "0 \<le> x" "r = new_reflower rs width ext extlen" "locate r (length rs) src x = (row, col, at_end)"
  shows "row < rf_total r \<and> 0 \<le> col \<and> col < int (rf_width r)"
  by (rule locate_range [OF assms])

theorem locate_in_bounds_witness:
  "fst (locate (new_reflower sample_rows 2 (- 1) 0) 2 0 2) < rf_total (new_reflower sample_rows 2 (- 1) 0)"
proof -
  have "locate (new_reflower sample_rows 2 (- 1) 0) (length sample_rows) 0 2 = (1, 0, False)" by code_simp
  from locate_in_bounds [OF _ _ refl this] have "1 < rf_total (new_reflower sample_rows 2 (- 1) 0)"
    by (simp add: sample_rows_def)
  moreover have "locate (new_reflower sample_rows 2 (- 1) 0) 2 0 2 = (1, 0, False)" by code_simp
  ultimately show ?thesis by simp
qed


subsection \<open>The tail a resize lays out\<close>

lemma tail_line_stops:
  "tail_line sb (Suc start) acc = (s, n) \<Longrightarrow> rg_pending sb \<le> start \<Longrightarrow>
   rg_pending sb \<le> s \<and> s \<le> start \<and> (s = rg_pending sb \<or> \<not> wrapped (ring_wrap sb (int s - 1))) \<and>
   (\<forall>i. s \<le> i \<and> i < start \<longrightarrow> wrapped (ring_wrap sb (int i)))"
proof (induction start arbitrary: acc)
  case 0
  then show ?case by (auto simp: Let_def split: if_splits)
next
  case (Suc k)
  let ?stop = "Suc k = rg_pending sb \<or> \<not> wrapped (ring_wrap sb (int (Suc k) - 1))"
  have eq: "tail_line sb (Suc (Suc k)) acc =
      (if ?stop then (Suc k, acc + content_len (ring_slot sb (Suc k)))
       else tail_line sb (Suc k) (acc + content_len (ring_slot sb (Suc k))))"
    by (subst tail_line.simps) (simp add: Let_def del: tail_line.simps)
  show ?case
  proof (cases ?stop)
    case True
    then have "s = Suc k" using Suc.prems(1) by (simp add: eq del: tail_line.simps)
    with True Suc.prems(2) show ?thesis by auto
  next
    case False
    then have t: "tail_line sb (Suc k) (acc + content_len (ring_slot sb (Suc k))) = (s, n)"
      using Suc.prems(1) by (simp add: eq del: tail_line.simps)
    have p: "rg_pending sb \<le> k" using False Suc.prems(2) by simp
    have "wrapped (ring_wrap sb (int k))" using False by simp
    with Suc.IH [OF t p] show ?thesis by (auto simp: less_Suc_eq)
  qed
qed

lemma tail_start_stops:
  "rg_pending sb \<le> start \<Longrightarrow> start = rg_pending sb \<or> \<not> wrapped (ring_wrap sb (int start - 1)) \<Longrightarrow>
   (let s = tail_start sb w h start rows
    in rg_pending sb \<le> s \<and> s \<le> start \<and> (s = rg_pending sb \<or> \<not> wrapped (ring_wrap sb (int s - 1))))"
proof (induction sb w h start rows rule: tail_start.induct)
  case (1 sb w h start rows)
  show ?case
  proof (cases "start > rg_pending sb \<and> int rows \<le> h")
    case True
    obtain s n where t: "tail_line sb start 0 = (s, n)" by fastforce
    obtain k where k: "start = Suc k" using True by (cases start) auto
    have s: "rg_pending sb \<le> s \<and> s \<le> k \<and> (s = rg_pending sb \<or> \<not> wrapped (ring_wrap sb (int s - 1)))"
      using tail_line_stops [of sb k 0 s n] t True by (simp add: k del: tail_line.simps)
    have "tail_start sb w h start rows = tail_start sb w h s (rows + max 1 ((n + w - 1) div w))"
      using True t by (subst tail_start.simps) simp
    with "1.IH" [OF True t [symmetric] refl] s show ?thesis by (auto simp: Let_def k)
  next
    case False
    then have "tail_start sb w h start rows = start" by (subst tail_start.simps) (rule if_not_P)
    with "1.prems" show ?thesis by simp
  qed
qed

text \<open>
  The part of the history a resize lays out at once begins at a logical line: it takes no line
  that is pending, the row before it (when it is not pending) ended with a hard break, and it takes
  at least one row when there is one that is not pending.
\<close>

lemma tail_starts_a_line:
  assumes "ring_inv sb" "0 \<le> height" "s = reflow_tail_start width height sb"
  shows "rg_pending sb \<le> s \<and> s \<le> ring_len sb \<and>
    (s = rg_pending sb \<or> \<not> wrapped (ring_wrap sb (int s - 1))) \<and>
    (rg_pending sb < ring_len sb \<longrightarrow> s < ring_len sb)"
proof (cases "rg_pending sb < ring_len sb")
  case True
  let ?w = "nat (max width 1)"
  obtain a n where t: "tail_line sb (ring_len sb) 0 = (a, n)" by fastforce
  obtain k where k: "ring_len sb = Suc k" using True by (cases "ring_len sb") auto
  have a: "rg_pending sb \<le> a \<and> a \<le> k \<and> (a = rg_pending sb \<or> \<not> wrapped (ring_wrap sb (int a - 1)))"
    using tail_line_stops [of sb k 0 a n] t True by (simp add: k del: tail_line.simps)
  have "s = tail_start sb ?w height a (0 + max 1 ((n + ?w - 1) div ?w))"
    unfolding assms(3) reflow_tail_start_def using True t assms(2) by (subst tail_start.simps) simp
  moreover have "rg_pending sb \<le> tail_start sb ?w height a m \<and> tail_start sb ?w height a m \<le> a \<and>
      (tail_start sb ?w height a m = rg_pending sb \<or> \<not> wrapped (ring_wrap sb (int (tail_start sb ?w height a m) - 1)))" for m
    using tail_start_stops [of sb a ?w height m] a by (simp add: Let_def)
  ultimately have "rg_pending sb \<le> s \<and> s \<le> a \<and> (s = rg_pending sb \<or> \<not> wrapped (ring_wrap sb (int s - 1)))"
    by metis
  with a k show ?thesis by auto
next
  case False
  then have "rg_pending sb = ring_len sb" using assms(1) by (simp add: ring_inv_def)
  moreover have "s = ring_len sb"
    unfolding assms(3) reflow_tail_start_def using False by (subst tail_start.simps) simp
  ultimately show ?thesis by simp
qed

lemma tail_starts_a_line_witness:
  "reflow_tail_start 2 24 (fold push_line_slot sample_rows (new_scrollback 5)) < 2 \<or>
   rg_pending (fold push_line_slot sample_rows (new_scrollback 5)) = 2"
proof -
  have "ring_len (fold push_line_slot sample_rows (new_scrollback 5)) = 2"
    using length_contents [of "fold push_line_slot sample_rows (new_scrollback 5)"]
    unfolding sample_ring(2) by (simp add: sample_rows_def)
  then show ?thesis using tail_starts_a_line [OF sample_ring(1) _ refl, of 24 2] by auto
qed

end
