(* ===== verification/SessionState.thy ===== *)
theory SessionState
  imports Float64 "HOL-Library.Sublist"
begin

text \<open>
  The daemon's canonical session state (\<^verbatim>\<open>internal/session/session.go\<close>), how a window is named by a
  target string (\<^verbatim>\<open>session_ops.go\<close>), the lifecycle events read off the difference of two states
  (\<^verbatim>\<open>state_events.go\<close>), and \<^verbatim>\<open>mutateState\<close>, the one path by which the daemon changes its state.
  A Go map that may be nil is an option of a map. Times are unix nanoseconds.
\<close>

subsection \<open>State\<close>

datatype agent_state = Agent_None | Agent_Working | Agent_Needs_Input | Agent_Idle | Agent_Done | Agent_Errored

record window_state =
  wn_id :: string
  wn_title :: string
  wn_custom :: string
  wn_x :: int
  wn_y :: int
  wn_width :: int
  wn_height :: int
  wn_z :: int
  wn_workspace :: int
  wn_minimized :: bool
  wn_pre :: "int \<times> int \<times> int \<times> int"
  wn_pty :: string
  wn_alt :: bool
  wn_title_locked :: bool
  wn_cwd :: string
  wn_unplaced :: bool
  wn_agent :: agent_state
  wn_message :: string
  wn_agent_at :: int
  wn_harness :: string
  wn_command :: string

datatype saved_node = Saved_Node int int f64 "saved_node option" "saved_node option"

record saved_tree =
  st_root :: "saved_node option"
  st_scheme :: int
  st_ratio :: f64

record session_state =
  ss_name :: string
  ss_display :: string
  ss_accent :: string
  ss_restored :: bool
  ss_classroom :: string
  ss_windows :: "window_state list"
  ss_focused :: string
  ss_workspace :: int
  ss_ws_focus :: "(int \<rightharpoonup> string) option"
  ss_master :: f64
  ss_tiling :: bool
  ss_width :: int
  ss_height :: int
  ss_ws_names :: "(int \<rightharpoonup> string) option"
  ss_ws_tiling :: "(int \<rightharpoonup> bool) option"
  ss_trees :: "(int \<rightharpoonup> saved_tree) option"
  ss_bsp_ids :: "(string \<rightharpoonup> int) option"
  ss_next_bsp :: int
  ss_scheme :: int
  ss_layout :: string
  ss_num_ws :: int
  ss_saved_version :: int
  ss_version :: int
  ss_base :: int
  ss_options :: "(string \<rightharpoonup> string) option"

definition window_ids_of :: "session_state \<Rightarrow> string list" where
  "window_ids_of s = map wn_id (ss_windows s)"

text \<open>Reading a Go map that may be nil; an absent string reads as the empty string.\<close>

definition map_get :: "('k \<rightharpoonup> 'v) option \<Rightarrow> 'k \<Rightarrow> 'v option" where
  "map_get m k = (case m of None \<Rightarrow> None | Some f \<Rightarrow> f k)"

definition map_put :: "'k \<Rightarrow> 'v \<Rightarrow> ('k \<rightharpoonup> 'v) option \<Rightarrow> ('k \<rightharpoonup> 'v) option" where
  "map_put k v m = Some ((case m of None \<Rightarrow> Map.empty | Some f \<Rightarrow> f)(k \<mapsto> v))"

definition map_delete :: "'k \<Rightarrow> ('k \<rightharpoonup> 'v) option \<Rightarrow> ('k \<rightharpoonup> 'v) option" where
  "map_delete k m = map_option (\<lambda>f. f(k := None)) m"

lemma map_get_simps [simp]:
  "map_get None k = None" "map_get (Some f) k = f k"
  "map_get (map_put k v m) j = (if j = k then Some v else map_get m j)"
  "map_get (map_delete k m) j = (if j = k then None else map_get m j)"
  by (auto simp: map_get_def map_put_def map_delete_def split: option.splits)

definition default_workspaces :: int where "default_workspaces = 9"

definition workspace_bound :: "session_state \<Rightarrow> int" where
  "workspace_bound s = (if ss_num_ws s > 0 then ss_num_ws s else default_workspaces)"

subsection \<open>Naming a window\<close>

datatype session_error =
  Empty_Target
| Ambiguous_Prefix string nat
| Ambiguous_Name string nat
| No_Window string
| No_Windows_On int
| Out_Of_Range int int
| Claim_Held
| No_Blocker
| No_Stall_Change
| No_Detect_Change

fun first_index :: "('a \<Rightarrow> bool) \<Rightarrow> 'a list \<Rightarrow> nat option" where
  "first_index P [] = None"
| "first_index P (x # xs) = (if P x then Some 0 else map_option Suc (first_index P xs))"

text \<open>The index the loops over prefixes and names end with: the last match, and how many there were.\<close>

fun last_index :: "('a \<Rightarrow> bool) \<Rightarrow> nat \<Rightarrow> int \<times> nat \<Rightarrow> 'a list \<Rightarrow> int \<times> nat" where
  "last_index P i acc [] = acc"
| "last_index P i acc (x # xs) = last_index P (Suc i) (if P x then (int i, snd acc + 1) else acc) xs"

fun digits_value :: "nat \<Rightarrow> string \<Rightarrow> nat option" where
  "digits_value acc [] = Some acc"
| "digits_value acc (c # cs) =
     (let code = of_char c :: nat
      in if code < 48 \<or> code > 57 then None else digits_value (acc * 10 + (code - 48)) cs)"

definition window_index_target :: "string \<Rightarrow> nat \<Rightarrow> nat option" where
  "window_index_target target count =
     (if target = [] \<or> length target > 4 then None
      else case digits_value 0 target of None \<Rightarrow> None
        | Some i \<Rightarrow> if i \<ge> count then None else Some i)"

definition find_window :: "window_state list \<Rightarrow> string \<Rightarrow> session_error + nat" where
  "find_window ws target =
     (if target = [] then Inl Empty_Target
      else case first_index (\<lambda>w. wn_id w = target) ws of Some i \<Rightarrow> Inr i
      | None \<Rightarrow>
        case window_index_target target (length ws) of Some i \<Rightarrow> Inr i
        | None \<Rightarrow>
          let (pi, pn) = last_index (\<lambda>w. prefix target (wn_id w)) 0 (- 1, 0) ws
          in if pn = 1 then Inr (nat pi)
             else if pn > 1 then Inl (Ambiguous_Prefix target pn)
             else let (ni, nn) = last_index (\<lambda>w. wn_custom w = target \<or> wn_title w = target) 0 (- 1, 0) ws
               in if nn = 1 then Inr (nat ni)
                  else if nn > 1 then Inl (Ambiguous_Name target nn)
                  else Inl (No_Window target))"

subsection \<open>Lifecycle events\<close>

record lifecycle_window =
  lw_id :: string
  lw_pty :: string
  lw_title :: string
  lw_custom :: string
  lw_workspace :: int
  lw_minimized :: bool

record lifecycle =
  lc_windows :: "lifecycle_window list"
  lc_index :: "string \<rightharpoonup> nat"
  lc_focused :: string
  lc_workspace :: int

datatype session_event =
  Window_Closed string string
| Window_Created string string string
| Window_Retitled string string
| Window_Moved string string int
| Window_Minimized string string
| Window_Restored string string
| Workspace_Switched int
| Window_Focused string string

definition lifecycle_window_of :: "window_state \<Rightarrow> lifecycle_window" where
  "lifecycle_window_of w = \<lparr>lw_id = wn_id w, lw_pty = wn_pty w, lw_title = wn_title w, lw_custom = wn_custom w,
     lw_workspace = wn_workspace w, lw_minimized = wn_minimized w\<rparr>"

fun index_windows :: "nat \<Rightarrow> window_state list \<Rightarrow> (string \<rightharpoonup> nat) \<Rightarrow> (string \<rightharpoonup> nat)" where
  "index_windows i [] m = m"
| "index_windows i (w # ws) m = index_windows (Suc i) ws (m(wn_id w \<mapsto> i))"

definition snapshot_lifecycle :: "session_state \<Rightarrow> lifecycle" where
  "snapshot_lifecycle s = \<lparr>lc_windows = map lifecycle_window_of (ss_windows s),
     lc_index = index_windows 0 (ss_windows s) Map.empty, lc_focused = ss_focused s, lc_workspace = ss_workspace s\<rparr>"

definition display_title :: "lifecycle_window \<Rightarrow> string" where
  "display_title w = (if lw_custom w \<noteq> [] then lw_custom w else lw_title w)"

definition closed_events :: "lifecycle \<Rightarrow> lifecycle \<Rightarrow> session_event list" where
  "closed_events b a =
     map (\<lambda>w. Window_Closed (lw_id w) (lw_pty w)) (filter (\<lambda>w. lc_index a (lw_id w) = None) (lc_windows b))"

definition created_events :: "lifecycle \<Rightarrow> lifecycle \<Rightarrow> session_event list" where
  "created_events b a =
     map (\<lambda>w. Window_Created (lw_id w) (lw_pty w) (display_title w))
       (filter (\<lambda>w. lc_index b (lw_id w) = None) (lc_windows a))"

definition changed_events :: "lifecycle \<Rightarrow> lifecycle_window \<Rightarrow> session_event list" where
  "changed_events b w =
     (case lc_index b (lw_id w) of None \<Rightarrow> []
      | Some i \<Rightarrow>
        let prev = lc_windows b ! i
        in (if lw_custom w \<noteq> lw_custom prev then [Window_Retitled (lw_id w) (lw_custom w)] else []) @
           (if lw_workspace w \<noteq> lw_workspace prev then [Window_Moved (lw_id w) (lw_pty w) (lw_workspace w)] else []) @
           (if lw_minimized w \<noteq> lw_minimized prev
            then [if lw_minimized w then Window_Minimized (lw_id w) (lw_pty w)
                  else Window_Restored (lw_id w) (lw_pty w)] else []))"

definition focus_events :: "lifecycle \<Rightarrow> lifecycle \<Rightarrow> session_event list" where
  "focus_events b a =
     (if lc_focused a \<noteq> lc_focused b \<and> lc_focused a \<noteq> []
      then [Window_Focused (lc_focused a)
              (case lc_index a (lc_focused a) of Some i \<Rightarrow> lw_pty (lc_windows a ! i) | None \<Rightarrow> [])]
      else [])"

definition diff_lifecycle :: "lifecycle \<Rightarrow> lifecycle \<Rightarrow> session_event list" where
  "diff_lifecycle b a =
     closed_events b a @ created_events b a @ concat (map (changed_events b) (lc_windows a)) @
     (if lc_workspace a \<noteq> lc_workspace b \<and> lc_workspace a > 0 then [Workspace_Switched (lc_workspace a)] else []) @
     focus_events b a"

end
