(* ===== verification/SessionEvents.thy ===== *)
theory SessionEvents
  imports SessionState
begin

text \<open>
  What a subscriber can rely on: a client that keeps a picture of the session and applies the
  lifecycle events to it has, after each state change, the picture of the new state. The picture is
  partial where the events are: a created window is announced without its workspace.
\<close>

subsection \<open>Indexing a snapshot\<close>

lemma index_windows_spec:
  "distinct (map wn_id ws) \<Longrightarrow>
   index_windows k ws m i =
     (if i \<in> wn_id ` set ws then Some (k + length (takeWhile (\<lambda>w. wn_id w \<noteq> i) ws)) else m i)"
proof (induction ws arbitrary: k m)
  case (Cons w ws)
  then show ?case by (cases "wn_id w = i") auto
qed simp

lemma nth_takeWhile_id: "i \<in> f ` set xs \<Longrightarrow>
    length (takeWhile (\<lambda>x. f x \<noteq> i) xs) < length xs \<and> f (xs ! length (takeWhile (\<lambda>x. f x \<noteq> i) xs)) = i"
  by (induction xs) auto

lemma snapshot_sel [simp]:
  "lc_windows (snapshot_lifecycle s) = map lifecycle_window_of (ss_windows s)"
  "lc_focused (snapshot_lifecycle s) = ss_focused s" "lc_workspace (snapshot_lifecycle s) = ss_workspace s"
  by (simp_all add: snapshot_lifecycle_def)

lemma lifecycle_window_sel [simp]:
  "lw_id (lifecycle_window_of w) = wn_id w" "lw_pty (lifecycle_window_of w) = wn_pty w"
  "lw_custom (lifecycle_window_of w) = wn_custom w" "lw_workspace (lifecycle_window_of w) = wn_workspace w"
  "lw_minimized (lifecycle_window_of w) = wn_minimized w"
  by (simp_all add: lifecycle_window_of_def)

definition well_indexed :: "lifecycle \<Rightarrow> bool" where
  "well_indexed l \<longleftrightarrow> distinct (map lw_id (lc_windows l)) \<and>
     (\<forall>i. lc_index l i = None \<longleftrightarrow> i \<notin> lw_id ` set (lc_windows l)) \<and>
     (\<forall>i k. lc_index l i = Some k \<longrightarrow> k < length (lc_windows l) \<and> lw_id (lc_windows l ! k) = i)"

lemma snapshot_well_indexed:
  assumes "distinct (window_ids_of s)"
  shows "well_indexed (snapshot_lifecycle s)"
proof -
  have d: "distinct (map wn_id (ss_windows s))" using assms by (simp add: window_ids_of_def)
  have ix: "lc_index (snapshot_lifecycle s) i =
      (if i \<in> wn_id ` set (ss_windows s) then Some (length (takeWhile (\<lambda>w. wn_id w \<noteq> i) (ss_windows s))) else None)" for i
    using index_windows_spec [OF d, of 0 Map.empty i] by (simp add: snapshot_lifecycle_def)
  show ?thesis
    using d nth_takeWhile_id [of _ wn_id "ss_windows s"]
    by (auto simp: well_indexed_def ix comp_def image_image split: if_splits)
qed

subsection \<open>The subscriber's picture\<close>

record picture =
  pc_open :: "string set"
  pc_name :: "string \<rightharpoonup> string"
  pc_place :: "string \<rightharpoonup> int"
  pc_min :: "string \<rightharpoonup> bool"
  pc_workspace :: int
  pc_focus :: string

fun watch :: "session_event \<Rightarrow> picture \<Rightarrow> picture" where
  "watch (Window_Closed w p) t = t\<lparr>pc_open := pc_open t - {w}\<rparr>"
| "watch (Window_Created w p n) t =
     t\<lparr>pc_open := insert w (pc_open t), pc_name := (pc_name t)(w \<mapsto> n), pc_place := (pc_place t)(w := None),
       pc_min := (pc_min t)(w := None)\<rparr>"
| "watch (Window_Retitled w n) t = t\<lparr>pc_name := (pc_name t)(w \<mapsto> n)\<rparr>"
| "watch (Window_Moved w p s) t = t\<lparr>pc_place := (pc_place t)(w \<mapsto> s)\<rparr>"
| "watch (Window_Minimized w p) t = t\<lparr>pc_min := (pc_min t)(w \<mapsto> True)\<rparr>"
| "watch (Window_Restored w p) t = t\<lparr>pc_min := (pc_min t)(w \<mapsto> False)\<rparr>"
| "watch (Workspace_Switched s) t = t\<lparr>pc_workspace := s\<rparr>"
| "watch (Window_Focused w p) t = t\<lparr>pc_focus := w\<rparr>"

definition knows_window :: "picture \<Rightarrow> lifecycle_window \<Rightarrow> bool" where
  "knows_window t w \<longleftrightarrow> (lw_custom w \<noteq> [] \<longrightarrow> pc_name t (lw_id w) = Some (lw_custom w)) \<and>
     pc_place t (lw_id w) \<in> {None, Some (lw_workspace w)} \<and> pc_min t (lw_id w) \<in> {None, Some (lw_minimized w)}"

definition knows :: "picture \<Rightarrow> lifecycle \<Rightarrow> bool" where
  "knows t l \<longleftrightarrow> pc_open t = lw_id ` set (lc_windows l) \<and> (\<forall>w\<in>set (lc_windows l). knows_window t w) \<and>
     (lc_workspace l > 0 \<longrightarrow> pc_workspace t = lc_workspace l) \<and>
     (lc_focused l \<noteq> [] \<longrightarrow> pc_focus t = lc_focused l)"

definition same_window :: "picture \<Rightarrow> picture \<Rightarrow> string \<Rightarrow> bool" where
  "same_window t t' i \<longleftrightarrow> pc_name t' i = pc_name t i \<and> pc_place t' i = pc_place t i \<and> pc_min t' i = pc_min t i"

definition same_session :: "picture \<Rightarrow> picture \<Rightarrow> bool" where
  "same_session t t' \<longleftrightarrow> pc_workspace t' = pc_workspace t \<and> pc_focus t' = pc_focus t"

lemma knows_same: "same_window t t' (lw_id w) \<Longrightarrow> knows_window t' w = knows_window t w"
  by (simp add: same_window_def knows_window_def)

lemma watch_closed:
  "fold watch (map (\<lambda>w. Window_Closed (lw_id w) (lw_pty w)) ws) t = t\<lparr>pc_open := pc_open t - lw_id ` set ws\<rparr>"
  by (induction ws arbitrary: t) (simp_all flip: Diff_insert2)

lemma watch_created:
  "distinct (map lw_id ws) \<Longrightarrow>
   t' = fold watch (map (\<lambda>w. Window_Created (lw_id w) (lw_pty w) (display_title w)) ws) t \<Longrightarrow>
   pc_open t' = pc_open t \<union> lw_id ` set ws \<and> same_session t t' \<and> (\<forall>w\<in>set ws. knows_window t' w) \<and>
   (\<forall>i. i \<notin> lw_id ` set ws \<longrightarrow> same_window t t' i)"
proof (induction ws arbitrary: t)
  case Nil
  then show ?case by (simp add: same_session_def same_window_def)
next
  case (Cons w ws)
  let ?t1 = "watch (Window_Created (lw_id w) (lw_pty w) (display_title w)) t"
  have IH: "pc_open t' = pc_open ?t1 \<union> lw_id ` set ws \<and> same_session ?t1 t' \<and> (\<forall>w\<in>set ws. knows_window t' w) \<and>
      (\<forall>i. i \<notin> lw_id ` set ws \<longrightarrow> same_window ?t1 t' i)"
    by (rule Cons.IH) (use Cons.prems in auto)
  moreover have "knows_window ?t1 w" by (simp add: knows_window_def display_title_def)
  moreover have "lw_id w \<notin> lw_id ` set ws" using Cons.prems(1) by simp
  ultimately show ?case
    by (auto simp: same_session_def same_window_def knows_window_def)
qed

lemma watch_changed1:
  assumes "well_indexed b" "t' = fold watch (changed_events b w) t"
    and "\<forall>v\<in>set (lc_windows b). lw_id v = lw_id w \<longrightarrow> knows_window t v"
    and "lw_id w \<notin> lw_id ` set (lc_windows b) \<longrightarrow> knows_window t w"
  shows "pc_open t' = pc_open t \<and> same_session t t' \<and> knows_window t' w \<and> (\<forall>i. i \<noteq> lw_id w \<longrightarrow> same_window t t' i)"
proof (cases "lc_index b (lw_id w)")
  case None
  with assms show ?thesis by (auto simp: changed_events_def same_session_def same_window_def well_indexed_def)
next
  case (Some k)
  then have k: "k < length (lc_windows b)" "lw_id (lc_windows b ! k) = lw_id w"
    using assms(1) by (auto simp: well_indexed_def)
  then have "knows_window t (lc_windows b ! k)" using assms(3) by auto
  with k Some show ?thesis
    by (auto simp: assms(2) changed_events_def Let_def same_session_def same_window_def knows_window_def)
qed

lemma watch_changed:
  assumes "well_indexed b"
  shows "distinct (map lw_id ws) \<Longrightarrow> t' = fold watch (concat (map (changed_events b) ws)) t \<Longrightarrow>
    \<forall>w\<in>set ws. \<forall>v\<in>set (lc_windows b). lw_id v = lw_id w \<longrightarrow> knows_window t v \<Longrightarrow>
    \<forall>w\<in>set ws. lw_id w \<notin> lw_id ` set (lc_windows b) \<longrightarrow> knows_window t w \<Longrightarrow>
    pc_open t' = pc_open t \<and> same_session t t' \<and> (\<forall>w\<in>set ws. knows_window t' w) \<and>
    (\<forall>i. i \<notin> lw_id ` set ws \<longrightarrow> same_window t t' i)"
proof (induction ws arbitrary: t)
  case Nil
  then show ?case by (simp add: same_session_def same_window_def)
next
  case (Cons w ws)
  define t1 where "t1 = fold watch (changed_events b w) t"
  have one: "pc_open t1 = pc_open t" "same_session t t1" "knows_window t1 w" "\<forall>i. i \<noteq> lw_id w \<longrightarrow> same_window t t1 i"
    using watch_changed1 [OF assms t1_def] Cons.prems(3,4) by auto
  have ne: "lw_id x \<noteq> lw_id w" if "x \<in> set ws" for x
    using Cons.prems(1) that by (metis distinct.simps(2) image_eqI list.set_map list.simps(9))
  have same: "knows_window t1 v = knows_window t v" if "x \<in> set ws" "lw_id v = lw_id x" for x v
    using knows_same [of t t1 v] one(4) ne [OF that(1)] that(2) by simp
  have IH: "pc_open t' = pc_open t1 \<and> same_session t1 t' \<and> (\<forall>w\<in>set ws. knows_window t' w) \<and>
      (\<forall>i. i \<notin> lw_id ` set ws \<longrightarrow> same_window t1 t' i)"
  proof (rule Cons.IH)
    show "distinct (map lw_id ws)" using Cons.prems(1) by simp
    show "t' = fold watch (concat (map (changed_events b) ws)) t1" using Cons.prems(2) by (simp add: t1_def)
    show "\<forall>w\<in>set ws. \<forall>v\<in>set (lc_windows b). lw_id v = lw_id w \<longrightarrow> knows_window t1 v"
      using Cons.prems(3) same by simp
    show "\<forall>w\<in>set ws. lw_id w \<notin> lw_id ` set (lc_windows b) \<longrightarrow> knows_window t1 w"
      using Cons.prems(4) same by simp
  qed
  have "lw_id w \<notin> lw_id ` set ws" using Cons.prems(1) by simp
  with IH have "knows_window t' w" using knows_same one(3) by blast
  moreover have "same_window t t' i" if "i \<notin> lw_id ` set (w # ws)" for i
    using IH one(4) that by (auto simp: same_window_def)
  ultimately show ?case using IH one(1,2) by (simp add: same_session_def)
qed

lemma diff_replay:
  assumes "well_indexed b" "well_indexed a" "knows t b"
  shows "knows (fold watch (diff_lifecycle b a) t) a"
proof -
  define t1 where "t1 = fold watch (closed_events b a) t"
  define t2 where "t2 = fold watch (created_events b a) t1"
  define t3 where "t3 = fold watch (concat (map (changed_events b) (lc_windows a))) t2"
  let ?new = "filter (\<lambda>w. lc_index b (lw_id w) = None) (lc_windows a)"
  have t1: "t1 = t\<lparr>pc_open := lw_id ` set (lc_windows b) \<inter> lw_id ` set (lc_windows a)\<rparr>"
  proof -
    have "lw_id ` set (filter (\<lambda>w. lc_index a (lw_id w) = None) (lc_windows b)) =
        lw_id ` set (lc_windows b) - lw_id ` set (lc_windows a)"
      using assms(2) by (auto simp: well_indexed_def)
    moreover have "pc_open t = lw_id ` set (lc_windows b)" using assms(3) by (simp add: knows_def)
    ultimately show ?thesis by (auto simp: t1_def closed_events_def watch_closed intro: arg_cong)
  qed
  have da: "distinct (map lw_id (lc_windows a))" using assms(2) by (simp add: well_indexed_def)
  then have t2: "pc_open t2 = pc_open t1 \<union> lw_id ` set ?new \<and> same_session t1 t2 \<and> (\<forall>w\<in>set ?new. knows_window t2 w) \<and>
      (\<forall>i. i \<notin> lw_id ` set ?new \<longrightarrow> same_window t1 t2 i)"
    using watch_created [of ?new t2 t1] by (auto simp: t2_def created_events_def distinct_map_filter)
  have new: "lw_id ` set ?new = lw_id ` set (lc_windows a) - lw_id ` set (lc_windows b)"
    using assms(1) by (auto simp: well_indexed_def)
  have old: "knows_window t2 v" if "v \<in> set (lc_windows b)" for v
  proof -
    have "knows_window t v" using assms(3) that by (simp add: knows_def)
    then have "knows_window t1 v" by (simp add: t1 knows_window_def)
    moreover have "same_window t1 t2 (lw_id v)" using t2 that new by auto
    ultimately show ?thesis by (simp add: knows_same)
  qed
  have fresh: "knows_window t2 w" if "w \<in> set (lc_windows a)" "lw_id w \<notin> lw_id ` set (lc_windows b)" for w
    using that t2 assms(1) by (auto simp: well_indexed_def)
  have t3: "pc_open t3 = pc_open t2 \<and> same_session t2 t3 \<and> (\<forall>w\<in>set (lc_windows a). knows_window t3 w)"
    using watch_changed [OF assms(1) da t3_def] old fresh by auto
  have open3: "pc_open t3 = lw_id ` set (lc_windows a)"
    using t3 t2 new by (auto simp: t1)
  have ses: "pc_workspace t3 = pc_workspace t" "pc_focus t3 = pc_focus t"
    using t3 t2 by (simp_all add: same_session_def t1)
  have "fold watch (diff_lifecycle b a) t =
      fold watch (focus_events b a) (fold watch (if lc_workspace a \<noteq> lc_workspace b \<and> lc_workspace a > 0
        then [Workspace_Switched (lc_workspace a)] else []) t3)"
    by (simp add: diff_lifecycle_def t1_def t2_def t3_def)
  with open3 ses t3 assms(3) show ?thesis
    by (auto simp: knows_def focus_events_def knows_window_def split: if_splits)
qed

end
