(* ===== verification/DaemonSession.thy ===== *)
theory DaemonSession
  imports SessionEvents "HOL-Library.AList"
begin

text \<open>
  A session of the daemon: the canonical state with the claims and holds on agent states, and the
  channel to its subscribers. \<open>mutate\<close> is \<^verbatim>\<open>mutateState\<close>; its body may change the session in place
  and then refuse, in which case what it changed stays, the version does not move and nobody is
  told. The window operations are those of \<^verbatim>\<open>internal/session/session_ops.go\<close>.
\<close>

subsection \<open>The session\<close>

datatype agent_source = Source_Unset | Source_Report | Source_OSC | Source_Screen | Source_Detect | Source_Stall

record agent_prior =
  pr_source :: agent_source
  pr_state :: agent_state
  pr_harness :: string

record agent_claim =
  ac_source :: agent_source
  ac_harness :: string
  ac_auto :: bool
  ac_blocker :: bool
  ac_prior :: agent_prior

record agent_hold =
  ah_state :: agent_state
  ah_source :: agent_source
  ah_since :: int

record session =
  se_state :: session_state
  se_claims :: "string \<rightharpoonup> agent_claim"
  se_holds :: "(string \<times> agent_hold) list"
  se_timer :: "int option"
  se_events :: "session_event list"
  se_dirty :: bool
  se_sink :: bool
  se_pushed :: int
  se_sent :: "session_state list"
  se_width :: int
  se_height :: int
  se_ptys :: "string set"

subsection \<open>Changing the state\<close>

text \<open>\<^verbatim>\<open>publishState\<close>: a snapshot no newer than the last one sent is dropped.\<close>

definition publish_state :: "session_state \<Rightarrow> session \<Rightarrow> session" where
  "publish_state snap se =
     (if \<not> se_sink se \<or> ss_version snap \<le> se_pushed se then se
      else se\<lparr>se_pushed := ss_version snap, se_sent := se_sent se @ [snap]\<rparr>)"

definition emit_lifecycle :: "session_state \<Rightarrow> session \<Rightarrow> session" where
  "emit_lifecycle before se =
     se\<lparr>se_events := se_events se @ diff_lifecycle (snapshot_lifecycle before) (snapshot_lifecycle (se_state se))\<rparr>"

type_synonym body = "session \<Rightarrow> session \<times> session_error option"

definition mutate :: "body \<Rightarrow> body" where
  "mutate f se =
     (case f se of
        (se1, Some e) \<Rightarrow> (se1, Some e)
      | (se1, None) \<Rightarrow>
        let st = (se_state se1)\<lparr>ss_version := ss_version (se_state se1) + 1\<rparr>;
            se2 = emit_lifecycle (se_state se) (se1\<lparr>se_state := st, se_dirty := True\<rparr>)
        in (publish_state st se2, None))"

definition set_state :: "(session_state \<Rightarrow> session_state) \<Rightarrow> session \<Rightarrow> session" where
  "set_state f se = se\<lparr>se_state := f (se_state se)\<rparr>"

text \<open>A body that finds its window first and changes the state only.\<close>

definition on_window :: "string \<Rightarrow> (nat \<Rightarrow> session_state \<Rightarrow> session_state) \<Rightarrow> body" where
  "on_window target f se =
     (case find_window (ss_windows (se_state se)) target of
        Inl e \<Rightarrow> (se, Some e) | Inr i \<Rightarrow> (set_state (f i) se, None))"

definition change_window :: "nat \<Rightarrow> (window_state \<Rightarrow> window_state) \<Rightarrow> session_state \<Rightarrow> session_state" where
  "change_window i f s = s\<lparr>ss_windows := (ss_windows s)[i := f (ss_windows s ! i)]\<rparr>"

text \<open>A missing entry of a Go map of strings reads as the empty string.\<close>

definition map_str :: "('k \<rightharpoonup> string) option \<Rightarrow> 'k \<Rightarrow> string" where
  "map_str m k = (case map_get m k of None \<Rightarrow> [] | Some v \<Rightarrow> v)"

subsection \<open>Windows\<close>

fun first_visible :: "window_state list \<Rightarrow> int \<Rightarrow> string" where
  "first_visible [] ws = []"
| "first_visible (w # wins) ws = (if wn_workspace w = ws \<and> \<not> wn_minimized w then wn_id w else first_visible wins ws)"

definition previous_visible :: "window_state list \<Rightarrow> int \<Rightarrow> nat \<Rightarrow> string" where
  "previous_visible wins ws idx = first_visible (rev (take idx wins)) ws"

definition daemon_window_size :: "session \<Rightarrow> int \<times> int \<times> int \<times> int" where
  "daemon_window_size se =
     (let w = (if se_width se \<le> 0 then 80 else se_width se); h = (if se_height se \<le> 0 then 24 else se_height se)
      in (w, h, max (w - 2) 1, max (h - 2) 1))"

text \<open>\<open>uid\<close> is the fresh identifier, \<open>initial\<close> the configured title format (empty when there is none).\<close>

definition resolve_title :: "string \<Rightarrow> string \<Rightarrow> string \<Rightarrow> string" where
  "resolve_title uid initial title =
     (if title \<noteq> [] then title else if initial \<noteq> [] then initial else ''Terminal '' @ take 8 uid)"

definition new_window :: "string \<Rightarrow> string \<Rightarrow> int \<Rightarrow> int \<Rightarrow> int \<Rightarrow> string \<Rightarrow> bool \<Rightarrow> window_state" where
  "new_window uid title ws w h pty locked =
     \<lparr>wn_id = uid, wn_title = title, wn_custom = [], wn_x = 0, wn_y = 0, wn_width = w, wn_height = h, wn_z = 0,
      wn_workspace = ws, wn_minimized = False, wn_pre = (0, 0, 0, 0), wn_pty = pty, wn_alt = False,
      wn_title_locked = locked, wn_cwd = [], wn_unplaced = True, wn_agent = Agent_None, wn_message = [],
      wn_agent_at = 0, wn_harness = [], wn_command = []\<rparr>"

definition register_window :: "string \<Rightarrow> string \<Rightarrow> int \<Rightarrow> int \<Rightarrow> string \<Rightarrow> bool \<Rightarrow> body" where
  "register_window uid title w h pty locked se =
     (set_state (\<lambda>s.
        let ws = (if ss_workspace s < 1 then 1 else ss_workspace s)
        in s\<lparr>ss_workspace := ws, ss_windows := ss_windows s @ [new_window uid title ws w h pty locked],
             ss_focused := uid, ss_ws_focus := map_put ws uid (ss_ws_focus s)\<rparr>) se, None)"

text \<open>\<open>pty\<close> is what \<^verbatim>\<open>CreatePTY\<close> or \<^verbatim>\<open>AdoptPTY\<close> returned: \<open>None\<close> when it failed.\<close>

definition add_daemon_window :: "string \<Rightarrow> string \<Rightarrow> bool \<Rightarrow> string \<Rightarrow> string option \<Rightarrow> session \<Rightarrow> session" where
  "add_daemon_window uid initial locked title pty se =
     (case pty of None \<Rightarrow> se
      | Some p \<Rightarrow>
        let (w, h, pw, ph) = daemon_window_size se
        in fst (mutate (register_window uid (resolve_title uid initial title) w h p locked)
             (se\<lparr>se_ptys := insert p (se_ptys se)\<rparr>)))"

definition close_state :: "bool \<Rightarrow> nat \<Rightarrow> session_state \<Rightarrow> session_state" where
  "close_state previous i s =
     (let gone = ss_windows s ! i; ws = wn_workspace gone; wins = remove_nth i (ss_windows s);
          f = (if ss_focused s = wn_id gone
               then let p = (if previous then previous_visible wins ws i else [])
                    in if p = [] then first_visible wins ws else p
               else ss_focused s);
          wf = (if ss_ws_focus s \<noteq> None \<and> map_str (ss_ws_focus s) ws = wn_id gone
                then let m = map_delete ws (ss_ws_focus s)
                     in if f \<noteq> [] \<and> (\<exists>w\<in>set wins. wn_id w = f \<and> wn_workspace w = ws) then map_put ws f m else m
                else ss_ws_focus s)
      in s\<lparr>ss_windows := wins, ss_focused := f, ss_ws_focus := wf\<rparr>)"

definition close_window :: "bool \<Rightarrow> string \<Rightarrow> body" where
  "close_window previous target se =
     (case find_window (ss_windows (se_state se)) target of
        Inl e \<Rightarrow> (se, Some e)
      | Inr i \<Rightarrow> ((set_state (close_state previous i) se)
          \<lparr>se_claims := (se_claims se)(wn_id (ss_windows (se_state se) ! i) := None)\<rparr>, None))"

definition close_daemon_window :: "bool \<Rightarrow> string \<Rightarrow> session \<Rightarrow> session \<times> (session_error + string)" where
  "close_daemon_window previous target se =
     (case mutate (close_window previous target) se of
        (se1, Some e) \<Rightarrow> (se1, Inl e)
      | (se1, None) \<Rightarrow>
        (case find_window (ss_windows (se_state se)) target of
           Inl e \<Rightarrow> (se1, Inl e)
         | Inr i \<Rightarrow> let gone = ss_windows (se_state se) ! i
             in (se1\<lparr>se_ptys := se_ptys se1 - {wn_pty gone}\<rparr>, Inr (wn_id gone))))"

definition focus_window :: "string \<Rightarrow> body" where
  "focus_window target = on_window target (\<lambda>i s.
     let w = ss_windows s ! i
     in s\<lparr>ss_focused := wn_id w, ss_workspace := wn_workspace w,
          ss_ws_focus := map_put (wn_workspace w) (wn_id w) (ss_ws_focus s)\<rparr>)"

definition cycle_focus :: "int \<Rightarrow> body" where
  "cycle_focus delta se =
     (let s = se_state se; wins = filter (\<lambda>w. wn_workspace w = ss_workspace s) (ss_windows s); n = int (length wins)
      in if wins = [] then (se, Some (No_Windows_On (ss_workspace s)))
         else let pos = fst (last_index (\<lambda>w. wn_id w = ss_focused s) 0 (- 1, 0) wins);
                  cur = (if pos = - 1 then 0 else pos); step = (if delta < 0 then - 1 else 1);
                  nxt = go_mod (go_mod (cur + step) n + n) n; w = wins ! nat nxt
              in (set_state (\<lambda>s. s\<lparr>ss_focused := wn_id w,
                    ss_ws_focus := map_put (ss_workspace s) (wn_id w) (ss_ws_focus s)\<rparr>) se, None))"

definition rename_window :: "string \<Rightarrow> string \<Rightarrow> body" where
  "rename_window target name = on_window target (\<lambda>i. change_window i (\<lambda>w. w\<lparr>wn_custom := name\<rparr>))"

definition in_range_ws :: "int \<Rightarrow> session_state \<Rightarrow> bool" where
  "in_range_ws ws s \<longleftrightarrow> 1 \<le> ws \<and> ws \<le> workspace_bound s"

definition move_window :: "string \<Rightarrow> int \<Rightarrow> body" where
  "move_window target ws se =
     (if \<not> in_range_ws ws (se_state se) then (se, Some (Out_Of_Range ws (workspace_bound (se_state se))))
      else on_window target (\<lambda>i s.
        let old = wn_workspace (ss_windows s ! i); s1 = change_window i (\<lambda>w. w\<lparr>wn_workspace := ws\<rparr>) s
        in if ss_ws_focus s1 \<noteq> None \<and> map_str (ss_ws_focus s1) old = wn_id (ss_windows s1 ! i)
           then s1\<lparr>ss_ws_focus := map_delete old (ss_ws_focus s1)\<rparr> else s1) se)"

definition name_workspace :: "int \<Rightarrow> string \<Rightarrow> body" where
  "name_workspace ws name se =
     (if \<not> in_range_ws ws (se_state se) then (se, Some (Out_Of_Range ws (workspace_bound (se_state se))))
      else (set_state (\<lambda>s. if name = [] then s\<lparr>ss_ws_names := map_delete ws (ss_ws_names s)\<rparr>
             else s\<lparr>ss_ws_names := map_put ws name (ss_ws_names s)\<rparr>) se, None))"

definition switch_workspace :: "int \<Rightarrow> body" where
  "switch_workspace ws se =
     (if \<not> in_range_ws ws (se_state se) then (se, Some (Out_Of_Range ws (workspace_bound (se_state se))))
      else (set_state (\<lambda>s. s\<lparr>ss_workspace := ws,
              ss_focused := (case map_get (ss_ws_focus s) ws of Some f \<Rightarrow> f | None \<Rightarrow> ss_focused s)\<rparr>) se, None))"

definition set_minimized :: "string \<Rightarrow> bool \<Rightarrow> body" where
  "set_minimized target m = on_window target (\<lambda>i. change_window i (\<lambda>w. w\<lparr>wn_minimized := m\<rparr>))"

definition set_display_name :: "string \<Rightarrow> body" where
  "set_display_name name se = (set_state (\<lambda>s. s\<lparr>ss_display := name\<rparr>) se, None)"

subsection \<open>A history of mutations\<close>

text \<open>What a body must leave alone: the channel and the version, which only \<open>mutate\<close> moves.\<close>

definition same_channel :: "session \<Rightarrow> session \<Rightarrow> bool" where
  "same_channel s s' \<longleftrightarrow> se_events s' = se_events s \<and> se_sink s' = se_sink s \<and> se_pushed s' = se_pushed s \<and>
     se_sent s' = se_sent s \<and> ss_version (se_state s') = ss_version (se_state s)"

text \<open>Once something was sent, nothing newer than the state has been, and the newest was last.\<close>

definition channel_ok :: "session \<Rightarrow> bool" where
  "channel_ok s \<longleftrightarrow> se_pushed s \<le> ss_version (se_state s) \<and>
     sorted_wrt (<) (map ss_version (se_sent s)) \<and> (\<forall>x\<in>set (se_sent s). ss_version x \<le> se_pushed s)"

fun run_all :: "('op \<Rightarrow> body) \<Rightarrow> 'op list \<Rightarrow> session \<Rightarrow> session" where
  "run_all f [] s = s"
| "run_all f (x # xs) s = run_all f xs (fst (mutate (f x) s))"

fun admissible :: "('op \<Rightarrow> session \<Rightarrow> bool) \<Rightarrow> ('op \<Rightarrow> body) \<Rightarrow> 'op list \<Rightarrow> session \<Rightarrow> bool" where
  "admissible ok f [] s = True"
| "admissible ok f (x # xs) s = (ok x s \<and> admissible ok f xs (fst (mutate (f x) s)))"

fun applied :: "('op \<Rightarrow> body) \<Rightarrow> 'op list \<Rightarrow> session \<Rightarrow> nat" where
  "applied f [] s = 0"
| "applied f (x # xs) s = (if snd (mutate (f x) s) = None then 1 else 0) + applied f xs (fst (mutate (f x) s))"

locale state_mutation =
  fixes body :: "'op \<Rightarrow> body"
    and admitted :: "'op \<Rightarrow> session \<Rightarrow> bool"
    and inv :: "session_state \<Rightarrow> bool"
  assumes keeps: "inv (se_state s) \<Longrightarrow> admitted x s \<Longrightarrow> body x s = (s', None) \<Longrightarrow> inv (se_state s')"
    and refused: "inv (se_state s) \<Longrightarrow> body x s = (s', Some e) \<Longrightarrow> se_state s' = se_state s"
    and quiet: "inv (se_state s) \<Longrightarrow> body x s = (s', r) \<Longrightarrow> same_channel s s'"
    and inv_version: "inv st \<Longrightarrow> inv (st\<lparr>ss_version := v\<rparr>)"
    and inv_distinct: "inv st \<Longrightarrow> distinct (window_ids_of st)"
begin

lemma refused_step:
  assumes i: "inv (se_state s)" and m: "mutate (body x) s = (s', Some e)"
  shows "se_state s' = se_state s \<and> same_channel s s'"
proof -
  obtain s1 r where b: "body x s = (s1, r)" by fastforce
  show ?thesis
  proof (cases r)
    case None
    with m b show ?thesis by (simp add: mutate_def Let_def)
  next
    case (Some er)
    with m b have "s' = s1" by (simp add: mutate_def)
    with refused [of s x s1 er] quiet [OF i b] i b Some show ?thesis by simp
  qed
qed

lemma applied_step:
  assumes i: "inv (se_state s)" and "mutate (body x) s = (s', None)"
  shows "\<exists>s1. body x s = (s1, None) \<and>
    se_state s' = (se_state s1)\<lparr>ss_version := ss_version (se_state s) + 1\<rparr> \<and>
    se_events s' = se_events s @ diff_lifecycle (snapshot_lifecycle (se_state s)) (snapshot_lifecycle (se_state s')) \<and>
    (channel_ok s \<longrightarrow> channel_ok s' \<and> (se_sink s \<longrightarrow> se_sent s' = se_sent s @ [se_state s'])) \<and> se_sink s' = se_sink s"
proof -
  obtain s1 r where b0: "body x s = (s1, r)" by fastforce
  then have b: "body x s = (s1, None)" using assms(2) by (cases r) (simp_all add: mutate_def)
  have q: "same_channel s s1" by (rule quiet [OF i b])
  define st where "st = (se_state s1)\<lparr>ss_version := ss_version (se_state s) + 1\<rparr>"
  have s': "s' = publish_state st (emit_lifecycle (se_state s) (s1\<lparr>se_state := st, se_dirty := True\<rparr>))"
    using assms(2) b q by (simp add: mutate_def Let_def st_def same_channel_def)
  have st': "se_state s' = st" by (simp add: s' publish_state_def emit_lifecycle_def)
  have ev: "se_events s' = se_events s @ diff_lifecycle (snapshot_lifecycle (se_state s)) (snapshot_lifecycle st)"
    using q by (simp add: s' publish_state_def emit_lifecycle_def same_channel_def)
  have "channel_ok s' \<and> (se_sink s \<longrightarrow> se_sent s' = se_sent s @ [st])" if "channel_ok s"
  proof -
    have "\<forall>x\<in>set (se_sent s). ss_version x < ss_version (se_state s) + 1" "se_pushed s \<le> ss_version (se_state s)"
      using that by (fastforce simp: channel_ok_def)+
    with that q show ?thesis
      by (auto simp: s' publish_state_def emit_lifecycle_def channel_ok_def same_channel_def st_def
          sorted_wrt_append)
  qed
  moreover have "se_sink s' = se_sink s" using q by (simp add: s' publish_state_def emit_lifecycle_def same_channel_def)
  ultimately show ?thesis using b st' ev by (auto simp: st_def)
qed

lemma step_inv:
  assumes "inv (se_state s)" "admitted x s"
  shows "inv (se_state (fst (mutate (body x) s)))"
proof (cases "mutate (body x) s")
  case (Pair s' e)
  show ?thesis
  proof (cases e)
    case None
    with applied_step [OF assms(1), of x s'] Pair keeps [OF assms] inv_version show ?thesis by fastforce
  next
    case (Some er)
    with refused_step [OF assms(1)] Pair assms(1) show ?thesis by auto
  qed
qed

lemma step_picture:
  assumes "inv (se_state s)" "admitted x s"
  shows "\<exists>evs. se_events (fst (mutate (body x) s)) = se_events s @ evs \<and>
    (\<forall>t. knows t (snapshot_lifecycle (se_state s)) \<longrightarrow>
       knows (fold watch evs t) (snapshot_lifecycle (se_state (fst (mutate (body x) s)))))"
proof (cases "mutate (body x) s")
  case (Pair s' e)
  show ?thesis
  proof (cases e)
    case None
    have "distinct (window_ids_of (se_state s'))" using step_inv [OF assms] Pair inv_distinct by simp
    then show ?thesis
      using applied_step [OF assms(1), of x s'] Pair None diff_replay snapshot_well_indexed inv_distinct [OF assms(1)] by fastforce
  next
    case (Some er)
    with refused_step [OF assms(1)] Pair show ?thesis by (intro exI [of _ "[]"]) (auto simp: same_channel_def)
  qed
qed

lemma step_channel:
  assumes "inv (se_state s)" "channel_ok s"
  shows "channel_ok (fst (mutate (body x) s)) \<and> se_sink (fst (mutate (body x) s)) = se_sink s \<and>
    ss_version (se_state (fst (mutate (body x) s))) =
      ss_version (se_state s) + (if snd (mutate (body x) s) = None then 1 else 0)"
proof (cases "mutate (body x) s")
  case (Pair s' e)
  show ?thesis
  proof (cases e)
    case None
    with applied_step [OF assms(1), of x s'] Pair assms show ?thesis by auto
  next
    case (Some er)
    with refused_step [OF assms(1)] Pair assms show ?thesis by (auto simp: channel_ok_def same_channel_def)
  qed
qed

lemma run_inv: "inv (se_state s) \<Longrightarrow> admissible admitted body xs s \<Longrightarrow> inv (se_state (run_all body xs s))"
  by (induction xs arbitrary: s) (auto intro: step_inv)

lemma run_picture:
  "inv (se_state s) \<Longrightarrow> admissible admitted body xs s \<Longrightarrow>
   \<exists>evs. se_events (run_all body xs s) = se_events s @ evs \<and>
     (\<forall>t. knows t (snapshot_lifecycle (se_state s)) \<longrightarrow>
        knows (fold watch evs t) (snapshot_lifecycle (se_state (run_all body xs s))))"
proof (induction xs arbitrary: s)
  case Nil
  then show ?case by simp
next
  case (Cons x xs)
  let ?s1 = "fst (mutate (body x) s)"
  have ok: "admitted x s" "admissible admitted body xs ?s1" using Cons.prems(2) by auto
  obtain e1 where e1: "se_events ?s1 = se_events s @ e1"
      "\<And>t. knows t (snapshot_lifecycle (se_state s)) \<Longrightarrow> knows (fold watch e1 t) (snapshot_lifecycle (se_state ?s1))"
    using step_picture [OF Cons.prems(1) ok(1)] by blast
  obtain e2 where e2: "se_events (run_all body xs ?s1) = se_events ?s1 @ e2"
      "\<And>t. knows t (snapshot_lifecycle (se_state ?s1)) \<Longrightarrow>
        knows (fold watch e2 t) (snapshot_lifecycle (se_state (run_all body xs ?s1)))"
    using Cons.IH [OF step_inv [OF Cons.prems(1) ok(1)] ok(2)] by blast
  show ?case
  proof (intro exI [of _ "e1 @ e2"] conjI allI impI)
    show "se_events (run_all body (x # xs) s) = se_events s @ e1 @ e2" using e1(1) e2(1) by simp
    fix t
    assume "knows t (snapshot_lifecycle (se_state s))"
    from e2(2) [OF e1(2) [OF this]] show "knows (fold watch (e1 @ e2) t)
        (snapshot_lifecycle (se_state (run_all body (x # xs) s)))" by simp
  qed
qed

lemma run_channel:
  "inv (se_state s) \<Longrightarrow> channel_ok s \<Longrightarrow> admissible admitted body xs s \<Longrightarrow> channel_ok (run_all body xs s) \<and>
   ss_version (se_state (run_all body xs s)) = ss_version (se_state s) + int (applied body xs s)"
proof (induction xs arbitrary: s)
  case (Cons x xs)
  then have "admitted x s" by simp
  note st = step_inv [OF Cons.prems(1) this] step_channel [OF Cons.prems(1,2), of x]
  with Cons.IH [of "fst (mutate (body x) s)"] Cons.prems(3) show ?case by auto
qed simp

end

end
