(* ===== verification/DaemonWindows.thy ===== *)
theory DaemonWindows
  imports DaemonSession
begin

text \<open>
  The window operations keep the session coherent: identifiers stay distinct, the focused window
  exists, and every workspace remembers a window that is on it. A target names at most one window.
\<close>

subsection \<open>Resolving a target\<close>

lemma first_index_Some: "first_index P xs = Some i \<Longrightarrow> i < length xs \<and> P (xs ! i) \<and> (\<forall>j<i. \<not> P (xs ! j))"
proof (induction xs arbitrary: i)
  case (Cons x xs)
  then show ?case by (cases i) (auto split: if_splits simp: less_Suc_eq_0_disj)
qed simp

lemma first_index_None: "first_index P xs = None \<longleftrightarrow> (\<forall>x\<in>set xs. \<not> P x)"
  by (induction xs) auto

lemma last_index_count: "snd (last_index P i (p, n) xs) = n + length (filter P xs)"
  by (induction xs arbitrary: i p n) auto

lemma last_index_some:
  "filter P xs \<noteq> [] \<Longrightarrow>
   \<exists>j<length xs. fst (last_index P i (p, n) xs) = int (i + j) \<and> P (xs ! j) \<and> (\<forall>k. j < k \<and> k < length xs \<longrightarrow> \<not> P (xs ! k))"
proof (induction xs arbitrary: i p n)
  case (Cons x xs)
  show ?case
  proof (cases "filter P xs = []")
    case False
    from Cons.IH [OF False, of "Suc i" "if P x then int i else p" "if P x then n + 1 else n"]
    obtain j where j: "j < length xs" "P (xs ! j)" "\<forall>k. j < k \<and> k < length xs \<longrightarrow> \<not> P (xs ! k)"
      "fst (last_index P (Suc i) (if P x then int i else p, if P x then n + 1 else n) xs) = int (Suc i + j)" by blast
    then show ?thesis
      by (intro exI [of _ "Suc j"]) (auto simp: nth_Cons split: nat.splits if_splits)
  next
    case True
    then have "last_index P k a xs = a" for k a
      by (induction xs arbitrary: k) auto
    with True Cons.prems show ?thesis
      by (intro exI [of _ 0]) (auto simp: filter_empty_conv nth_Cons split: nat.splits if_splits)
  qed
qed simp

lemma last_index_none: "filter P xs = [] \<Longrightarrow> last_index P i a xs = a"
  by (induction xs arbitrary: i) (auto split: if_splits)

lemma last_index_unique:
  fixes xs :: "'a list"
  assumes "length (filter P xs) = 1" "last_index P 0 (- 1, 0) xs = (p, n)"
  shows "n = 1 \<and> nat p < length xs \<and> P (xs ! nat p) \<and> (\<forall>k<length xs. P (xs ! k) \<longrightarrow> k = nat p)"
proof -
  have ne: "filter P xs \<noteq> []"
  proof
    assume "filter P xs = []"
    with assms(1) show False by simp
  qed
  obtain j where j0: "j < length xs \<and> fst (last_index P 0 (- 1, 0) xs) = int (0 + j) \<and> P (xs ! j) \<and>
      (\<forall>k. j < k \<and> k < length xs \<longrightarrow> \<not> P (xs ! k))"
    using last_index_some [OF ne, of 0 "- 1" 0] ..
  then have j: "j < length xs" "fst (last_index P 0 (- 1, 0) xs) = int (0 + j)" "P (xs ! j)" by simp_all
  have "card {i. i < length xs \<and> P (xs ! i)} = 1" using assms(1) length_filter_conv_card [of P xs] by simp
  then obtain m where m: "{i. i < length xs \<and> P (xs ! i)} = {m}" by (rule card_1_singletonE)
  have uniq: "k = m" if "k < length xs" "P (xs ! k)" for k
  proof -
    have "k \<in> {i. i < length xs \<and> P (xs ! i)}" using that by simp
    then show ?thesis unfolding m by simp
  qed
  have "j = m" by (rule uniq [OF j(1,3)])
  have p: "nat p = j" using j(2) assms(2) by simp
  have n: "n = 1" using last_index_count [of P 0 "- 1" 0 xs] assms by simp
  show ?thesis unfolding p n using j(1,3) uniq \<open>j = m\<close> by blast
qed

definition named_by :: "window_state list \<Rightarrow> string \<Rightarrow> nat \<Rightarrow> bool" where
  "named_by ws target i \<longleftrightarrow> i < length ws \<and>
     (wn_id (ws ! i) = target \<or> window_index_target target (length ws) = Some i \<or>
      (prefix target (wn_id (ws ! i)) \<and> (\<forall>j<length ws. prefix target (wn_id (ws ! j)) \<longrightarrow> j = i)) \<or>
      (target \<in> {wn_custom (ws ! i), wn_title (ws ! i)} \<and>
       (\<forall>j<length ws. target \<in> {wn_custom (ws ! j), wn_title (ws ! j)} \<longrightarrow> j = i)))"

lemma find_window_named:
  assumes "find_window ws target = Inr i"
  shows "named_by ws target i"
proof (cases "first_index (\<lambda>w. wn_id w = target) ws")
  case (Some j)
  with assms first_index_Some [OF Some] show ?thesis by (auto simp: find_window_def named_by_def split: if_splits)
next
  case None
  show ?thesis
  proof (cases "window_index_target target (length ws)")
    case (Some j)
    then have "j < length ws" by (auto simp: window_index_target_def split: if_splits option.splits)
    with Some None assms show ?thesis by (auto simp: find_window_def named_by_def split: if_splits)
  next
    case None2: None
    define P where "P = (\<lambda>w :: window_state. prefix target (wn_id w))"
    define N where "N = (\<lambda>w :: window_state. wn_custom w = target \<or> wn_title w = target)"
    obtain p pn where p: "last_index P 0 (- 1, 0) ws = (p, pn)" by fastforce
    obtain q qn where q: "last_index N 0 (- 1, 0) ws = (q, qn)" by fastforce
    have cnt: "pn = length (filter P ws)" "qn = length (filter N ws)"
      using last_index_count [of P 0 "- 1" 0 ws] last_index_count [of N 0 "- 1" 0 ws] p q by auto
    have "pn = 1 \<and> i = nat p \<or> qn = 1 \<and> i = nat q"
      using assms None None2 p q
      by (auto simp: find_window_def P_def [symmetric] N_def [symmetric] Let_def split: if_splits)
    then show ?thesis
    proof
      assume "pn = 1 \<and> i = nat p"
      with last_index_unique [of P ws p pn] p cnt show ?thesis by (simp add: named_by_def P_def)
    next
      assume "qn = 1 \<and> i = nat q"
      with last_index_unique [of N ws q qn] q cnt show ?thesis by (auto simp: named_by_def N_def)
    qed
  qed
qed

lemma find_window_bound: "find_window ws target = Inr i \<Longrightarrow> i < length ws"
  using find_window_named by (auto simp: named_by_def)


definition sample_window :: "string \<Rightarrow> string \<Rightarrow> int \<Rightarrow> window_state" where
  "sample_window i pty ws = new_window i ''shell'' ws 80 24 pty False"


subsection \<open>The invariant\<close>

definition daemon_inv :: "session_state \<Rightarrow> bool" where
  "daemon_inv s \<longleftrightarrow> distinct (window_ids_of s) \<and> [] \<notin> set (window_ids_of s) \<and>
     (ss_focused s = [] \<or> ss_focused s \<in> set (window_ids_of s)) \<and>
     (\<forall>k i. map_get (ss_ws_focus s) k = Some i \<longrightarrow> (\<exists>w\<in>set (ss_windows s). wn_id w = i \<and> wn_workspace w = k))"

lemma daemon_inv_focus: "daemon_inv s \<Longrightarrow> map_get (ss_ws_focus s) k = Some i \<Longrightarrow> i \<in> set (window_ids_of s)"
  by (force simp: daemon_inv_def window_ids_of_def)

text \<open>Operations that change no identifier, no workspace of a window and no focus.\<close>

lemma daemon_inv_same:
  assumes "map (\<lambda>w. (wn_id w, wn_workspace w)) (ss_windows s') = map (\<lambda>w. (wn_id w, wn_workspace w)) (ss_windows s)"
    and "ss_focused s' = ss_focused s" "ss_ws_focus s' = ss_ws_focus s" "daemon_inv s"
  shows "daemon_inv s'"
proof -
  have "map fst (map (\<lambda>w. (wn_id w, wn_workspace w)) (ss_windows s')) =
      map fst (map (\<lambda>w. (wn_id w, wn_workspace w)) (ss_windows s))" using assms(1) by simp
  then have ids: "window_ids_of s' = window_ids_of s" by (simp add: window_ids_of_def comp_def)
  have im: "(\<lambda>w. (wn_id w, wn_workspace w)) ` set (ss_windows s') = (\<lambda>w. (wn_id w, wn_workspace w)) ` set (ss_windows s)"
    using arg_cong [OF assms(1), of set] by simp
  have "(\<exists>w\<in>set (ss_windows s'). wn_id w = i \<and> wn_workspace w = k) =
      (\<exists>w\<in>set (ss_windows s). wn_id w = i \<and> wn_workspace w = k)" for i k
  proof -
    have *: "(\<exists>w\<in>A. wn_id w = i \<and> wn_workspace w = k) = ((i, k) \<in> (\<lambda>w. (wn_id w, wn_workspace w)) ` A)"
      for A :: "window_state set" by auto
    show ?thesis unfolding * im ..
  qed
  with assms(2-4) ids show ?thesis by (simp add: daemon_inv_def)
qed

lemma change_window_pairs:
  "\<forall>w. wn_id (f w) = wn_id w \<and> wn_workspace (f w) = wn_workspace w \<Longrightarrow>
   map (\<lambda>w. (wn_id w, wn_workspace w)) (ss_windows (change_window i f s)) =
   map (\<lambda>w. (wn_id w, wn_workspace w)) (ss_windows s)"
  by (cases "i < length (ss_windows s)")
    (auto simp: change_window_def map_update list_update_same_conv list_update_beyond)

lemma change_window_inv:
  "daemon_inv s \<Longrightarrow> \<forall>w. wn_id (f w) = wn_id w \<and> wn_workspace (f w) = wn_workspace w \<Longrightarrow> daemon_inv (change_window i f s)"
  by (rule daemon_inv_same [OF change_window_pairs]) (auto simp: change_window_def)

subsection \<open>Each operation\<close>

lemma register_inv:
  assumes "daemon_inv s" "uid \<notin> set (window_ids_of s)" "uid \<noteq> []"
    and "register_window uid title w h pty locked se = (se', None)" "se_state se = s"
  shows "daemon_inv (se_state se')"
proof -
  define k where "k = (if ss_workspace s < 1 then 1 else ss_workspace s)"
  have s': "se_state se' = s\<lparr>ss_workspace := k, ss_windows := ss_windows s @ [new_window uid title k w h pty locked],
      ss_focused := uid, ss_ws_focus := map_put k uid (ss_ws_focus s)\<rparr>"
    using assms(4,5) by (auto simp: register_window_def set_state_def k_def Let_def)
  show ?thesis
    using assms(1-3) unfolding s' daemon_inv_def
    by (auto simp: window_ids_of_def new_window_def split: if_splits)
qed

lemma remove_nth_ids:
  assumes "distinct (map wn_id ws)" "i < length ws"
  shows "distinct (map wn_id (remove_nth i ws))" "set (remove_nth i ws) = {w \<in> set ws. wn_id w \<noteq> wn_id (ws ! i)}"
proof -
  have ws: "ws = take i ws @ ws ! i # drop (Suc i) ws" using assms(2) by (rule id_take_nth_drop)
  have d: "distinct (map wn_id (take i ws @ ws ! i # drop (Suc i) ws))" using assms(1) ws by metis
  then show "distinct (map wn_id (remove_nth i ws))" by (auto simp: remove_nth_def)
  have "set ws = set (take i ws) \<union> {ws ! i} \<union> set (drop (Suc i) ws)"
    by (subst ws) (simp add: Un_commute Un_left_commute insert_is_Un [symmetric])
  moreover have "x \<notin> set (take i ws) \<union> set (drop (Suc i) ws)" if "wn_id x = wn_id (ws ! i)" for x
    using d that by (auto simp: image_iff)
  ultimately show "set (remove_nth i ws) = {w \<in> set ws. wn_id w \<noteq> wn_id (ws ! i)}"
    by (auto simp: remove_nth_def)
qed

lemma first_visible_in: "first_visible ws k \<noteq> [] \<Longrightarrow> \<exists>w\<in>set ws. wn_id w = first_visible ws k \<and> wn_workspace w = k \<and> \<not> wn_minimized w"
  by (induction ws) (auto split: if_splits)

lemma close_inv:
  assumes "daemon_inv s" "i < length (ss_windows s)"
  shows "daemon_inv (close_state previous i s)"
proof -
  define gone where "gone = ss_windows s ! i"
  define wins where "wins = remove_nth i (ss_windows s)"
  define k where "k = wn_workspace gone"
  define s' where "s' = close_state previous i s"
  have d: "distinct (map wn_id (ss_windows s))" "[] \<notin> set (window_ids_of s)"
    using assms(1) by (auto simp: daemon_inv_def window_ids_of_def)
  have ids: "set wins = {w \<in> set (ss_windows s). wn_id w \<noteq> wn_id gone}" "distinct (map wn_id wins)"
    using remove_nth_ids [OF d(1) assms(2)] by (auto simp: wins_def gone_def)
  define p where "p = (if previous then previous_visible wins k i else [])"
  define f where "f = (if ss_focused s = wn_id gone then if p = [] then first_visible wins k else p else ss_focused s)"
  define m where "m = map_delete k (ss_ws_focus s)"
  define wf where "wf =
      (if ss_ws_focus s \<noteq> None \<and> map_str (ss_ws_focus s) k = wn_id gone
       then if f \<noteq> [] \<and> (\<exists>w\<in>set wins. wn_id w = f \<and> wn_workspace w = k) then map_put k f m else m
       else ss_ws_focus s)"
  have "s' = s\<lparr>ss_windows := wins, ss_focused := f, ss_ws_focus := wf\<rparr>"
    by (simp only: s'_def close_state_def Let_def wins_def gone_def k_def p_def f_def m_def wf_def)
  then have win: "ss_windows s' = wins" and foc: "ss_focused s' = f" and wf: "ss_ws_focus s' = wf" by simp_all
  have "p \<in> wn_id ` set wins" if ne: "p \<noteq> []"
  proof -
    have p: "p = first_visible (rev (take i wins)) k" using ne by (auto simp: p_def previous_visible_def split: if_splits)
    have "first_visible (rev (take i wins)) k \<noteq> []" using p ne by metis
    then have "\<exists>w\<in>set (take i wins). wn_id w = p"
      unfolding p using first_visible_in [of "rev (take i wins)" k] by simp blast
    then show ?thesis using set_take_subset [of i wins] by blast
  qed
  moreover have "first_visible wins k = [] \<or> first_visible wins k \<in> wn_id ` set wins"
    using first_visible_in [of wins k] by (metis image_eqI)
  moreover have "ss_focused s = [] \<or> ss_focused s = wn_id gone \<or> ss_focused s \<in> wn_id ` set wins"
    using assms(1) ids(1) by (auto simp: daemon_inv_def window_ids_of_def)
  ultimately have foc_in: "ss_focused s' = [] \<or> ss_focused s' \<in> wn_id ` set wins"
    unfolding foc f_def by (cases "ss_focused s = wn_id gone"; cases "p = []") simp_all
  have "\<exists>w\<in>set wins. wn_id w = j \<and> wn_workspace w = l" if j: "map_get (ss_ws_focus s') l = Some j" for l j
  proof (cases "ss_ws_focus s \<noteq> None \<and> map_str (ss_ws_focus s) k = wn_id gone")
    case True
    show ?thesis
    proof (cases "l = k")
      case True2: True
      then show ?thesis using j True by (auto simp: wf wf_def m_def split: if_splits)
    next
      case False
      then have g: "map_get (ss_ws_focus s) l = Some j" using j True by (auto simp: wf wf_def m_def split: if_splits)
      then obtain w where w: "w \<in> set (ss_windows s)" "wn_id w = j" "wn_workspace w = l"
        using assms(1) by (auto simp: daemon_inv_def)
      have "w \<noteq> gone" using w(3) False by (auto simp: k_def)
      moreover have "gone \<in> set (ss_windows s)" using assms(2) by (simp add: gone_def)
      ultimately have "wn_id w \<noteq> wn_id gone" using d(1) w(1) by (auto simp: distinct_map inj_on_def)
      with w ids(1) show ?thesis by auto
    qed
  next
    case False
    then have g: "map_get (ss_ws_focus s) l = Some j" using j by (simp only: wf wf_def if_False)
    then obtain w where w: "w \<in> set (ss_windows s)" "wn_id w = j" "wn_workspace w = l"
      using assms(1) by (auto simp: daemon_inv_def)
    have "wn_id w \<noteq> wn_id gone"
    proof
      assume e: "wn_id w = wn_id gone"
      have "gone \<in> set (ss_windows s)" using assms(2) by (simp add: gone_def)
      with e w(1) d(1) have "w = gone" by (auto simp: distinct_map inj_on_def)
      with w(2,3) g False show False by (cases "ss_ws_focus s") (auto simp: k_def map_str_def)
    qed
    with w ids(1) show ?thesis by auto
  qed
  with foc_in ids d(2) show ?thesis
    unfolding s'_def [symmetric] daemon_inv_def window_ids_of_def win
    by auto
qed

lemma focus_inv:
  assumes "daemon_inv s" "w \<in> set (ss_windows s)" "wn_workspace w = k"
  shows "daemon_inv (s\<lparr>ss_focused := wn_id w, ss_workspace := j, ss_ws_focus := map_put k (wn_id w) (ss_ws_focus s)\<rparr>)"
  using assms by (auto simp: daemon_inv_def window_ids_of_def split: if_splits)

subsection \<open>A history of window operations\<close>

datatype window_op =
  Op_Register string string int int string bool
| Op_Close bool string
| Op_Focus string
| Op_Cycle int
| Op_Rename string string
| Op_Move string int
| Op_Name_Workspace int string
| Op_Switch int
| Op_Minimize string bool
| Op_Display string

fun window_body :: "window_op \<Rightarrow> body" where
  "window_body (Op_Register uid title w h pty locked) = register_window uid title w h pty locked"
| "window_body (Op_Close previous target) = close_window previous target"
| "window_body (Op_Focus target) = focus_window target"
| "window_body (Op_Cycle delta) = cycle_focus delta"
| "window_body (Op_Rename target name) = rename_window target name"
| "window_body (Op_Move target ws) = move_window target ws"
| "window_body (Op_Name_Workspace ws name) = name_workspace ws name"
| "window_body (Op_Switch ws) = switch_workspace ws"
| "window_body (Op_Minimize target m) = set_minimized target m"
| "window_body (Op_Display name) = set_display_name name"

text \<open>A new window has an identifier that is not in use.\<close>

fun window_admitted :: "window_op \<Rightarrow> session \<Rightarrow> bool" where
  "window_admitted (Op_Register uid title w h pty locked) s \<longleftrightarrow>
     uid \<notin> set (window_ids_of (se_state s)) \<and> uid \<noteq> []"
| "window_admitted _ s \<longleftrightarrow> True"

lemma same_channel_refl [simp]: "same_channel s s"
  by (simp add: same_channel_def)

lemma set_state_channel: "ss_version (f (se_state s)) = ss_version (se_state s) \<Longrightarrow> same_channel s (set_state f s)"
  by (simp add: same_channel_def set_state_def)

lemma on_window_cases:
  "on_window target f s = (s', r) \<Longrightarrow>
   (r \<noteq> None \<and> s' = s) \<or> (\<exists>i. find_window (ss_windows (se_state s)) target = Inr i \<and> s' = set_state (f i) s \<and> r = None)"
  by (auto simp: on_window_def split: sum.splits)

lemma set_state_state [simp]: "se_state (set_state f s) = f (se_state s)"
  by (simp add: set_state_def)

lemma change_window_sel [simp]:
  "ss_version (change_window i f s) = ss_version s" "ss_focused (change_window i f s) = ss_focused s"
  "ss_ws_focus (change_window i f s) = ss_ws_focus s"
  by (simp_all add: change_window_def)

lemma on_window_step:
  assumes "on_window target f s = (s', r)" "\<And>i st. ss_version (f i st) = ss_version st"
  shows "same_channel s s'" "r \<noteq> None \<Longrightarrow> s' = s"
  using on_window_cases [OF assms(1)] assms(2) set_state_channel by auto

lemma window_quiet: "window_body x s = (s', r) \<Longrightarrow> same_channel s s' \<and> (r \<noteq> None \<longrightarrow> se_state s' = se_state s)"
proof (cases x)
  case (Op_Close previous target)
  then show "window_body x s = (s', r) \<Longrightarrow> ?thesis"
    by (auto simp: close_window_def same_channel_def set_state_def close_state_def Let_def split: sum.splits)
next
  case (Op_Move target ws)
  then show "window_body x s = (s', r) \<Longrightarrow> ?thesis"
    using on_window_step [where target = target and s = s and s' = s' and r = r]
    by (fastforce simp: move_window_def Let_def split: if_splits)
next
  case (Op_Focus target)
  then show "window_body x s = (s', r) \<Longrightarrow> ?thesis"
    using on_window_step [where target = target and s = s and s' = s' and r = r]
    by (fastforce simp: focus_window_def Let_def)
next
  case (Op_Rename target name)
  then show "window_body x s = (s', r) \<Longrightarrow> ?thesis"
    using on_window_step [where target = target and s = s and s' = s' and r = r]
    by (fastforce simp: rename_window_def)
next
  case (Op_Minimize target m)
  then show "window_body x s = (s', r) \<Longrightarrow> ?thesis"
    using on_window_step [where target = target and s = s and s' = s' and r = r]
    by (fastforce simp: set_minimized_def)
qed (auto simp: register_window_def cycle_focus_def name_workspace_def switch_workspace_def set_display_name_def
    set_state_channel Let_def split: if_splits)

lemma move_inv:
  assumes "daemon_inv s" "i < length (ss_windows s)" "1 \<le> ws"
  shows "daemon_inv (let old = wn_workspace (ss_windows s ! i); s1 = change_window i (\<lambda>w. w\<lparr>wn_workspace := ws\<rparr>) s
        in if ss_ws_focus s1 \<noteq> None \<and> map_str (ss_ws_focus s1) old = wn_id (ss_windows s1 ! i)
           then s1\<lparr>ss_ws_focus := map_delete old (ss_ws_focus s1)\<rparr> else s1)"
proof -
  define w where "w = ss_windows s ! i"
  define wins where "wins = (ss_windows s)[i := w\<lparr>wn_workspace := ws\<rparr>]"
  have d: "distinct (map wn_id (ss_windows s))" "w \<in> set (ss_windows s)"
    using assms by (auto simp: daemon_inv_def window_ids_of_def w_def)
  have ids: "map wn_id wins = window_ids_of s"
    using assms(2) by (simp add: wins_def window_ids_of_def map_update w_def list_update_same_conv)
  have kept: "v \<in> set wins" if v: "v \<in> set (ss_windows s)" "wn_id v \<noteq> wn_id w" for v
  proof -
    obtain j where "j < length (ss_windows s)" "ss_windows s ! j = v" using v(1) unfolding in_set_conv_nth by blast
    with v(2) have "j \<noteq> i" "wins ! j = v" "j < length wins" using assms(2) by (auto simp: wins_def w_def nth_list_update)
    then show ?thesis by (metis nth_mem)
  qed
  define wf where "wf = (if ss_ws_focus s \<noteq> None \<and> map_str (ss_ws_focus s) (wn_workspace w) = wn_id w
    then map_delete (wn_workspace w) (ss_ws_focus s) else ss_ws_focus s)"
  have "\<exists>v\<in>set wins. wn_id v = j \<and> wn_workspace v = k" if j: "map_get wf k = Some j" for k j
  proof -
    have g: "map_get (ss_ws_focus s) k = Some j" using j by (auto simp: wf_def split: if_splits)
    then obtain v where v: "v \<in> set (ss_windows s)" "wn_id v = j" "wn_workspace v = k"
      using assms(1) by (auto simp: daemon_inv_def)
    have "wn_id v \<noteq> wn_id w"
    proof
      assume "wn_id v = wn_id w"
      then have "v = w" using d v(1) by (auto simp: distinct_map inj_on_def)
      with v g j show False by (cases "ss_ws_focus s") (auto simp: wf_def map_str_def split: if_splits)
    qed
    with kept v show ?thesis by blast
  qed
  moreover have "wn_id (wins ! i) = wn_id w" using assms(2) by (simp add: wins_def)
  ultimately have "daemon_inv (s\<lparr>ss_windows := wins, ss_ws_focus := wf\<rparr>)"
    using assms(1) ids by (simp add: daemon_inv_def window_ids_of_def)
  moreover have "(let old = wn_workspace (ss_windows s ! i); s1 = change_window i (\<lambda>w. w\<lparr>wn_workspace := ws\<rparr>) s
        in if ss_ws_focus s1 \<noteq> None \<and> map_str (ss_ws_focus s1) old = wn_id (ss_windows s1 ! i)
           then s1\<lparr>ss_ws_focus := map_delete old (ss_ws_focus s1)\<rparr> else s1) = s\<lparr>ss_windows := wins, ss_ws_focus := wf\<rparr>"
    using assms(2) by (simp add: Let_def change_window_def wf_def wins_def w_def)
  ultimately show ?thesis by simp
qed

lemma go_mod_range: "0 < n \<Longrightarrow> 0 \<le> go_mod (go_mod a n + n) n \<and> go_mod (go_mod a n + n) n < n"
proof -
  assume n: "0 < n"
  have "\<bar>a - go_div a n * n\<bar> < n"
  proof (cases "0 \<le> a")
    case True
    then show ?thesis using n by (simp add: go_div_nonneg minus_div_mult_eq_mod)
  next
    case False
    then have "go_div a n = - ((- a) div n)" using n by (simp add: go_div_def)
    then have "a - go_div a n * n = - ((- a) mod n)" by (simp add: minus_div_mult_eq_mod [symmetric])
    then show ?thesis using n by simp
  qed
  then have "0 \<le> go_mod a n + n" using n by (simp add: go_mod_def)
  then show ?thesis using n by (simp add: go_mod_nonneg)
qed

lemma window_keeps:
  assumes "daemon_inv (se_state s)" "window_admitted x s" "window_body x s = (s', None)"
  shows "daemon_inv (se_state s')"
proof (cases x)
  case (Op_Register uid title w h pty locked)
  with assms register_inv [OF assms(1), of uid title w h pty locked s s'] show ?thesis by simp
next
  case (Op_Close previous target)
  then obtain i where i: "find_window (ss_windows (se_state s)) target = Inr i" "se_state s' = close_state previous i (se_state s)"
    using assms(3) by (auto simp: close_window_def split: sum.splits)
  from close_inv [OF assms(1) find_window_bound [OF i(1)]] i(2) show ?thesis by simp
next
  case (Op_Focus target)
  then obtain i where i: "find_window (ss_windows (se_state s)) target = Inr i"
      "se_state s' = (let w = ss_windows (se_state s) ! i
        in (se_state s)\<lparr>ss_focused := wn_id w, ss_workspace := wn_workspace w,
          ss_ws_focus := map_put (wn_workspace w) (wn_id w) (ss_ws_focus (se_state s))\<rparr>)"
    using assms(3) on_window_cases by (fastforce simp: focus_window_def)
  with focus_inv [OF assms(1) nth_mem [OF find_window_bound [OF i(1)]] refl] show ?thesis by (simp add: Let_def)
next
  case (Op_Cycle delta)
  define wins where "wins = filter (\<lambda>w. wn_workspace w = ss_workspace (se_state s)) (ss_windows (se_state s))"
  obtain c where c: "wins \<noteq> []" "se_state s' = (se_state s)
      \<lparr>ss_focused := wn_id (wins ! nat (go_mod (go_mod c (int (length wins)) + int (length wins)) (int (length wins)))),
       ss_ws_focus := map_put (ss_workspace (se_state s))
         (wn_id (wins ! nat (go_mod (go_mod c (int (length wins)) + int (length wins)) (int (length wins)))))
         (ss_ws_focus (se_state s))\<rparr>"
    using assms(3) Op_Cycle by (auto simp: cycle_focus_def Let_def wins_def [symmetric] set_state_def split: if_splits)
  define w where "w = wins ! nat (go_mod (go_mod c (int (length wins)) + int (length wins)) (int (length wins)))"
  have "w \<in> set wins" using go_mod_range [of "int (length wins)" c] c(1) by (auto simp: w_def)
  then have "w \<in> set (ss_windows (se_state s))" "wn_workspace w = ss_workspace (se_state s)" by (auto simp: wins_def)
  from focus_inv [OF assms(1) this, of "ss_workspace (se_state s)"] c(2) show ?thesis by (simp add: w_def [symmetric])
next
  case (Op_Rename target name)
  with assms(3) on_window_cases [of target _ s s' None] change_window_inv [OF assms(1)]
  show ?thesis by (fastforce simp: rename_window_def)
next
  case (Op_Move target ws)
  then have ow: "on_window target (\<lambda>i s.
        let old = wn_workspace (ss_windows s ! i); s1 = change_window i (\<lambda>w. w\<lparr>wn_workspace := ws\<rparr>) s
        in if ss_ws_focus s1 \<noteq> None \<and> map_str (ss_ws_focus s1) old = wn_id (ss_windows s1 ! i)
           then s1\<lparr>ss_ws_focus := map_delete old (ss_ws_focus s1)\<rparr> else s1) s = (s', None)" "1 \<le> ws"
    using assms(3) by (auto simp: move_window_def in_range_ws_def split: if_splits)
  with on_window_cases [OF ow(1)] move_inv [OF assms(1) find_window_bound] show ?thesis by auto
next
  case (Op_Minimize target m)
  with assms(3) on_window_cases [of target _ s s' None] change_window_inv [OF assms(1)]
  show ?thesis by (fastforce simp: set_minimized_def)
next
  case (Op_Switch ws)
  with assms(1,3) daemon_inv_focus [OF assms(1), of ws] show ?thesis
    by (auto simp: switch_workspace_def set_state_def daemon_inv_def window_ids_of_def split: if_splits option.splits)
next
  case (Op_Name_Workspace ws name)
  with assms(1,3) show ?thesis
    by (auto simp: name_workspace_def intro!: daemon_inv_same [OF _ _ _ assms(1)] split: if_splits)
next
  case (Op_Display name)
  with assms(1,3) show ?thesis
    by (auto simp: set_display_name_def intro!: daemon_inv_same [OF _ _ _ assms(1)])
qed

lemma daemon_inv_version: "daemon_inv st \<Longrightarrow> daemon_inv (st\<lparr>ss_version := v\<rparr>)"
  by (rule daemon_inv_same [rotated 3]) simp_all

end
