(* ===== verification/AgentClaims.thy ===== *)
theory AgentClaims
  imports DaemonWindows
begin

text \<open>
  Who may say what an agent in a pane is doing (\<^verbatim>\<open>internal/session/agent_source.go\<close>,
  \<^verbatim>\<open>agent_state.go\<close>, \<^verbatim>\<open>agent_hold.go\<close>, \<^verbatim>\<open>agent_osc.go\<close>, \<^verbatim>\<open>agent_screen.go\<close> and the reconciling
  part of \<^verbatim>\<open>agent_detect.go\<close>). The clock is an argument, in nanoseconds. What reads processes and
  screens is an argument too: \<open>resolve\<close> and \<open>identify\<close> for the foreground process, \<open>label\<close> for the
  name of its command, the rules of a harness and the text of a pane.
\<close>

subsection \<open>States and sources on the wire\<close>

definition parse_agent_state :: "string \<Rightarrow> agent_state \<times> bool" where
  "parse_agent_state s =
     (if s = ''none'' then (Agent_None, True) else if s = ''working'' then (Agent_Working, True)
      else if s = ''needs_input'' then (Agent_Needs_Input, True) else if s = ''idle'' then (Agent_Idle, True)
      else if s = ''done'' then (Agent_Done, True) else if s = ''errored'' then (Agent_Errored, True)
      else (Agent_None, False))"

fun agent_state_name :: "agent_state \<Rightarrow> string" where
  "agent_state_name Agent_None = ''none''"
| "agent_state_name Agent_Working = ''working''"
| "agent_state_name Agent_Needs_Input = ''needs_input''"
| "agent_state_name Agent_Idle = ''idle''"
| "agent_state_name Agent_Done = ''done''"
| "agent_state_name Agent_Errored = ''errored''"

definition parse_agent_source :: "string \<Rightarrow> agent_source \<times> bool" where
  "parse_agent_source s =
     (if s = [] \<or> s = ''report'' then (Source_Report, True) else if s = ''osc'' then (Source_OSC, True)
      else if s = ''screen'' then (Source_Screen, True) else if s = ''stall'' then (Source_Stall, True)
      else (Source_Unset, False))"

fun agent_source_name :: "agent_source \<Rightarrow> string" where
  "agent_source_name Source_Unset = ''report''"
| "agent_source_name Source_Report = ''report''"
| "agent_source_name Source_OSC = ''osc''"
| "agent_source_name Source_Screen = ''screen''"
| "agent_source_name Source_Detect = ''detect''"
| "agent_source_name Source_Stall = ''stall''"

fun source_rank :: "agent_source \<Rightarrow> nat" where
  "source_rank Source_OSC = 30"
| "source_rank Source_Screen = 20"
| "source_rank Source_Detect = 10"
| "source_rank Source_Stall = 0"
| "source_rank Source_Report = 40"
| "source_rank Source_Unset = 40"

subsection \<open>Claims\<close>

definition no_prior :: agent_prior where
  "no_prior = \<lparr>pr_source = Source_Unset, pr_state = Agent_None, pr_harness = []\<rparr>"

definition no_claim :: agent_claim where
  "no_claim = \<lparr>ac_source = Source_Unset, ac_harness = [], ac_auto = False, ac_blocker = False, ac_prior = no_prior\<rparr>"

definition claim_for :: "session \<Rightarrow> string \<Rightarrow> agent_claim" where
  "claim_for se w = (case se_claims se w of None \<Rightarrow> no_claim | Some c \<Rightarrow> c)"

definition set_claim :: "string \<Rightarrow> agent_claim \<Rightarrow> session \<Rightarrow> session" where
  "set_claim w c se = se\<lparr>se_claims := (se_claims se)(w \<mapsto> c)\<rparr>"

record agent_report =
  rp_state :: agent_state
  rp_message :: string
  rp_source :: agent_source
  rp_harness :: string
  rp_wrote :: int

definition harness_after :: "window_state \<Rightarrow> agent_report \<Rightarrow> string" where
  "harness_after w r = (if rp_harness r \<noteq> [] \<or> rp_state r = Agent_None then rp_harness r else wn_harness w)"

definition override_grace :: int where "override_grace = 2 * 1000000000"

definition state_blocks :: "agent_state \<Rightarrow> bool" where
  "state_blocks s \<longleftrightarrow> s = Agent_Needs_Input"

definition blocker_overrides :: "window_state \<Rightarrow> agent_report \<Rightarrow> int \<Rightarrow> bool" where
  "blocker_overrides w r now \<longleftrightarrow>
     \<not> (rp_source r \<noteq> Source_Screen \<or> \<not> state_blocks (rp_state r) \<or> wn_agent w = rp_state r) \<and>
     \<not> rp_wrote r \<le> wn_agent_at w \<and> now - wn_agent_at w \<ge> override_grace"

definition set_agent :: "agent_state \<Rightarrow> string \<Rightarrow> string \<Rightarrow> int \<Rightarrow> window_state \<Rightarrow> window_state" where
  "set_agent st msg harness stamp w = w\<lparr>wn_agent := st, wn_message := msg, wn_harness := harness, wn_agent_at := stamp\<rparr>"

text \<open>The claim an accepted report leaves; \<open>override\<close> says it came through the visible blocker.\<close>

definition next_claim :: "bool \<Rightarrow> window_state \<Rightarrow> agent_claim \<Rightarrow> agent_report \<Rightarrow> agent_claim" where
  "next_claim override w c r =
     (let n = \<lparr>ac_source = rp_source r, ac_harness = harness_after w r, ac_auto = ac_auto c, ac_blocker = False,
               ac_prior = no_prior\<rparr>
      in if override
         then n\<lparr>ac_blocker := True,
                ac_prior := \<lparr>pr_source = ac_source c, pr_state = wn_agent w, pr_harness = wn_harness w\<rparr>\<rparr>
         else if ac_blocker c \<and> rp_source r = ac_source c \<and> rp_state r = wn_agent w
         then n\<lparr>ac_blocker := True, ac_prior := ac_prior c\<rparr>
         else n)"

definition outranked :: "session \<Rightarrow> string \<Rightarrow> agent_report \<Rightarrow> bool" where
  "outranked se w r \<longleftrightarrow> se_claims se w \<noteq> None \<and> source_rank (rp_source r) < source_rank (ac_source (claim_for se w))"

text \<open>\<open>now\<close> is the clock when the exception is judged, \<open>stamp\<close> when the report is recorded.\<close>

definition report_body :: "int \<Rightarrow> int \<Rightarrow> string \<Rightarrow> agent_report \<Rightarrow> body" where
  "report_body now stamp target r se =
     (case find_window (ss_windows (se_state se)) target of
        Inl e \<Rightarrow> (se, Some e)
      | Inr i \<Rightarrow>
        let w = ss_windows (se_state se) ! i; low = outranked se (wn_id w) r
        in if low \<and> \<not> blocker_overrides w r now then (se, Some Claim_Held)
           else (set_claim (wn_id w) (next_claim low w (claim_for se (wn_id w)) r)
                  (set_state (change_window i (set_agent (rp_state r) (rp_message r) (harness_after w r) stamp)) se), None))"

definition sourced :: "agent_report \<Rightarrow> agent_report" where
  "sourced r = (if rp_source r = Source_Unset then r\<lparr>rp_source := Source_Report\<rparr> else r)"

text \<open>The effective state and whether the report set it; a refused report is not an error.\<close>

definition apply_report :: "int \<Rightarrow> int \<Rightarrow> string \<Rightarrow> agent_report \<Rightarrow> session \<Rightarrow> session \<times> (session_error + agent_state \<times> bool)" where
  "apply_report now stamp target r0 se =
     (let r = sourced r0
      in case mutate (report_body now stamp target r) se of
           (se1, None) \<Rightarrow> (se1, Inr (rp_state r, True))
         | (se1, Some Claim_Held) \<Rightarrow>
           (case find_window (ss_windows (se_state se)) target of
              Inr i \<Rightarrow> (se1, Inr (wn_agent (ss_windows (se_state se) ! i), False)) | Inl e \<Rightarrow> (se1, Inl e))
         | (se1, Some e) \<Rightarrow> (se1, Inl e))"

definition set_daemon_agent_state :: "int \<Rightarrow> int \<Rightarrow> string \<Rightarrow> agent_state \<Rightarrow> string \<Rightarrow> session \<Rightarrow> session \<times> session_error option" where
  "set_daemon_agent_state now stamp target st msg se =
     (case apply_report now stamp target
        \<lparr>rp_state = st, rp_message = msg, rp_source = Source_Unset, rp_harness = [], rp_wrote = 0\<rparr> se of
        (se1, Inl e) \<Rightarrow> (se1, Some e) | (se1, Inr _) \<Rightarrow> (se1, None))"

definition release_body :: "int \<Rightarrow> string \<Rightarrow> body" where
  "release_body stamp target se =
     (case find_window (ss_windows (se_state se)) target of
        Inl e \<Rightarrow> (se, Some e)
      | Inr i \<Rightarrow>
        let w = ss_windows (se_state se) ! i; c = claim_for se (wn_id w); p = ac_prior c
        in if se_claims se (wn_id w) = None \<or> \<not> ac_blocker c then (se, Some No_Blocker)
           else (set_claim (wn_id w) (no_claim\<lparr>ac_source := pr_source p, ac_harness := pr_harness p, ac_auto := ac_auto c\<rparr>)
                  (set_state (change_window i (set_agent (pr_state p) [] (pr_harness p) stamp)) se), None))"

definition release_blocker :: "int \<Rightarrow> string \<Rightarrow> session \<Rightarrow> session \<times> bool" where
  "release_blocker stamp target se =
     (case mutate (release_body stamp target) se of (se1, None) \<Rightarrow> (se1, True) | (se1, Some _) \<Rightarrow> (se1, False))"

subsection \<open>The silence timer\<close>

definition stalled_at :: "int \<Rightarrow> string \<Rightarrow> int \<Rightarrow> (string \<Rightarrow> int) \<Rightarrow> bool" where
  "stalled_at state_at pty cutoff last_output =
     ((if pty \<noteq> [] \<and> last_output pty > state_at then last_output pty else state_at) \<le> cutoff)"

definition silent_working :: "int \<Rightarrow> (string \<Rightarrow> int) \<Rightarrow> window_state \<Rightarrow> bool" where
  "silent_working cutoff last_output w \<longleftrightarrow>
     wn_agent w = Agent_Working \<and> stalled_at (wn_agent_at w) (wn_pty w) cutoff last_output"

text \<open>The panes whose screen answers are left alone; looking may change the session.\<close>

fun look_at :: "(string \<Rightarrow> session \<Rightarrow> bool \<times> session) \<Rightarrow> (string \<times> string) list \<Rightarrow> session \<Rightarrow> (string \<times> string) list \<times> session" where
  "look_at look [] se = ([], se)"
| "look_at look ((w, p) # cs) se =
     (if p \<noteq> [] \<and> fst (look p se) then look_at look cs (snd (look p se))
      else let (kept, se') = look_at look cs (if p \<noteq> [] then snd (look p se) else se) in ((w, p) # kept, se'))"

fun demote :: "int \<Rightarrow> int \<Rightarrow> (string \<Rightarrow> int) \<Rightarrow> (string \<times> string) list \<Rightarrow> session \<Rightarrow> nat \<Rightarrow> session \<times> nat" where
  "demote now cutoff last_output [] se n = (se, n)"
| "demote now cutoff last_output ((wid, p) # cs) se n =
     (case find_window (ss_windows (se_state se)) wid of
        Inl e \<Rightarrow> demote now cutoff last_output cs se n
      | Inr i \<Rightarrow>
        let w = ss_windows (se_state se) ! i
        in if \<not> silent_working cutoff last_output w then demote now cutoff last_output cs se n
           else demote now cutoff last_output cs
             (set_claim (wn_id w) ((claim_for se (wn_id w))\<lparr>ac_source := Source_Stall\<rparr>)
               (set_state (change_window i (\<lambda>w. w\<lparr>wn_agent := Agent_Idle, wn_agent_at := now\<rparr>)) se)) (n + 1))"

definition stall_body :: "int \<Rightarrow> int \<Rightarrow> (string \<Rightarrow> int) \<Rightarrow> (string \<times> string) list \<Rightarrow> body" where
  "stall_body now cutoff last_output pending se =
     (let (se1, n) = demote now cutoff last_output pending se 0
      in (se1, if n = 0 then Some No_Stall_Change else None))"

definition apply_stall ::
    "int \<Rightarrow> int \<Rightarrow> (string \<Rightarrow> int) \<Rightarrow> (string \<Rightarrow> session \<Rightarrow> bool \<times> session) option \<Rightarrow> session \<Rightarrow> session \<times> nat" where
  "apply_stall now stall last_output look se =
     (if stall \<le> 0 then (se, 0)
      else let cutoff = now - stall;
               pending = map (\<lambda>w. (wn_id w, wn_pty w)) (filter (silent_working cutoff last_output) (ss_windows (se_state se)))
      in if pending = [] then (se, 0)
         else let (kept, se1) = (case look of None \<Rightarrow> (pending, se) | Some f \<Rightarrow> look_at f pending se);
                  flipped = snd (demote now cutoff last_output kept se1 0)
              in (fst (mutate (stall_body now cutoff last_output kept) se1), flipped))"

subsection \<open>The foreground process\<close>

definition set_command :: "string \<Rightarrow> window_state \<Rightarrow> window_state" where
  "set_command cmd w = w\<lparr>wn_command := cmd\<rparr>"

text \<open>One window of the detector's poll; the counts are state changes and changed labels.\<close>

definition detect_window ::
    "int \<Rightarrow> (string \<Rightarrow> 'p \<times> bool) \<Rightarrow> ('p \<Rightarrow> string \<times> bool) \<Rightarrow> ('p \<Rightarrow> bool \<Rightarrow> string) \<Rightarrow> nat \<Rightarrow>
     session \<times> nat \<times> nat \<Rightarrow> session \<times> nat \<times> nat" where
  "detect_window now resolve identify label i = (\<lambda>(se, changed, labels).
     let w0 = ss_windows (se_state se) ! i
     in if wn_pty w0 = [] then (se, changed, labels)
        else let (info, running) = resolve (wn_pty w0); cmd = label info running;
                 (se1, labels1) = (if cmd \<noteq> wn_command w0
                    then (set_state (change_window i (set_command cmd)) se, labels + 1) else (se, labels));
                 (harness, is_agent) = identify info; detected = running \<and> is_agent;
                 owned = ac_auto (claim_for se1 (wn_id w0)); w = ss_windows (se_state se1) ! i
             in if detected \<and> \<not> owned
                then if wn_agent w = Agent_None
                     then (set_claim (wn_id w) (no_claim\<lparr>ac_source := Source_Detect, ac_harness := harness, ac_auto := True\<rparr>)
                             (set_state (change_window i (set_agent Agent_Working [] harness now)) se1), changed + 1, labels1)
                     else (se1, changed, labels1)
                else if \<not> detected \<and> owned
                then ((set_state (change_window i (set_agent Agent_None [] [] now)) se1)
                        \<lparr>se_claims := (se_claims se1)(wn_id w := None)\<rparr>, changed + 1, labels1)
                else (se1, changed, labels1))"

text \<open>Claims, and holds, of windows that are gone are forgotten.\<close>

definition sweep_claims :: "session \<Rightarrow> session" where
  "sweep_claims se =
     (let live = set (window_ids_of (se_state se))
      in se\<lparr>se_claims := se_claims se |` live,
            se_holds := filter (\<lambda>(w, h). w \<in> live \<or> se_claims se w = None) (se_holds se)\<rparr>)"

definition detect_all ::
    "int \<Rightarrow> (string \<Rightarrow> 'p \<times> bool) \<Rightarrow> ('p \<Rightarrow> string \<times> bool) \<Rightarrow> ('p \<Rightarrow> bool \<Rightarrow> string) \<Rightarrow> session \<Rightarrow> session \<times> nat \<times> nat" where
  "detect_all now resolve identify label se =
     fold (detect_window now resolve identify label) [0..<length (ss_windows (se_state se))] (se, 0, 0)"

definition detect_body ::
    "int \<Rightarrow> (string \<Rightarrow> 'p \<times> bool) \<Rightarrow> ('p \<Rightarrow> string \<times> bool) \<Rightarrow> ('p \<Rightarrow> bool \<Rightarrow> string) \<Rightarrow> body" where
  "detect_body now resolve identify label se =
     (let (se1, changed, labels) = detect_all now resolve identify label se
      in (sweep_claims se1, if changed = 0 \<and> labels = 0 then Some No_Detect_Change else None))"

definition owns_auto_agent :: "string \<Rightarrow> session \<Rightarrow> bool" where
  "owns_auto_agent pty se =
     (case find (\<lambda>w. wn_pty w = pty) (ss_windows (se_state se)) of
        None \<Rightarrow> False | Some w \<Rightarrow> ac_auto (claim_for se (wn_id w)))"

definition output_body ::
    "int \<Rightarrow> string \<Rightarrow> (string \<Rightarrow> 'p \<times> bool) \<Rightarrow> ('p \<Rightarrow> string \<times> bool) \<Rightarrow> body" where
  "output_body stamp pty resolve identify se =
     (case first_index (\<lambda>w. wn_pty w = pty) (ss_windows (se_state se)) of
        None \<Rightarrow> (se, Some No_Detect_Change)
      | Some i \<Rightarrow>
        let w = ss_windows (se_state se) ! i; c = claim_for se (wn_id w);
            (info, running) = resolve pty; (harness, still) = identify info
        in if \<not> ac_auto c then (se, Some No_Detect_Change)
           else if running \<and> still
           then if wn_agent w \<noteq> Agent_Idle \<or> source_rank (ac_source c) > source_rank Source_Detect
                then (se, Some No_Detect_Change)
                else (set_claim (wn_id w) (c\<lparr>ac_harness := harness, ac_source := Source_Detect\<rparr>)
                       (set_state (change_window i (set_agent Agent_Working [] harness stamp)) se), None)
           else ((set_state (change_window i (set_agent Agent_None [] [] stamp)) se)
                  \<lparr>se_claims := (se_claims se)(wn_id w := None)\<rparr>, None))"

definition reconcile_output ::
    "int \<Rightarrow> string \<Rightarrow> (string \<Rightarrow> 'p \<times> bool) \<Rightarrow> ('p \<Rightarrow> string \<times> bool) \<Rightarrow> session \<Rightarrow> session \<times> bool" where
  "reconcile_output stamp pty resolve identify se =
     (if \<not> owns_auto_agent pty se then (se, False)
      else case mutate (output_body stamp pty resolve identify) se of
        (se1, None) \<Rightarrow> (se1, True) | (se1, Some _) \<Rightarrow> (se1, False))"

subsection \<open>The screen\<close>

definition agent_harness_of :: "string \<Rightarrow> session \<Rightarrow> string \<times> string" where
  "agent_harness_of pty se =
     (case find (\<lambda>w. wn_pty w = pty) (ss_windows (se_state se)) of
        None \<Rightarrow> ([], []) | Some w \<Rightarrow> (wn_id w, wn_harness w))"

text \<open>
  \<open>lines_of\<close> and \<open>classify\<close> are the harness registry (\<open>None\<close> when there is none), \<open>tail\<close> and
  \<open>wrote\<close> the bottom of a live pane and the time it last wrote (\<open>None\<close> when the pane is gone).
\<close>

definition scan_screen ::
    "int \<Rightarrow> int \<Rightarrow> ((string \<Rightarrow> int) \<times> (string \<Rightarrow> string list \<Rightarrow> agent_state option)) option \<Rightarrow>
     (string \<Rightarrow> ((int \<Rightarrow> string list) \<times> int) option) \<Rightarrow> string \<Rightarrow> session \<Rightarrow> bool \<times> session" where
  "scan_screen now stamp reg pane pty se =
     (case reg of None \<Rightarrow> (False, se)
      | Some (lines_of, classify) \<Rightarrow>
        (case pane pty of None \<Rightarrow> (False, se)
         | Some (tail_text, wrote) \<Rightarrow>
           let (win, hid) = agent_harness_of pty se; n = lines_of hid; rows = tail_text n
           in if hid = [] \<or> n \<le> 0 \<or> rows = [] then (False, se)
              else case classify hid rows of
                None \<Rightarrow> (False, fst (release_blocker stamp win se))
              | Some st \<Rightarrow> (True, fst (apply_report now stamp win
                  \<lparr>rp_state = st, rp_message = [], rp_source = Source_Screen, rp_harness = hid, rp_wrote = wrote\<rparr> se))))"

end
