(* ===== verification/AgentHolds.thy ===== *)
theory AgentHolds
  imports AgentClaims
begin

text \<open>
  Holding back a quieter state (\<^verbatim>\<open>internal/session/agent_hold.go\<close>, \<^verbatim>\<open>agent_osc.go\<close>). The map of holds is
  an association list, in whatever order Go's map would be walked. \<open>se_timer\<close> is the deadline of the
  one-shot timer, \<open>None\<close> when it is not armed.
\<close>

subsection \<open>Operations\<close>

definition hold_window :: int where "hold_window = 700 * 1000000"
definition millisecond :: int where "millisecond = 1000000"

fun agent_loudness :: "agent_state \<Rightarrow> nat" where
  "agent_loudness Agent_Needs_Input = 3"
| "agent_loudness Agent_Errored = 3"
| "agent_loudness Agent_Working = 2"
| "agent_loudness Agent_Idle = 1"
| "agent_loudness Agent_Done = 1"
| "agent_loudness Agent_None = 0"

definition schedule_settle :: "int \<Rightarrow> session \<Rightarrow> session" where
  "schedule_settle now se =
     (if se_timer se \<noteq> None \<or> se_holds se = [] then se
      else let earliest = fold (\<lambda>(w, h) e. if ah_since h < e then ah_since h else e) (se_holds se) now
           in se\<lparr>se_timer := Some (now + max (hold_window - (now - earliest)) millisecond)\<rparr>)"

definition drop_hold :: "string \<Rightarrow> session \<Rightarrow> session" where
  "drop_hold w se = se\<lparr>se_holds := AList.delete w (se_holds se)\<rparr>"

definition hold_quieter :: "string \<Rightarrow> agent_state \<Rightarrow> agent_state \<Rightarrow> agent_source \<Rightarrow> int \<Rightarrow> session \<Rightarrow> bool \<times> session" where
  "hold_quieter w next_state current source now se =
     (if next_state = current then (False, drop_hold w se)
      else if agent_loudness next_state \<ge> agent_loudness current then (True, drop_hold w se)
      else let fresh = (False, schedule_settle now (se\<lparr>se_holds :=
             AList.update w \<lparr>ah_state = next_state, ah_source = source, ah_since = now\<rparr> (se_holds se)\<rparr>))
      in case map_of (se_holds se) w of
           None \<Rightarrow> fresh
         | Some h \<Rightarrow>
           if ah_state h \<noteq> next_state then fresh
           else if now - ah_since h < hold_window then (False, se)
           else (True, drop_hold w se))"

definition hold_due :: "int \<Rightarrow> agent_hold \<Rightarrow> bool" where
  "hold_due now h \<longleftrightarrow> now - ah_since h \<ge> hold_window"

definition hold_report :: "agent_hold \<Rightarrow> agent_report" where
  "hold_report h = \<lparr>rp_state = ah_state h, rp_message = [], rp_source = ah_source h, rp_harness = [], rp_wrote = 0\<rparr>"

text \<open>The due holds leave the map, then their reports are applied; \<open>clock\<close> is read at each.\<close>

fun publish_holds :: "int \<Rightarrow> (string \<times> agent_hold) list \<Rightarrow> session \<Rightarrow> nat \<Rightarrow> session \<times> nat" where
  "publish_holds clock [] se n = (se, n)"
| "publish_holds clock ((w, h) # hs) se n =
     (case apply_report clock clock w (hold_report h) se of
        (se1, Inr (_, True)) \<Rightarrow> publish_holds clock hs se1 (n + 1)
      | (se1, _) \<Rightarrow> publish_holds clock hs se1 n)"

definition settle_holds :: "int \<Rightarrow> int \<Rightarrow> session \<Rightarrow> session \<times> nat" where
  "settle_holds now clock se =
     (let due = filter (\<lambda>(w, h). hold_due now h) (se_holds se)
      in publish_holds clock due (se\<lparr>se_holds := filter (\<lambda>(w, h). \<not> hold_due now h) (se_holds se)\<rparr>) 0)"

text \<open>What the timer runs at \<open>now\<close>.\<close>

definition settle_held_states :: "int \<Rightarrow> int \<Rightarrow> session \<Rightarrow> session" where
  "settle_held_states now clock se = schedule_settle now (fst (settle_holds now clock (se\<lparr>se_timer := None\<rparr>)))"

definition stop_hold_timer :: "session \<Rightarrow> session" where
  "stop_hold_timer se = se\<lparr>se_timer := None, se_holds := []\<rparr>"

definition window_agent_state :: "string \<Rightarrow> session \<Rightarrow> agent_state \<times> bool" where
  "window_agent_state w se =
     (case find (\<lambda>x. wn_id x = w) (ss_windows (se_state se)) of None \<Rightarrow> (Agent_None, False) | Some x \<Rightarrow> (wn_agent x, True))"

text \<open>The progress states of the terminal's OSC 9;4 parser.\<close>

datatype progress = Progress_Clear | Progress_Normal | Progress_Error | Progress_Indeterminate | Progress_Warning | Progress_Other int

fun state_for_progress :: "progress \<Rightarrow> agent_state \<times> bool" where
  "state_for_progress Progress_Clear = (Agent_Idle, True)"
| "state_for_progress Progress_Normal = (Agent_Working, True)"
| "state_for_progress Progress_Indeterminate = (Agent_Working, True)"
| "state_for_progress Progress_Error = (Agent_Errored, True)"
| "state_for_progress Progress_Warning = (Agent_Needs_Input, True)"
| "state_for_progress (Progress_Other n) = (Agent_None, False)"

definition apply_progress :: "string \<Rightarrow> progress \<Rightarrow> int \<Rightarrow> int \<Rightarrow> session \<Rightarrow> session" where
  "apply_progress w p now clock se =
     (let (agent, ok) = state_for_progress p; (current, exists) = window_agent_state w se
      in if \<not> ok \<or> \<not> exists then se
         else let (go, se1) = hold_quieter w agent current Source_OSC now se
              in if \<not> go then se1
                 else fst (apply_report clock clock w
                   \<lparr>rp_state = agent, rp_message = [], rp_source = Source_OSC, rp_harness = [], rp_wrote = 0\<rparr> se1))"

subsection \<open>The backstop\<close>

text \<open>
  While something is held a timer is armed, it is due no later than one millisecond after the hold
  ran out or after the moment \<open>t\<close> it was last armed (and no later than a whole window after \<open>t\<close>),
  and no window is held twice.
\<close>

definition backstop :: "int \<Rightarrow> session \<Rightarrow> bool" where
  "backstop t se \<longleftrightarrow> distinct (map fst (se_holds se)) \<and> (\<forall>d. se_timer se = Some d \<longrightarrow> d \<le> t + hold_window) \<and>
     (se_holds se \<noteq> [] \<longrightarrow> (\<exists>d. se_timer se = Some d \<and>
        (\<forall>(w, h)\<in>set (se_holds se). d \<le> max (ah_since h + hold_window) (t + millisecond))))"

lemma earliest_le:
  "fold (\<lambda>(w, h) e. if ah_since h < e then ah_since h else e) hs e0 \<le> e0 \<and>
   (\<forall>(w, h)\<in>set hs. fold (\<lambda>(w, h) e. if ah_since h < e then ah_since h else e) hs e0 \<le> ah_since h)"
proof (induction hs arbitrary: e0)
  case (Cons x hs)
  obtain w h where x: "x = (w, h)" by fastforce
  from Cons.IH [of "if ah_since h < e0 then ah_since h else e0"] show ?case by (fastforce simp: x)
qed simp

lemma schedule_backstop:
  assumes "distinct (map fst (se_holds se))" "se_timer se = None"
  shows "backstop now (schedule_settle now se)"
proof (cases "se_holds se = []")
  case False
  define e where "e = fold (\<lambda>(w, h) e. if ah_since h < e then ah_since h else e) (se_holds se) now"
  have s: "schedule_settle now se = se\<lparr>se_timer := Some (now + max (hold_window - (now - e)) millisecond)\<rparr>"
    using False assms(2) by (simp add: schedule_settle_def e_def Let_def)
  have "\<forall>(w, h)\<in>set (se_holds se). e \<le> ah_since h" unfolding e_def by (rule conjunct2 [OF earliest_le])
  then have "\<forall>(w, h)\<in>set (se_holds se). now + max (hold_window - (now - e)) millisecond \<le>
      max (ah_since h + hold_window) (now + millisecond)" by (fastforce simp: max_def)
  moreover have "e \<le> now" unfolding e_def by (rule conjunct1 [OF earliest_le])
  ultimately show ?thesis using assms(1) by (simp add: s backstop_def hold_window_def millisecond_def)
qed (use assms in \<open>simp add: schedule_settle_def backstop_def\<close>)

lemma backstop_later: "backstop t se \<Longrightarrow> t \<le> t' \<Longrightarrow> backstop t' se"
  unfolding backstop_def by (intro conjI impI allI) fastforce+

lemma in_update: "x \<in> set (AList.update k v al) \<Longrightarrow> x = (k, v) \<or> x \<in> set al"
  by (induction al) (auto split: if_splits)

lemma schedule_armed: "se_timer se = Some d \<Longrightarrow> schedule_settle now se = se"
  by (simp add: schedule_settle_def)

lemma backstop_fewer:
  assumes "backstop t se" "se_holds se' = hs" "se_timer se' = se_timer se"
    and "set hs \<subseteq> set (se_holds se)" "distinct (map fst hs)"
  shows "backstop t se'"
  using assms by (fastforce simp: backstop_def)

lemma drop_backstop: "backstop t se \<Longrightarrow> backstop t (drop_hold w se)"
  by (rule backstop_fewer [OF _ refl])
    (auto simp: drop_hold_def backstop_def AList.delete_eq distinct_map_filter)

lemma hold_backstop:
  assumes "backstop t se" "t \<le> now" "hold_quieter w next_state current source now se = (go, se')"
  shows "backstop now se'"
proof -
  define h where "h = \<lparr>ah_state = next_state, ah_source = source, ah_since = now\<rparr>"
  define se1 where "se1 = se\<lparr>se_holds := AList.update w h (se_holds se)\<rparr>"
  have d: "distinct (map fst (se_holds se1))"
    using assms(1) by (simp add: se1_def backstop_def distinct_update)
  have fresh: "backstop now (schedule_settle now se1)"
  proof (cases "se_timer se1")
    case None
    with d show ?thesis by (rule schedule_backstop)
  next
    case (Some dl)
    then have "dl \<le> t + hold_window" using assms(1) by (simp add: se1_def backstop_def)
    moreover have "dl \<le> max (ah_since g + hold_window) (t + millisecond)" if "(v, g) \<in> set (se_holds se)" for v g
      using assms(1) that Some by (fastforce simp: se1_def backstop_def)
    ultimately have "dl \<le> max (ah_since g + hold_window) (now + millisecond)" if "(v, g) \<in> set (se_holds se1)" for v g
      using in_update [of "(v, g)" w h "se_holds se"] that assms(2) by (fastforce simp: se1_def h_def)
    with Some d \<open>dl \<le> t + hold_window\<close> assms(2) have "backstop now se1" by (auto simp: backstop_def)
    then show ?thesis using Some by (simp add: schedule_armed)
  qed
  show ?thesis
    using assms(3) fresh drop_backstop [OF assms(1)] backstop_later [OF _ assms(2)] assms(1)
    by (auto simp: hold_quieter_def Let_def se1_def h_def split: if_splits option.splits)
qed

end
