(* ===== verification/AgentSpec.thy ===== *)
theory AgentSpec
  imports AgentHolds
begin

text \<open>
  What the claims and holds promise: a weaker source never writes over a stronger one, the visible
  blocker is a loan that is given back, the silence timer and the detector touch only what is
  theirs, and a held state is published in time.
\<close>

subsection \<open>One report\<close>

lemma mutate_applied:
  assumes "f se = (s1, None)" "mutate f se = (se', r)"
  shows "r = None" "se_state se' = (se_state s1)\<lparr>ss_version := ss_version (se_state s1) + 1\<rparr>"
    "se_claims se' = se_claims s1" "se_holds se' = se_holds s1" "se_timer se' = se_timer s1"
  using assms by (auto simp: mutate_def Let_def publish_state_def emit_lifecycle_def split: if_splits)

lemma mutate_refused: "f se = (s1, Some e) \<Longrightarrow> mutate f se = (s1, Some e)"
  by (simp add: mutate_def)

lemma mutate_frame: "fst (f se) = s1 \<Longrightarrow> se_holds (fst (mutate f se)) = se_holds s1 \<and> se_timer (fst (mutate f se)) = se_timer s1
    \<and> ss_windows (se_state (fst (mutate f se))) = ss_windows (se_state s1) \<and> se_claims (fst (mutate f se)) = se_claims s1"
  by (auto simp: mutate_def Let_def publish_state_def emit_lifecycle_def split: prod.splits option.splits)

lemma change_windows [simp]:
  "ss_windows (change_window i f s) = (ss_windows s)[i := f (ss_windows s ! i)]"
  by (simp add: change_window_def)

lemma set_claim_sel [simp]:
  "se_state (set_claim w c se) = se_state se" "se_claims (set_claim w c se) = (se_claims se)(w \<mapsto> c)"
  "se_holds (set_claim w c se) = se_holds se" "se_timer (set_claim w c se) = se_timer se"
  by (simp_all add: set_claim_def)

lemma set_state_sel [simp]:
  "se_claims (set_state f se) = se_claims se" "se_holds (set_state f se) = se_holds se"
  "se_timer (set_state f se) = se_timer se"
  by (simp_all add: set_state_def)

lemma set_agent_sel [simp]:
  "wn_id (set_agent a m h t w) = wn_id w" "wn_workspace (set_agent a m h t w) = wn_workspace w"
  "wn_agent (set_agent a m h t w) = a" "wn_harness (set_agent a m h t w) = h" "wn_agent_at (set_agent a m h t w) = t"
  "wn_message (set_agent a m h t w) = m" "wn_pty (set_agent a m h t w) = wn_pty w"
  by (simp_all add: set_agent_def)

lemma report_refused:
  assumes "find_window (ss_windows (se_state se)) target = Inr i" "w = ss_windows (se_state se) ! i"
    and "outranked se (wn_id w) (sourced r)" "\<not> blocker_overrides w (sourced r) now"
  shows "apply_report now stamp target r se = (se, Inr (wn_agent w, False))"
proof -
  have "report_body now stamp target (sourced r) se = (se, Some Claim_Held)"
    using assms by (simp add: report_body_def Let_def)
  from mutate_refused [where f = "report_body now stamp target (sourced r)", OF this]
  show ?thesis using assms(1,2) by (simp add: apply_report_def Let_def)
qed

lemma report_accepted:
  assumes "find_window (ss_windows (se_state se)) target = Inr i" "w = ss_windows (se_state se) ! i" "q = sourced r"
    and "outranked se (wn_id w) q \<longrightarrow> blocker_overrides w q now"
  shows "\<exists>se'. apply_report now stamp target r se = (se', Inr (rp_state q, True)) \<and>
    ss_windows (se_state se') = (ss_windows (se_state se))[i := set_agent (rp_state q) (rp_message q) (harness_after w q) stamp w] \<and>
    se_claims se' = (se_claims se)(wn_id w \<mapsto> next_claim (outranked se (wn_id w) q) w (claim_for se (wn_id w)) q) \<and>
    ss_version (se_state se') = ss_version (se_state se) + 1 \<and> se_holds se' = se_holds se \<and> se_timer se' = se_timer se"
proof -
  define s1 where "s1 = set_claim (wn_id w) (next_claim (outranked se (wn_id w) q) w (claim_for se (wn_id w)) q)
    (set_state (change_window i (set_agent (rp_state q) (rp_message q) (harness_after w q) stamp)) se)"
  have b: "report_body now stamp target q se = (s1, None)"
    using assms by (auto simp: report_body_def Let_def s1_def)
  obtain se' rr where m: "mutate (report_body now stamp target q) se = (se', rr)" by fastforce
  note f = mutate_applied [where f = "report_body now stamp target q" and se = se, OF b m]
  have "apply_report now stamp target r se = (se', Inr (rp_state q, True))"
    using m f(1) assms(3) by (simp add: apply_report_def Let_def)
  then show ?thesis using f assms(2) by (auto simp: s1_def)
qed

lemma sourced_sel [simp]: "rp_state (sourced r) = rp_state r" "rp_harness (sourced r) = rp_harness r"
  by (simp_all add: sourced_def)

text \<open>
  C32. A report is decided by rank alone: below the claim on the window, and without the visible
  blocker's exception, it changes nothing at all and says so; otherwise it sets that window and its
  claim, no other, raises the version by one, and the claim's rank does not fall, except by the
  exception, which remembers the displaced source, state and harness.
\<close>

theorem report_respects_rank:
  assumes "find_window (ss_windows (se_state se)) target = Inr i" "w = ss_windows (se_state se) ! i" "q = sourced r"
    and "apply_report now stamp target r se = (se', res)" "c = claim_for se (wn_id w)" "c' = claim_for se' (wn_id w)"
  shows "(outranked se (wn_id w) q \<and> \<not> blocker_overrides w q now \<longrightarrow> se' = se \<and> res = Inr (wn_agent w, False)) \<and>
    (\<not> (outranked se (wn_id w) q \<and> \<not> blocker_overrides w q now) \<longrightarrow>
      res = Inr (rp_state r, True) \<and> ss_version (se_state se') = ss_version (se_state se) + 1 \<and>
      ss_windows (se_state se') =
        (ss_windows (se_state se))[i := set_agent (rp_state r) (rp_message q) (harness_after w q) stamp w] \<and>
      ac_source c' = rp_source q \<and> ac_auto c' = ac_auto c \<and> (\<forall>v. v \<noteq> wn_id w \<longrightarrow> se_claims se' v = se_claims se v)) \<and>
    (se_claims se (wn_id w) \<noteq> None \<longrightarrow> source_rank (ac_source c) \<le> source_rank (ac_source c') \<or>
      ac_blocker c' \<and> ac_source c' = Source_Screen \<and> rp_state r = Agent_Needs_Input \<and>
      ac_prior c' = \<lparr>pr_source = ac_source c, pr_state = wn_agent w, pr_harness = wn_harness w\<rparr>)"
proof (cases "outranked se (wn_id w) q \<and> \<not> blocker_overrides w q now")
  case True
  with report_refused [OF assms(1,2)] assms(3,4) have "se' = se" "res = Inr (wn_agent w, False)" by auto
  with True assms(5,6) show ?thesis by simp
next
  case False
  then have "outranked se (wn_id w) q \<longrightarrow> blocker_overrides w q now" by blast
  from report_accepted [OF assms(1-3) this, of stamp] assms(4)
  have f: "res = Inr (rp_state q, True)"
    "ss_windows (se_state se') = (ss_windows (se_state se))[i := set_agent (rp_state q) (rp_message q) (harness_after w q) stamp w]"
    "se_claims se' = (se_claims se)(wn_id w \<mapsto> next_claim (outranked se (wn_id w) q) w c q)"
    "ss_version (se_state se') = ss_version (se_state se) + 1"
    by (auto simp: assms(5))
  have c': "c' = next_claim (outranked se (wn_id w) q) w c q" using f(3) by (simp add: assms(6) claim_for_def)
  have src: "ac_source c' = rp_source q" "ac_auto c' = ac_auto c" by (auto simp: c' next_claim_def Let_def)
  have rank: "source_rank (ac_source c) \<le> source_rank (ac_source c') \<or>
      ac_blocker c' \<and> ac_source c' = Source_Screen \<and> rp_state r = Agent_Needs_Input \<and>
      ac_prior c' = \<lparr>pr_source = ac_source c, pr_state = wn_agent w, pr_harness = wn_harness w\<rparr>"
    if "se_claims se (wn_id w) \<noteq> None"
  proof (cases "outranked se (wn_id w) q")
    case o: True
    then have "blocker_overrides w q now" using False by blast
    with o show ?thesis
      by (auto simp: c' next_claim_def Let_def blocker_overrides_def state_blocks_def assms(3))
  next
    case False
    with that show ?thesis by (simp add: src outranked_def assms(5))
  qed
  from f src rank False assms(3) show ?thesis by simp
qed

definition sample_state :: session_state where
  "sample_state = \<lparr>ss_name = ''s'', ss_display = [], ss_accent = [], ss_restored = False, ss_classroom = [],
     ss_windows = [sample_window ''ab1'' ''p'' 1, sample_window ''ab2'' ''q'' 1], ss_focused = ''ab1'', ss_workspace = 1,
     ss_ws_focus = Some [1 \<mapsto> ''ab1''], ss_master = 0, ss_tiling = True, ss_width = 80, ss_height = 24,
     ss_ws_names = None, ss_ws_tiling = None, ss_trees = None, ss_bsp_ids = None, ss_next_bsp = 0, ss_scheme = 0,
     ss_layout = [], ss_num_ws = 0, ss_saved_version = 0, ss_version = 1, ss_base = 0, ss_options = None\<rparr>"

definition sample_session :: session where
  "sample_session = \<lparr>se_state = sample_state,
     se_claims = [''ab1'' \<mapsto> no_claim\<lparr>ac_source := Source_Report\<rparr>], se_holds = [], se_timer = None, se_events = [],
     se_dirty = False, se_sink = True, se_pushed = 1, se_sent = [], se_width = 80, se_height = 24, se_ptys = {''p'', ''q''}\<rparr>"

definition sample_report :: "agent_state \<Rightarrow> agent_source \<Rightarrow> int \<Rightarrow> agent_report" where
  "sample_report st src wrote = \<lparr>rp_state = st, rp_message = [], rp_source = src, rp_harness = [], rp_wrote = wrote\<rparr>"

lemmas sample_defs = sample_session_def sample_state_def sample_window_def new_window_def sample_report_def

lemma sample_find: "find_window (ss_windows (se_state sample_session)) ''ab1'' = Inr 0"
  by (simp add: find_window_def sample_defs)

theorem report_respects_rank_witness:
  "fst (apply_report 5 5 ''ab1'' (sample_report Agent_Idle Source_OSC 0) sample_session) = sample_session"
proof -
  obtain se' res where a: "apply_report 5 5 ''ab1'' (sample_report Agent_Idle Source_OSC 0) sample_session = (se', res)"
    by fastforce
  have "outranked sample_session ''ab1'' (sourced (sample_report Agent_Idle Source_OSC 0))"
    "\<not> blocker_overrides (ss_windows (se_state sample_session) ! 0) (sourced (sample_report Agent_Idle Source_OSC 0)) 5"
    "wn_id (ss_windows (se_state sample_session) ! 0) = ''ab1''"
    by (simp_all add: outranked_def claim_for_def no_claim_def sourced_def blocker_overrides_def sample_defs)
  with report_respects_rank [OF sample_find refl refl a refl refl] have "se' = sample_session" by simp
  with a show ?thesis by simp
qed

subsection \<open>The loan\<close>

lemma find_exact:
  assumes "distinct (map wn_id ws)" "i < length ws" "wn_id (ws ! i) = t" "t \<noteq> []"
  shows "find_window ws t = Inr i"
proof -
  obtain j where j: "first_index (\<lambda>w. wn_id w = t) ws = Some j"
    using assms(2,3) first_index_None [of "\<lambda>w. wn_id w = t" ws] nth_mem [OF assms(2)] by (metis not_None_eq)
  then have "j < length ws" "wn_id (ws ! j) = t" using first_index_Some [OF j] by auto
  then have "j = i" using assms(1-3) nth_eq_iff_index_eq [of "map wn_id ws" j i] by simp
  with j assms(4) show ?thesis by (simp add: find_window_def)
qed

text \<open>The window \<open>i\<close> is lent to the screen: \<open>p\<close> is what goes back.\<close>

definition lent :: "nat \<Rightarrow> string \<Rightarrow> bool \<Rightarrow> agent_prior \<Rightarrow> session \<Rightarrow> bool" where
  "lent i t auto p se \<longleftrightarrow> distinct (map wn_id (ss_windows (se_state se))) \<and> i < length (ss_windows (se_state se)) \<and>
     wn_id (ss_windows (se_state se) ! i) = t \<and> t \<noteq> [] \<and> wn_agent (ss_windows (se_state se) ! i) = Agent_Needs_Input \<and>
     (\<exists>c. se_claims se t = Some c \<and> ac_source c = Source_Screen \<and> ac_auto c = auto \<and> ac_blocker c \<and> ac_prior c = p)"

lemma ids_update: "i < length ws \<Longrightarrow> wn_id v = wn_id (ws ! i) \<Longrightarrow> map wn_id (ws[i := v]) = map wn_id ws"
  by (simp add: map_update list_update_same_conv)

lemma lend:
  assumes "distinct (map wn_id (ss_windows (se_state se)))" "i < length (ss_windows (se_state se))"
    and "w = ss_windows (se_state se) ! i" "wn_id w \<noteq> []" "rp_source r = Source_Screen"
    and "se_claims se (wn_id w) = Some c" "outranked se (wn_id w) r" "blocker_overrides w r now"
  shows "lent i (wn_id w) (ac_auto c) \<lparr>pr_source = ac_source c, pr_state = wn_agent w, pr_harness = wn_harness w\<rparr>
    (fst (apply_report now stamp (wn_id w) r se))"
proof -
  have r: "sourced r = r" using assms(5) by (simp add: sourced_def)
  have f: "find_window (ss_windows (se_state se)) (wn_id w) = Inr i" using find_exact assms(1-4) by simp
  have "claim_for se (wn_id w) = c" using assms(6) by (simp add: claim_for_def)
  with report_accepted [OF f assms(3) r [symmetric], of now stamp] assms
  show ?thesis
    by (auto simp: lent_def ids_update next_claim_def Let_def blocker_overrides_def state_blocks_def)
qed

lemma lent_again:
  assumes "lent i t auto p se" "rp_source r = Source_Screen" "rp_state r = Agent_Needs_Input"
  shows "lent i t auto p (fst (apply_report now stamp t r se))"
proof -
  let ?ws = "ss_windows (se_state se)"
  obtain c where l: "distinct (map wn_id ?ws)" "i < length ?ws" "wn_id (?ws ! i) = t" "t \<noteq> []"
      "wn_agent (?ws ! i) = Agent_Needs_Input" "se_claims se t = Some c" "ac_source c = Source_Screen"
      "ac_auto c = auto" "ac_blocker c" "ac_prior c = p" using assms(1) by (auto simp: lent_def)
  have r: "sourced r = r" using assms(2) by (simp add: sourced_def)
  have f: "find_window ?ws t = Inr i" using find_exact l(1-4) by simp
  have c: "claim_for se t = c" using l(6) by (simp add: claim_for_def)
  have "\<not> outranked se t r" using c l(7) assms(2) by (simp add: outranked_def)
  with report_accepted [OF f refl r [symmetric], of now stamp] l c assms
  show ?thesis by (auto simp: lent_def ids_update next_claim_def Let_def)
qed

lemma lent_back:
  assumes "lent i t auto p se" "release_blocker stamp t se = (se', ok)"
  shows "ok \<and> wn_agent (ss_windows (se_state se') ! i) = pr_state p \<and> wn_harness (ss_windows (se_state se') ! i) = pr_harness p \<and>
    se_claims se' t = Some (no_claim\<lparr>ac_source := pr_source p, ac_harness := pr_harness p, ac_auto := auto\<rparr>)"
proof -
  let ?ws = "ss_windows (se_state se)"
  obtain c where l: "distinct (map wn_id ?ws)" "i < length ?ws" "wn_id (?ws ! i) = t" "t \<noteq> []"
      "se_claims se t = Some c" "ac_auto c = auto" "ac_blocker c" "ac_prior c = p" using assms(1) by (auto simp: lent_def)
  have f: "find_window ?ws t = Inr i" using find_exact l(1-4) by simp
  define s1 where "s1 = set_claim t (no_claim\<lparr>ac_source := pr_source p, ac_harness := pr_harness p, ac_auto := auto\<rparr>)
    (set_state (change_window i (set_agent (pr_state p) [] (pr_harness p) stamp)) se)"
  have b: "release_body stamp t se = (s1, None)"
    using f l by (simp add: release_body_def Let_def claim_for_def s1_def)
  obtain s2 rr where m: "mutate (release_body stamp t) se = (s2, rr)" by fastforce
  from mutate_applied [where f = "release_body stamp t" and se = se, OF b m] assms(2) m l(2)
  show ?thesis by (auto simp: release_blocker_def s1_def)
qed

text \<open>
  C33. The visible blocker is a loan: when a screen rule took over a higher-ranked claim, then
  however often it reported the same prompt again, the release finds the loan and puts the
  displaced source, state and harness back, under the same automatic ownership.
\<close>

theorem blocker_is_a_loan:
  assumes "daemon_inv (se_state se)" "i < length (ss_windows (se_state se))" "w = ss_windows (se_state se) ! i"
    and "se_claims se (wn_id w) = Some c" "rp_source r = Source_Screen" "outranked se (wn_id w) r" "blocker_overrides w r now"
    and "\<forall>(n, s, q)\<in>set again. rp_source q = Source_Screen \<and> rp_state q = rp_state r"
    and "se1 = fold (\<lambda>(n, s, q) x. fst (apply_report n s (wn_id w) q x)) again (fst (apply_report now stamp (wn_id w) r se))"
    and "release_blocker t (wn_id w) se1 = (se2, ok)"
  shows "ok \<and> wn_agent (ss_windows (se_state se2) ! i) = wn_agent w \<and> wn_harness (ss_windows (se_state se2) ! i) = wn_harness w \<and>
    se_claims se2 (wn_id w) =
      Some (no_claim\<lparr>ac_source := ac_source c, ac_harness := wn_harness w, ac_auto := ac_auto c\<rparr>)"
proof -
  define p where "p = \<lparr>pr_source = ac_source c, pr_state = wn_agent w, pr_harness = wn_harness w\<rparr>"
  have "wn_id w \<in> set (window_ids_of (se_state se))" using assms(2,3) by (simp add: window_ids_of_def)
  then have inv: "distinct (map wn_id (ss_windows (se_state se)))" "wn_id w \<noteq> []"
    using assms(1) by (auto simp: daemon_inv_def window_ids_of_def)
  have first: "lent i (wn_id w) (ac_auto c) p (fst (apply_report now stamp (wn_id w) r se))"
    unfolding p_def by (rule lend [OF inv(1) assms(2,3) inv(2) assms(5,4,6,7)])
  have "rp_state r = Agent_Needs_Input" using assms(7) by (simp add: blocker_overrides_def state_blocks_def)
  then have more: "lent i (wn_id w) (ac_auto c) p (fold (\<lambda>(n, s, q) x. fst (apply_report n s (wn_id w) q x)) again x)"
    if "lent i (wn_id w) (ac_auto c) p x" for x
    using assms(8) that
  proof (induction again arbitrary: x)
    case (Cons a again)
    obtain n s q where a: "a = (n, s, q)" by (rule prod_cases3)
    have "lent i (wn_id w) (ac_auto c) p (fst (apply_report n s (wn_id w) q x))"
      using Cons.prems by (intro lent_again) (auto simp: a)
    with Cons.IH Cons.prems show ?case by (simp add: a)
  qed simp
  from lent_back [OF more [OF first, folded assms(9)] assms(10)] show ?thesis by (simp add: p_def)
qed

theorem blocker_is_a_loan_witness:
  "snd (release_blocker 9000000000 ''ab1''
     (fst (apply_report 5000000000 5000000000 ''ab1'' (sample_report Agent_Needs_Input Source_Screen 1) sample_session)))"
proof -
  let ?r = "sample_report Agent_Needs_Input Source_Screen 1"
  have w: "ss_windows (se_state sample_session) ! 0 = sample_window ''ab1'' ''p'' 1" "0 < length (ss_windows (se_state sample_session))"
    by (simp_all add: sample_session_def sample_state_def)
  have i: "daemon_inv (se_state sample_session)"
    by (auto simp: daemon_inv_def window_ids_of_def sample_defs split: if_splits)
  obtain se2 ok where b: "release_blocker 9000000000 ''ab1''
     (fst (apply_report 5000000000 5000000000 ''ab1'' ?r sample_session)) = (se2, ok)" by fastforce
  have "ok"
    using blocker_is_a_loan [OF i w(2) refl, of "no_claim\<lparr>ac_source := Source_Report\<rparr>" ?r 5000000000 "[]" _ 5000000000
        9000000000 se2 ok] b
    by (simp add: w(1) outranked_def claim_for_def no_claim_def blocker_overrides_def override_grace_def state_blocks_def sample_defs)
  with b show ?thesis by simp
qed

end
