(* ===== verification/AgentTimers.thy ===== *)
theory AgentTimers
  imports AgentSpec
begin

text \<open>
  What runs on its own: the silence timer, the detector's poll, and the holds. Each is described
  exactly on the windows, and the hold's timer is shown to publish what is due.
\<close>

subsection \<open>Silence\<close>

definition gone_idle :: "int \<Rightarrow> window_state \<Rightarrow> window_state" where
  "gone_idle now w = w\<lparr>wn_agent := Agent_Idle, wn_agent_at := now\<rparr>"

lemma gone_idle_sel [simp]: "wn_id (gone_idle now w) = wn_id w" "\<not> silent_working cutoff lo (gone_idle now w)"
  by (simp_all add: gone_idle_def silent_working_def)

definition hit :: "int \<Rightarrow> (string \<Rightarrow> int) \<Rightarrow> (string \<times> string) list \<Rightarrow> window_state \<Rightarrow> bool" where
  "hit cutoff lo cs w \<longleftrightarrow> wn_id w \<in> fst ` set cs \<and> silent_working cutoff lo w"

lemma hit_skip:
  "wn_id w \<noteq> fst c \<or> \<not> silent_working cutoff lo w \<Longrightarrow> hit cutoff lo (c # cs) w = hit cutoff lo cs w"
  by (auto simp: hit_def)

lemma nth_demoted:
  assumes "distinct (map wn_id ws)" "i < length ws" "silent_working cutoff lo (ws ! i)" "wn_id (ws ! i) = fst c"
  shows "map (\<lambda>w. if hit cutoff lo cs w then gone_idle now w else w) (ws[i := gone_idle now (ws ! i)]) =
    map (\<lambda>w. if hit cutoff lo (c # cs) w then gone_idle now w else w) ws"
proof (rule nth_equalityI)
  fix j
  assume "j < length (map (\<lambda>w. if hit cutoff lo cs w then gone_idle now w else w) (ws[i := gone_idle now (ws ! i)]))"
  then have j: "j < length ws" by simp
  show "map (\<lambda>w. if hit cutoff lo cs w then gone_idle now w else w) (ws[i := gone_idle now (ws ! i)]) ! j =
      map (\<lambda>w. if hit cutoff lo (c # cs) w then gone_idle now w else w) ws ! j"
  proof (cases "j = i")
    case True
    then show ?thesis using assms(2-4) by (simp add: hit_def)
  next
    case False
    then have "wn_id (ws ! j) \<noteq> fst c"
      using assms(1,2,4) j nth_eq_iff_index_eq [of "map wn_id ws" j i] by simp
    then show ?thesis using j False by (simp add: hit_skip)
  qed
qed simp

lemma demote_spec:
  assumes "distinct (map wn_id (ss_windows (se_state se)))" "[] \<notin> wn_id ` set (ss_windows (se_state se))"
    and "fst ` set cs \<subseteq> wn_id ` set (ss_windows (se_state se))" "demote now cutoff lo cs se n = (se', m)"
  shows "ss_windows (se_state se') = map (\<lambda>w. if hit cutoff lo cs w then gone_idle now w else w) (ss_windows (se_state se)) \<and>
    n \<le> m \<and> (m = n \<longrightarrow> se' = se \<and> (\<forall>w\<in>set (ss_windows (se_state se)). \<not> hit cutoff lo cs w)) \<and>
    (m > n \<longrightarrow> (\<exists>w\<in>set (ss_windows (se_state se)). hit cutoff lo cs w))"
  using assms
proof (induction cs arbitrary: se n)
  case Nil
  then show ?case by (simp add: hit_def)
next
  case (Cons c cs)
  let ?ws = "ss_windows (se_state se)"
  obtain p where c: "c = (fst c, p)" by (cases c) simp
  have "fst c \<in> wn_id ` set ?ws" using Cons.prems(3) by simp
  then obtain v where "v \<in> set ?ws" "fst c = wn_id v" by blast
  then obtain i where i: "i < length ?ws" "wn_id (?ws ! i) = fst c" unfolding in_set_conv_nth by metis
  have t: "fst c \<noteq> []" using \<open>fst c \<in> wn_id ` set ?ws\<close> Cons.prems(2) by metis
  have f: "find_window ?ws (fst c) = Inr i" by (rule find_exact [OF Cons.prems(1) i t])
  have sub: "fst ` set cs \<subseteq> wn_id ` set ?ws" using Cons.prems(3) by simp
  show ?case
  proof (cases "silent_working cutoff lo (?ws ! i)")
    case False
    have d: "demote now cutoff lo cs se n = (se', m)" using Cons.prems(4) f False by (subst (asm) c) simp
    note IH = Cons.IH [OF Cons.prems(1,2) sub d]
    have inj: "inj_on wn_id (set ?ws)" using Cons.prems(1) by (simp add: distinct_map)
    have h: "hit cutoff lo (c # cs) w = hit cutoff lo cs w" if w: "w \<in> set ?ws" for w
    proof (rule hit_skip)
      have "w = ?ws ! i" if "wn_id w = fst c"
        by (rule inj_onD [OF inj _ w nth_mem [OF i(1)]]) (simp add: that i(2))
      then show "wn_id w \<noteq> fst c \<or> \<not> silent_working cutoff lo w" using False by blast
    qed
    then have "map (\<lambda>w. if hit cutoff lo (c # cs) w then gone_idle now w else w) ?ws =
        map (\<lambda>w. if hit cutoff lo cs w then gone_idle now w else w) ?ws" by (intro map_cong) simp_all
    then show ?thesis using IH h by simp
  next
    case True
    define se1 where "se1 = set_claim (wn_id (?ws ! i)) ((claim_for se (wn_id (?ws ! i)))\<lparr>ac_source := Source_Stall\<rparr>)
      (set_state (change_window i (\<lambda>w. w\<lparr>wn_agent := Agent_Idle, wn_agent_at := now\<rparr>)) se)"
    have w1: "ss_windows (se_state se1) = ?ws[i := gone_idle now (?ws ! i)]" by (simp add: se1_def gone_idle_def)
    have d: "demote now cutoff lo cs se1 (n + 1) = (se', m)"
      using Cons.prems(4) f True by (subst (asm) c) (simp add: Let_def se1_def)
    have ids: "map wn_id (ss_windows (se_state se1)) = map wn_id ?ws" using i(1) by (simp add: w1 ids_update)
    then have ids': "wn_id ` set (ss_windows (se_state se1)) = wn_id ` set ?ws" by (metis list.set_map)
    have IH: "ss_windows (se_state se') = map (\<lambda>w. if hit cutoff lo cs w then gone_idle now w else w)
          (ss_windows (se_state se1))" "n + 1 \<le> m"
      using Cons.IH [of se1 "n + 1", unfolded ids ids', OF Cons.prems(1,2) sub d] by blast+
    have "hit cutoff lo (c # cs) (?ws ! i)" using True i(2) by (simp add: hit_def)
    then have "\<exists>w\<in>set ?ws. hit cutoff lo (c # cs) w" using nth_mem [OF i(1)] by blast
    then show ?thesis
      using IH(2) unfolding IH(1) w1 nth_demoted [OF Cons.prems(1) i(1) True i(2), of cs now] by simp
  qed
qed



subsection \<open>The poll\<close>

definition detected :: "(string \<Rightarrow> 'p \<times> bool) \<Rightarrow> ('p \<Rightarrow> string \<times> bool) \<Rightarrow> string \<Rightarrow> bool" where
  "detected resolve identify pty = (let (info, running) = resolve pty in running \<and> snd (identify info))"

definition polled_state :: "(string \<Rightarrow> 'p \<times> bool) \<Rightarrow> ('p \<Rightarrow> string \<times> bool) \<Rightarrow> session \<Rightarrow> window_state \<Rightarrow> agent_state" where
  "polled_state resolve identify se w =
     (let d = detected resolve identify (wn_pty w); owned = ac_auto (claim_for se (wn_id w))
      in if wn_pty w = [] then wn_agent w
         else if d \<and> \<not> owned \<and> wn_agent w = Agent_None then Agent_Working
         else if \<not> d \<and> owned then Agent_None else wn_agent w)"

lemma detect_window_spec:
  assumes "detect_window now resolve identify label i (se, ch, lb) = (se', ch', lb')" "i < length (ss_windows (se_state se))"
    and "w = ss_windows (se_state se) ! i"
  shows "\<exists>w'. ss_windows (se_state se') = (ss_windows (se_state se))[i := w'] \<and> wn_id w' = wn_id w \<and> wn_workspace w' = wn_workspace w \<and>
      wn_agent w' = polled_state resolve identify se w \<and> (ch' = ch \<longrightarrow> wn_agent w' = wn_agent w) \<and>
      (ch' = ch \<and> lb' = lb \<longrightarrow> se' = se)"
    "\<forall>v. v \<noteq> wn_id w \<longrightarrow> se_claims se' v = se_claims se v" "ch \<le> ch' \<and> lb \<le> lb'"
    "ss_focused (se_state se') = ss_focused (se_state se) \<and> ss_ws_focus (se_state se') = ss_ws_focus (se_state se) \<and> same_channel se se'"
proof -
  obtain info running where r: "resolve (wn_pty w) = (info, running)" by fastforce
  obtain harness agent where a: "identify info = (harness, agent)" by fastforce
  define cmd where "cmd = label info running"
  define se1 where "se1 = (if cmd \<noteq> wn_command w then set_state (change_window i (set_command cmd)) se else se)"
  define w1 where "w1 = (if cmd \<noteq> wn_command w then set_command cmd w else w)"
  have w1: "wn_id w1 = wn_id w" "wn_agent w1 = wn_agent w" "wn_workspace w1 = wn_workspace w" by (simp_all add: w1_def set_command_def)
  have s1: "ss_windows (se_state se1) = (ss_windows (se_state se))[i := w1]" "se_claims se1 = se_claims se"
      "ss_windows (se_state se1) ! i = w1" "claim_for se1 = claim_for se"
    using assms(2,3) by (auto simp: se1_def w1_def claim_for_def fun_eq_iff)
  have ch1: "ss_focused (se_state se1) = ss_focused (se_state se) \<and> ss_ws_focus (se_state se1) = ss_ws_focus (se_state se) \<and>
      same_channel se se1" by (auto simp: se1_def same_channel_def set_state_def)
  define lb1 where "lb1 = (if cmd \<noteq> wn_command w then lb + 1 else lb)"
  have d: "detect_window now resolve identify label i (se, ch, lb) =
    (if wn_pty w = [] then (se, ch, lb)
     else if running \<and> agent \<and> \<not> ac_auto (claim_for se (wn_id w))
     then if wn_agent w1 = Agent_None
          then (set_claim (wn_id w) (no_claim\<lparr>ac_source := Source_Detect, ac_harness := harness, ac_auto := True\<rparr>)
                  (set_state (change_window i (set_agent Agent_Working [] harness now)) se1), ch + 1, lb1)
          else (se1, ch, lb1)
     else if \<not> (running \<and> agent) \<and> ac_auto (claim_for se (wn_id w))
     then ((set_state (change_window i (set_agent Agent_None [] [] now)) se1)\<lparr>se_claims := (se_claims se1)(wn_id w := None)\<rparr>, ch + 1, lb1)
     else (se1, ch, lb1))"
    unfolding detect_window_def assms(3) [symmetric] prod.case Let_def r a
    by (simp add: cmd_def [symmetric] se1_def [symmetric] lb1_def [symmetric] s1 w1)
       (auto simp: se1_def lb1_def s1 w1 w1_def assms(2,3) claim_for_def cmd_def set_command_def)
  have det: "detected resolve identify (wn_pty w) = (running \<and> agent)" by (simp add: detected_def r a)
  have nop: "se1 = se" if "lb1 = lb" using that by (auto simp: lb1_def se1_def split: if_splits)
  have self: "(ss_windows (se_state se))[i := w] = ss_windows (se_state se)" by (simp add: assms(3))
  consider (no) "wn_pty w = []"
    | (up) "wn_pty w \<noteq> []" "running \<and> agent" "\<not> ac_auto (claim_for se (wn_id w))" "wn_agent w = Agent_None"
    | (keep) "wn_pty w \<noteq> []" "running \<and> agent" "\<not> ac_auto (claim_for se (wn_id w))" "wn_agent w \<noteq> Agent_None"
    | (down) "wn_pty w \<noteq> []" "\<not> (running \<and> agent)" "ac_auto (claim_for se (wn_id w))"
    | (owned) "wn_pty w \<noteq> []" "running \<and> agent" "ac_auto (claim_for se (wn_id w))"
    | (absent) "wn_pty w \<noteq> []" "\<not> (running \<and> agent)" "\<not> ac_auto (claim_for se (wn_id w))" by blast
  then have "(\<exists>w'. ss_windows (se_state se') = (ss_windows (se_state se))[i := w'] \<and> wn_id w' = wn_id w \<and> wn_workspace w' = wn_workspace w \<and>
      wn_agent w' = polled_state resolve identify se w \<and> (ch' = ch \<longrightarrow> wn_agent w' = wn_agent w) \<and>
      (ch' = ch \<and> lb' = lb \<longrightarrow> se' = se)) \<and> (\<forall>v. v \<noteq> wn_id w \<longrightarrow> se_claims se' v = se_claims se v) \<and> ch \<le> ch' \<and> lb \<le> lb' \<and>
      ss_focused (se_state se') = ss_focused (se_state se) \<and> ss_ws_focus (se_state se') = ss_ws_focus (se_state se) \<and> same_channel se se'"
  proof cases
    case no
    with assms(1) d self show ?thesis by (intro conjI exI [of _ w]) (auto simp: polled_state_def)
  next
    case up
    then have e: "se' = set_claim (wn_id w) (no_claim\<lparr>ac_source := Source_Detect, ac_harness := harness, ac_auto := True\<rparr>)
        (set_state (change_window i (set_agent Agent_Working [] harness now)) se1)" "ch' = ch + 1" "lb' = lb1"
      using assms(1) d w1(2) by auto
    show ?thesis
      by (intro conjI exI [of _ "set_agent Agent_Working [] harness now w1"])
        (use e up s1 w1 ch1 det in \<open>auto simp: polled_state_def lb1_def same_channel_def set_claim_def set_state_def assms(2)\<close>)
  next
    case keep
    then have e: "se' = se1" "ch' = ch" "lb' = lb1" using assms(1) d w1(2) by auto
    show ?thesis
      by (intro conjI exI [of _ w1]) (use e keep s1 w1 ch1 det nop in \<open>auto simp: polled_state_def lb1_def\<close>)
  next
    case down
    then have e: "se' = (set_state (change_window i (set_agent Agent_None [] [] now)) se1)\<lparr>se_claims := (se_claims se1)(wn_id w := None)\<rparr>"
        "ch' = ch + 1" "lb' = lb1" using assms(1) d by auto
    show ?thesis
      by (intro conjI exI [of _ "set_agent Agent_None [] [] now w1"])
        (use e down s1 w1 ch1 det in \<open>auto simp: polled_state_def lb1_def same_channel_def set_state_def assms(2)\<close>)
  next
    case owned
    then have e: "se' = se1" "ch' = ch" "lb' = lb1" using assms(1) d w1(2) by auto
    show ?thesis
      by (intro conjI exI [of _ w1]) (use e owned s1 w1 ch1 det nop in \<open>auto simp: polled_state_def lb1_def\<close>)
  next
    case absent
    then have e: "se' = se1" "ch' = ch" "lb' = lb1" using assms(1) d w1(2) by auto
    show ?thesis
      by (intro conjI exI [of _ w1]) (use e absent s1 w1 ch1 det nop in \<open>auto simp: polled_state_def lb1_def\<close>)
  qed
  then show "\<exists>w'. ss_windows (se_state se') = (ss_windows (se_state se))[i := w'] \<and> wn_id w' = wn_id w \<and> wn_workspace w' = wn_workspace w \<and>
      wn_agent w' = polled_state resolve identify se w \<and> (ch' = ch \<longrightarrow> wn_agent w' = wn_agent w) \<and>
      (ch' = ch \<and> lb' = lb \<longrightarrow> se' = se)"
    "\<forall>v. v \<noteq> wn_id w \<longrightarrow> se_claims se' v = se_claims se v" "ch \<le> ch' \<and> lb \<le> lb'"
    "ss_focused (se_state se') = ss_focused (se_state se) \<and> ss_ws_focus (se_state se') = ss_ws_focus (se_state se) \<and> same_channel se se'"
    by blast+
qed

end
