(* ===== verification/DaemonHistory.thy ===== *)
theory DaemonHistory
  imports AgentTimers
begin

text \<open>
  All the ways the daemon changes its own state, together: whatever windows are opened, closed,
  focused, moved and renamed, and whatever reports, releases, polls and timers come between, the
  session stays coherent and its subscribers in step. The detector's whole poll is described here.
\<close>

subsection \<open>The whole poll\<close>

definition pairs_of :: "session \<Rightarrow> (string \<times> int) list" where
  "pairs_of se = map (\<lambda>w. (wn_id w, wn_workspace w)) (ss_windows (se_state se))"

definition same_frame :: "session \<Rightarrow> session \<Rightarrow> bool" where
  "same_frame se se' \<longleftrightarrow> pairs_of se' = pairs_of se \<and> ss_focused (se_state se') = ss_focused (se_state se) \<and>
     ss_ws_focus (se_state se') = ss_ws_focus (se_state se) \<and> same_channel se se'"

lemma same_frame_refl [simp]: "same_frame se se"
  by (simp add: same_frame_def)

lemma same_frame_trans: "same_frame a b \<Longrightarrow> same_frame b c \<Longrightarrow> same_frame a c"
  by (simp add: same_frame_def same_channel_def)

lemma same_frame_inv: "same_frame se se' \<Longrightarrow> daemon_inv (se_state se) \<Longrightarrow> daemon_inv (se_state se')"
  using daemon_inv_same [of "se_state se'" "se_state se"] by (simp add: same_frame_def pairs_of_def)

lemma update_pairs:
  "i < length ws \<Longrightarrow> wn_id w = wn_id (ws ! i) \<Longrightarrow> wn_workspace w = wn_workspace (ws ! i) \<Longrightarrow>
   map (\<lambda>w. (wn_id w, wn_workspace w)) (ws[i := w]) = map (\<lambda>w. (wn_id w, wn_workspace w)) ws"
  by (simp add: map_update list_update_same_conv)

text \<open>After the first \<open>k\<close> windows.\<close>

definition polled :: "(string \<Rightarrow> 'p \<times> bool) \<Rightarrow> ('p \<Rightarrow> string \<times> bool) \<Rightarrow> session \<Rightarrow> nat \<Rightarrow> session \<times> nat \<times> nat \<Rightarrow> bool" where
  "polled resolve identify se k r \<longleftrightarrow> (case r of (se', ch, lb) \<Rightarrow>
     same_frame se se' \<and> length (ss_windows (se_state se')) = length (ss_windows (se_state se)) \<and>
     (\<forall>j<k. wn_agent (ss_windows (se_state se') ! j) = polled_state resolve identify se (ss_windows (se_state se) ! j)) \<and>
     (\<forall>j. k \<le> j \<and> j < length (ss_windows (se_state se)) \<longrightarrow> ss_windows (se_state se') ! j = ss_windows (se_state se) ! j) \<and>
     (\<forall>v. v \<notin> wn_id ` set (take k (ss_windows (se_state se))) \<longrightarrow> se_claims se' v = se_claims se v) \<and>
     (ch = 0 \<and> lb = 0 \<longrightarrow> se' = se))"

lemma polled_step:
  assumes "polled resolve identify se k (s, ch, lb)" "k < length (ss_windows (se_state se))"
    and "distinct (map wn_id (ss_windows (se_state se)))"
  shows "polled resolve identify se (Suc k) (detect_window now resolve identify label k (s, ch, lb))"
proof -
  let ?ws = "ss_windows (se_state se)"
  obtain s' ch' lb' where d: "detect_window now resolve identify label k (s, ch, lb) = (s', ch', lb')" by (rule prod_cases3)
  have P: "same_frame se s" "length (ss_windows (se_state s)) = length ?ws"
    "\<And>j. j < k \<Longrightarrow> wn_agent (ss_windows (se_state s) ! j) = polled_state resolve identify se (?ws ! j)"
    "\<And>j. k \<le> j \<Longrightarrow> j < length ?ws \<Longrightarrow> ss_windows (se_state s) ! j = ?ws ! j"
    "\<And>v. v \<notin> wn_id ` set (take k ?ws) \<Longrightarrow> se_claims s v = se_claims se v" "ch = 0 \<and> lb = 0 \<longrightarrow> s = se"
    using assms(1) by (auto simp: polled_def)
  have k: "k < length (ss_windows (se_state s))" "ss_windows (se_state s) ! k = ?ws ! k" using P(2,4) assms(2) by auto
  note D = detect_window_spec [OF d k(1) k(2) [symmetric]]
  obtain w' where w': "ss_windows (se_state s') = (ss_windows (se_state s))[k := w']" "wn_id w' = wn_id (?ws ! k)"
      "wn_workspace w' = wn_workspace (?ws ! k)" "wn_agent w' = polled_state resolve identify s (?ws ! k)"
      "ch' = ch \<and> lb' = lb \<longrightarrow> s' = s" using D(1) by blast
  have "wn_id (?ws ! k) \<notin> wn_id ` set (take k ?ws)"
  proof
    assume "wn_id (?ws ! k) \<in> wn_id ` set (take k ?ws)"
    then obtain j where "j < k" "wn_id (?ws ! j) = wn_id (?ws ! k)"
      using assms(2) by (auto simp: in_set_conv_nth)
    with assms(2,3) nth_eq_iff_index_eq [of "map wn_id ?ws" j k] show False by simp
  qed
  then have "claim_for s (wn_id (?ws ! k)) = claim_for se (wn_id (?ws ! k))" using P(5) by (simp add: claim_for_def)
  then have ag: "wn_agent w' = polled_state resolve identify se (?ws ! k)" using w'(4) by (simp add: polled_state_def)
  have "pairs_of s' = pairs_of s" using w'(1-3) k update_pairs [OF k(1), of w'] by (simp add: pairs_of_def)
  then have "same_frame s s'" using D(4) by (simp add: same_frame_def)
  then have fr: "same_frame se s'" by (rule same_frame_trans [OF P(1)])
  have "wn_agent (ss_windows (se_state s') ! j) = polled_state resolve identify se (?ws ! j)" if "j < Suc k" for j
    using that P(3) ag k(1) unfolding w'(1) by (cases "j = k") auto
  moreover have "ss_windows (se_state s') ! j = ?ws ! j" if "Suc k \<le> j" "j < length ?ws" for j
    using that P(4) unfolding w'(1) by simp
  moreover have "se_claims s' v = se_claims se v" if "v \<notin> wn_id ` set (take (Suc k) ?ws)" for v
    using that D(2) P(5) assms(2) by (auto simp: take_Suc_conv_app_nth)
  moreover have "s' = se" if "ch' = 0 \<and> lb' = 0" using that D(3) w'(5) P(6) by auto
  ultimately show ?thesis using fr P(2) unfolding d by (auto simp: polled_def w'(1))
qed

lemma detect_all_polled:
  assumes "distinct (map wn_id (ss_windows (se_state se)))"
  shows "polled resolve identify se (length (ss_windows (se_state se))) (detect_all now resolve identify label se)"
proof -
  have "k \<le> length (ss_windows (se_state se)) \<Longrightarrow>
      polled resolve identify se k (fold (detect_window now resolve identify label) [0..<k] (se, 0, 0))" for k
  proof (induction k)
    case 0
    then show ?case by (simp add: polled_def)
  next
    case (Suc k)
    obtain s ch lb where s: "fold (detect_window now resolve identify label) [0..<k] (se, 0, 0) = (s, ch, lb)" by (rule prod_cases3)
    with Suc polled_step [of resolve identify se k s ch lb, OF _ _ assms] show ?case by simp
  qed
  then show ?thesis by (simp add: detect_all_def)
qed

lemma sweep_sel [simp]: "se_state (sweep_claims s) = se_state s"
  by (simp add: sweep_claims_def Let_def)

lemma sweep_frame: "same_frame s (sweep_claims s)"
  by (simp add: same_frame_def pairs_of_def same_channel_def sweep_claims_def Let_def)



subsection \<open>Every operation\<close>

datatype 'p daemon_op =
  Do_Window window_op
| Do_Report int int string agent_report
| Do_Release int string
| Do_Stall int int "string \<Rightarrow> int" "(string \<times> string) list"
| Do_Poll int "string \<Rightarrow> 'p \<times> bool" "'p \<Rightarrow> string \<times> bool" "'p \<Rightarrow> bool \<Rightarrow> string"
| Do_Output int string "string \<Rightarrow> 'p \<times> bool" "'p \<Rightarrow> string \<times> bool"

fun daemon_body :: "'p daemon_op \<Rightarrow> body" where
  "daemon_body (Do_Window x) = window_body x"
| "daemon_body (Do_Report now stamp target r) = report_body now stamp target (sourced r)"
| "daemon_body (Do_Release stamp target) = release_body stamp target"
| "daemon_body (Do_Stall now cutoff lo cs) = stall_body now cutoff lo cs"
| "daemon_body (Do_Poll now resolve identify label) = detect_body now resolve identify label"
| "daemon_body (Do_Output stamp pty resolve identify) = output_body stamp pty resolve identify"

fun daemon_admitted :: "'p daemon_op \<Rightarrow> session \<Rightarrow> bool" where
  "daemon_admitted (Do_Window x) s = window_admitted x s"
| "daemon_admitted _ s = True"

lemma frame_change:
  assumes "i < length (ss_windows (se_state se))"
  shows "same_frame se (set_state (change_window i (set_agent a m h t)) se)"
    "same_frame se (set_claim v c (set_state (change_window i (set_agent a m h t)) se))"
    "same_frame se ((set_state (change_window i (set_agent a m h t)) se)\<lparr>se_claims := cl\<rparr>)"
  using assms update_pairs [OF assms, of "set_agent a m h t (ss_windows (se_state se) ! i)"]
  by (simp_all add: same_frame_def pairs_of_def same_channel_def set_state_def set_claim_def)

lemma demote_frame:
  "demote now cutoff lo cs se n = (se', m) \<Longrightarrow> same_frame se se' \<and> n \<le> m \<and> (m = n \<longrightarrow> se' = se)"
proof (induction cs arbitrary: se n)
  case (Cons c cs)
  obtain t p where c: "c = (t, p)" by fastforce
  show ?case
  proof (cases "find_window (ss_windows (se_state se)) t")
    case (Inl e)
    then have "demote now cutoff lo cs se n = (se', m)" using Cons.prems by (simp add: c)
    then show ?thesis by (rule Cons.IH)
  next
    case (Inr i)
    let ?w = "ss_windows (se_state se) ! i"
    define se1 where "se1 = set_claim (wn_id ?w) ((claim_for se (wn_id ?w))\<lparr>ac_source := Source_Stall\<rparr>)
      (set_state (change_window i (\<lambda>w. w\<lparr>wn_agent := Agent_Idle, wn_agent_at := now\<rparr>)) se)"
    show ?thesis
    proof (cases "silent_working cutoff lo ?w")
      case True
      have "i < length (ss_windows (se_state se))" by (rule find_window_bound [OF Inr])
      then have "same_frame se se1"
        using update_pairs [of i "ss_windows (se_state se)" "?w\<lparr>wn_agent := Agent_Idle, wn_agent_at := now\<rparr>"]
        by (simp add: same_frame_def pairs_of_def same_channel_def set_state_def set_claim_def se1_def)
      moreover have "demote now cutoff lo cs se1 (n + 1) = (se', m)"
        using Cons.prems Inr True by (simp add: c Let_def se1_def)
      ultimately show ?thesis using Cons.IH [of se1 "n + 1"] same_frame_trans by auto
    next
      case False
      then have "demote now cutoff lo cs se n = (se', m)" using Cons.prems Inr by (simp add: c)
      then show ?thesis by (rule Cons.IH)
    qed
  qed
qed simp

lemma agent_frame:
  assumes "\<forall>y. x \<noteq> Do_Window y" "distinct (window_ids_of (se_state s))" "daemon_body x s = (s', r)"
  shows "same_frame s s' \<and> (r \<noteq> None \<longrightarrow> se_state s' = se_state s)"
proof (cases x)
  case (Do_Report now stamp target q)
  with assms(3) frame_change [OF find_window_bound] show ?thesis
    by (auto simp: report_body_def Let_def split: sum.splits if_splits)
next
  case (Do_Release stamp target)
  with assms(3) frame_change [OF find_window_bound] show ?thesis
    by (auto simp: release_body_def Let_def split: sum.splits if_splits)
next
  case (Do_Stall now cutoff lo cs)
  obtain s1 m where d: "demote now cutoff lo cs s 0 = (s1, m)" by fastforce
  with assms(3) Do_Stall demote_frame [OF d] show ?thesis by (auto simp: stall_body_def split: if_splits)
next
  case (Do_Poll now resolve identify label)
  obtain s1 ch lb where a: "detect_all now resolve identify label s = (s1, ch, lb)" by (rule prod_cases3)
  have p: "polled resolve identify s (length (ss_windows (se_state s))) (s1, ch, lb)"
    using detect_all_polled [of s resolve identify now label] a assms(2) by (simp add: window_ids_of_def)
  have "s' = sweep_claims s1" "r = (if ch = 0 \<and> lb = 0 then Some No_Detect_Change else None)"
    using assms(3) Do_Poll a by (auto simp: detect_body_def)
  moreover have "same_frame s (sweep_claims s1)"
    using p sweep_frame [of s1] same_frame_trans by (auto simp: polled_def)
  ultimately show ?thesis using p by (auto simp: polled_def)
next
  case (Do_Output stamp pty resolve identify)
  show ?thesis
  proof (cases "first_index (\<lambda>w. wn_pty w = pty) (ss_windows (se_state s))")
    case None
    with assms(3) Do_Output show ?thesis by (simp add: output_body_def)
  next
    case (Some i)
    then have "i < length (ss_windows (se_state s))" using first_index_Some by blast
    note F = frame_change [OF this]
    from assms(3) Do_Output Some F show ?thesis
      by (auto simp: output_body_def Let_def split: prod.splits if_splits)
  qed
qed (use assms in auto)

lemma daemon_quiet_refused:
  assumes "daemon_inv (se_state s)" "daemon_body x s = (s', r)"
  shows "same_channel s s' \<and> (r \<noteq> None \<longrightarrow> se_state s' = se_state s)"
proof (cases "\<exists>y. x = Do_Window y")
  case True
  with assms(2) window_quiet show ?thesis by fastforce
next
  case False
  with agent_frame [OF _ _ assms(2)] assms(1) show ?thesis by (auto simp: same_frame_def daemon_inv_def)
qed

lemma daemon_keeps:
  assumes "daemon_inv (se_state s)" "daemon_admitted x s" "daemon_body x s = (s', None)"
  shows "daemon_inv (se_state s')"
proof (cases "\<exists>y. x = Do_Window y")
  case True
  with assms window_keeps show ?thesis by auto
next
  case False
  with agent_frame [OF _ _ assms(3)] assms(1) same_frame_inv show ?thesis by (auto simp: daemon_inv_def [of "se_state s"])
qed

interpretation daemon: state_mutation daemon_body daemon_admitted daemon_inv
proof
  show "daemon_inv (se_state s')"
    if "daemon_inv (se_state s)" "daemon_admitted x s" "daemon_body x s = (s', None)" for s x s'
    using that by (rule daemon_keeps)
  show "se_state s' = se_state s" if "daemon_inv (se_state s)" "daemon_body x s = (s', Some e)" for x s s' e
    using daemon_quiet_refused [OF that] by simp
  show "same_channel s s'" if "daemon_inv (se_state s)" "daemon_body x s = (s', r)" for x s s' r
    using daemon_quiet_refused [OF that] by simp
  show "daemon_inv (st\<lparr>ss_version := v\<rparr>)" if "daemon_inv st" for st v
    using that by (rule daemon_inv_version)
  show "distinct (window_ids_of st)" if "daemon_inv st" for st
    using that by (simp add: daemon_inv_def)
qed

text \<open>
  C28. Whatever the daemon does to its own state, in whatever order (windows opened, closed, focused,
  cycled, moved, renamed and minimized, workspaces switched and named, agent reports, releases,
  polls and timers), new windows having fresh identifiers: identifiers stay distinct, the focused
  window exists, each workspace remembers a window that is on it, the version counts the
  operations that were applied, and what was sent is in version order and never ahead of the state.
\<close>

theorem daemon_stays_coherent:
  assumes "daemon_inv (se_state s)" "channel_ok s" "admissible daemon_admitted daemon_body ops s"
  shows "daemon_inv (se_state (run_all daemon_body ops s)) \<and> channel_ok (run_all daemon_body ops s) \<and>
    ss_version (se_state (run_all daemon_body ops s)) = ss_version (se_state s) + int (applied daemon_body ops s)"
  using daemon.run_inv [OF assms(1,3)] daemon.run_channel [OF assms] by blast

definition sample_ops :: "string daemon_op list" where
  "sample_ops = [Do_Window (Op_Move ''ab1'' 2), Do_Window (Op_Close False ''ab2''), Do_Window (Op_Switch 12)]"

lemma sample_coherent: "daemon_inv (se_state sample_session)" "channel_ok sample_session"
    "admissible daemon_admitted daemon_body sample_ops sample_session"
  by (auto simp: daemon_inv_def window_ids_of_def channel_ok_def sample_ops_def sample_defs split: if_splits)

theorem daemon_stays_coherent_witness:
  "ss_focused (se_state (run_all daemon_body sample_ops sample_session)) = [] \<or>
   ss_focused (se_state (run_all daemon_body sample_ops sample_session)) \<in>
     set (window_ids_of (se_state (run_all daemon_body sample_ops sample_session)))"
  using daemon_stays_coherent [OF sample_coherent] by (simp add: daemon_inv_def)

text \<open>
  C29. A subscriber that applies the lifecycle events stays in step: if its picture fits the session
  before any history of operations, then after the events the history emitted it fits the session
  after it. It knows exactly the open windows, the current workspace and the focus, and nothing it
  believes about a window's name, workspace or minimization is wrong.
\<close>

theorem subscribers_stay_in_step:
  assumes "daemon_inv (se_state s)" "admissible daemon_admitted daemon_body ops s"
    and "s' = run_all daemon_body ops s" "knows t (snapshot_lifecycle (se_state s))"
  shows "knows (fold watch (drop (length (se_events s)) (se_events s')) t) (snapshot_lifecycle (se_state s'))"
proof -
  obtain evs where e: "se_events s' = se_events s @ evs"
      "\<forall>t. knows t (snapshot_lifecycle (se_state s)) \<longrightarrow> knows (fold watch evs t) (snapshot_lifecycle (se_state s'))"
    using daemon.run_picture [OF assms(1,2)] assms(3) by blast
  with assms(4) show ?thesis by simp
qed

definition sample_picture :: picture where
  "sample_picture = \<lparr>pc_open = {''ab1'', ''ab2''}, pc_name = Map.empty, pc_place = Map.empty, pc_min = Map.empty,
     pc_workspace = 1, pc_focus = ''ab1''\<rparr>"

theorem subscribers_stay_in_step_witness:
  "pc_open (fold watch (se_events (run_all daemon_body sample_ops sample_session)) sample_picture) =
   set (window_ids_of (se_state (run_all daemon_body sample_ops sample_session)))"
proof -
  have "knows sample_picture (snapshot_lifecycle (se_state sample_session))"
    by (auto simp: knows_def knows_window_def sample_picture_def sample_defs)
  moreover have "se_events sample_session = []" by (simp add: sample_session_def)
  ultimately have "knows (fold watch (se_events (run_all daemon_body sample_ops sample_session)) sample_picture)
      (snapshot_lifecycle (se_state (run_all daemon_body sample_ops sample_session)))"
    using subscribers_stay_in_step [OF sample_coherent(1,3) refl] by fastforce
  then show ?thesis by (simp add: knows_def window_ids_of_def image_image)
qed

end
