(* ===== verification/SessionMerge.thy ===== *)
theory SessionMerge
  imports DaemonWindows
begin

text \<open>
  Converging a client's snapshot onto the daemon's state (\<^verbatim>\<open>internal/session/state_merge.go\<close>,
  \<^verbatim>\<open>Session.UpdateState\<close>): a snapshot built before a mutation the client has not seen loses on the
  fields the daemon owns and wins on the others.
\<close>

subsection \<open>Operations\<close>

text \<open>The maps the code builds from a list of windows; a later window with the same identifier wins.\<close>

definition index_by :: "(window_state \<Rightarrow> 'v option) \<Rightarrow> window_state list \<Rightarrow> (string \<rightharpoonup> 'v)" where
  "index_by f ws = fold (\<lambda>w m. case f w of None \<Rightarrow> m | Some v \<Rightarrow> m(wn_id w \<mapsto> v)) ws Map.empty"

definition no_agent :: "window_state \<Rightarrow> bool" where
  "no_agent w \<longleftrightarrow> wn_agent w = Agent_None \<and> wn_message w = [] \<and> wn_harness w = [] \<and> wn_agent_at w = 0"

definition retain_window :: "window_state list \<Rightarrow> window_state \<Rightarrow> window_state" where
  "retain_window canonical w =
     (let cwds = index_by (\<lambda>c. if wn_cwd c \<noteq> [] then Some (wn_cwd c) else None) canonical;
          cmds = index_by (\<lambda>c. if wn_command c \<noteq> [] then Some (wn_command c) else None) canonical;
          agents = index_by (\<lambda>c. if no_agent c then None else Some (wn_agent c, wn_message c, wn_harness c, wn_agent_at c)) canonical;
          w1 = (if wn_cwd w = [] then w\<lparr>wn_cwd := (case cwds (wn_id w) of None \<Rightarrow> [] | Some v \<Rightarrow> v)\<rparr> else w);
          w2 = (if wn_command w1 = [] then w1\<lparr>wn_command := (case cmds (wn_id w1) of None \<Rightarrow> [] | Some v \<Rightarrow> v)\<rparr> else w1)
      in case agents (wn_id w2) of
           Some (a, m, h, t) \<Rightarrow> if no_agent w2
             then w2\<lparr>wn_agent := a, wn_message := m, wn_harness := h, wn_agent_at := t\<rparr> else w2
         | None \<Rightarrow> w2)"

definition retain_exclusive :: "session_state \<Rightarrow> session_state \<Rightarrow> session_state" where
  "retain_exclusive canonical inc =
     inc\<lparr>ss_options := (if ss_options inc = None then ss_options canonical else ss_options inc),
         ss_display := (if ss_display inc = [] then ss_display canonical else ss_display inc),
         ss_accent := (if ss_accent inc = [] then ss_accent canonical else ss_accent inc),
         ss_restored := ss_restored canonical,
         ss_ws_names := (if ss_ws_names inc = None then ss_ws_names canonical else ss_ws_names inc),
         ss_saved_version := (if ss_saved_version inc = 0 then ss_saved_version canonical else ss_saved_version inc),
         ss_windows := map (retain_window (ss_windows canonical)) (ss_windows inc)\<rparr>"

definition take_owned :: "window_state \<Rightarrow> window_state \<Rightarrow> window_state" where
  "take_owned cw w = w\<lparr>wn_custom := wn_custom cw, wn_workspace := wn_workspace cw, wn_minimized := wn_minimized cw\<rparr>"

definition known_windows :: "window_state list \<Rightarrow> window_state list \<Rightarrow> window_state list" where
  "known_windows canonical inc =
     concat (map (\<lambda>w. case index_by Some canonical (wn_id w) of None \<Rightarrow> [] | Some cw \<Rightarrow> [take_owned cw w]) inc)"

definition unseen_windows :: "(string \<Rightarrow> bool) \<Rightarrow> window_state list \<Rightarrow> window_state list \<Rightarrow> window_state list" where
  "unseen_windows live kept canonical =
     filter (\<lambda>w. wn_id w \<notin> wn_id ` set kept \<and> \<not> (wn_pty w \<noteq> [] \<and> \<not> live (wn_pty w))) canonical"

definition reconcile_stale :: "(string \<Rightarrow> bool) \<Rightarrow> session_state \<Rightarrow> session_state \<Rightarrow> session_state" where
  "reconcile_stale live canonical inc =
     (let kept = known_windows (ss_windows canonical) (ss_windows inc)
      in inc\<lparr>ss_windows := kept @ unseen_windows live kept (ss_windows canonical),
             ss_focused := ss_focused canonical, ss_workspace := ss_workspace canonical,
             ss_ws_focus := (if ss_ws_focus canonical \<noteq> None then ss_ws_focus canonical else ss_ws_focus inc)\<rparr>)"

definition stale_sync :: "session_state \<Rightarrow> session_state \<Rightarrow> bool" where
  "stale_sync canonical inc \<longleftrightarrow> ss_base inc \<noteq> 0 \<and> ss_base inc < ss_version canonical"

definition update_state :: "session_state \<Rightarrow> session \<Rightarrow> bool \<times> session" where
  "update_state inc0 se =
     (let prev = se_state se; stale = stale_sync prev inc0;
          inc1 = (if stale then reconcile_stale (\<lambda>p. p \<in> se_ptys se) prev inc0 else inc0);
          inc2 = (retain_exclusive prev inc1)\<lparr>ss_version := ss_version prev, ss_base := 0\<rparr>
      in (\<not> stale, emit_lifecycle prev (se\<lparr>se_state := inc2, se_dirty := True\<rparr>)))"

subsection \<open>What is kept\<close>

lemma index_by_step: "index_by f (ws @ [w]) = (case f w of None \<Rightarrow> index_by f ws | Some v \<Rightarrow> (index_by f ws)(wn_id w \<mapsto> v))"
  by (cases "f w") (simp_all add: index_by_def)

lemma index_by_Some: "index_by f ws i = Some v \<Longrightarrow> \<exists>w\<in>set ws. wn_id w = i \<and> f w = Some v"
  by (induction ws rule: rev_induct) (auto simp: index_by_step index_by_def [of _ "[]"] split: option.splits if_splits)

lemma index_by_all: "index_by Some ws i = None \<longleftrightarrow> i \<notin> wn_id ` set ws"
  by (induction ws rule: rev_induct) (auto simp: index_by_step index_by_def [of _ "[]"])

definition client_part :: "window_state \<Rightarrow> string \<times> string \<times> (int \<times> int \<times> int \<times> int \<times> int) \<times> (int \<times> int \<times> int \<times> int) \<times> string \<times> bool \<times> bool \<times> bool" where
  "client_part w = (wn_id w, wn_title w, (wn_x w, wn_y w, wn_width w, wn_height w, wn_z w), wn_pre w, wn_pty w,
     wn_alt w, wn_title_locked w, wn_unplaced w)"

definition owned_part :: "window_state \<Rightarrow> string \<times> string \<times> int \<times> bool" where
  "owned_part w = (wn_id w, wn_custom w, wn_workspace w, wn_minimized w)"

lemma retain_window_parts [simp]:
  "client_part (retain_window cs w) = client_part w" "owned_part (retain_window cs w) = owned_part w"
  "wn_id (retain_window cs w) = wn_id w"
  by (auto simp: retain_window_def Let_def client_part_def owned_part_def split: option.splits)

lemma take_owned_parts [simp]:
  "client_part (take_owned cw w) = client_part w" "wn_id (take_owned cw w) = wn_id w"
  "wn_id cw = wn_id w \<Longrightarrow> owned_part (take_owned cw w) = owned_part cw"
  by (simp_all add: take_owned_def client_part_def owned_part_def)

lemma known_windows_ids:
  "map wn_id (known_windows cs ws) = filter (\<lambda>i. i \<in> wn_id ` set cs) (map wn_id ws)"
  unfolding known_windows_def
  by (induction ws) (auto simp: index_by_all split: option.splits dest: index_by_Some)

lemma known_windows_parts:
  "v \<in> set (known_windows cs ws) \<Longrightarrow>
   (\<exists>w\<in>set ws. client_part v = client_part w) \<and> (\<exists>c\<in>set cs. owned_part v = owned_part c)"
proof -
  assume "v \<in> set (known_windows cs ws)"
  then obtain w cw where w: "w \<in> set ws" "index_by Some cs (wn_id w) = Some cw" "v = take_owned cw w"
    by (auto simp: known_windows_def split: option.splits) metis
  then have "cw \<in> set cs" "wn_id cw = wn_id w" using index_by_Some [OF w(2)] by auto
  with w show ?thesis by (metis take_owned_parts(1,3))
qed

text \<open>
  C30. A stale snapshot cannot undo the daemon: it brings back no window the daemon does not have,
  loses none whose terminal is still open (or that has none), and one it omits whose terminal is
  gone stays closed; every window carries the daemon's name, workspace and minimization, and one the
  client sent carries the client's geometry; focus and current workspace are the daemon's, the
  version does not move, and the sync is reported as not taken as sent.
\<close>

theorem stale_sync_keeps_daemon:
  assumes "distinct (window_ids_of (se_state se))" "distinct (window_ids_of inc)" "stale_sync (se_state se) inc"
    and "update_state inc se = (ok, se')" "new = ss_windows (se_state se')" "old = ss_windows (se_state se)"
  shows "\<not> ok \<and> distinct (map wn_id new) \<and> wn_id ` set new \<subseteq> wn_id ` set old \<and>
    (\<forall>w\<in>set old. wn_id w \<in> wn_id ` set new \<longleftrightarrow>
       wn_id w \<in> set (window_ids_of inc) \<or> wn_pty w = [] \<or> wn_pty w \<in> se_ptys se) \<and>
    (\<forall>v\<in>set new. \<exists>w\<in>set old. owned_part v = owned_part w) \<and>
    (\<forall>v\<in>set new. wn_id v \<in> set (window_ids_of inc) \<longrightarrow> (\<exists>w\<in>set (ss_windows inc). client_part v = client_part w)) \<and>
    ss_focused (se_state se') = ss_focused (se_state se) \<and> ss_workspace (se_state se') = ss_workspace (se_state se) \<and>
    ss_version (se_state se') = ss_version (se_state se)"
proof -
  define live where "live = (\<lambda>p. p \<in> se_ptys se)"
  define kept where "kept = known_windows old (ss_windows inc)"
  define more where "more = unseen_windows live kept old"
  have st: "se_state se' = (retain_exclusive (se_state se) (reconcile_stale live (se_state se) inc))
      \<lparr>ss_version := ss_version (se_state se), ss_base := 0\<rparr>" "\<not> ok"
    using assms(3,4) by (auto simp: update_state_def Let_def live_def emit_lifecycle_def)
  have new: "new = map (retain_window old) (kept @ more)"
    by (simp add: assms(5,6) st retain_exclusive_def reconcile_stale_def Let_def kept_def more_def)
  have ids: "map wn_id new = map wn_id kept @ map wn_id more" by (simp add: new comp_def)
  have kid: "map wn_id kept = filter (\<lambda>i. i \<in> wn_id ` set old) (window_ids_of inc)"
    by (simp add: kept_def known_windows_ids window_ids_of_def)
  have "set (map wn_id kept) = set (window_ids_of inc) \<inter> wn_id ` set old"
    unfolding kid by auto
  then have kset: "wn_id ` set kept = set (window_ids_of inc) \<inter> wn_id ` set old" by simp
  have dk: "distinct (map wn_id kept)" using kid assms(2) by simp
  have dm: "distinct (map wn_id more)" using assms(1,6) by (simp add: more_def unseen_windows_def window_ids_of_def distinct_map_filter)
  have fresh: "wn_id x \<notin> wn_id ` set kept" if "x \<in> set more" for x
    using that by (simp add: more_def unseen_windows_def)
  have "wn_id ` set kept \<inter> wn_id ` set more = {}"
  proof (rule equals0I)
    fix i
    assume i: "i \<in> wn_id ` set kept \<inter> wn_id ` set more"
    then obtain x where x: "x \<in> set more" "i = wn_id x" by (elim IntE imageE)
    from fresh [OF x(1)] i x(2) show False by (elim IntE) simp
  qed
  then have "distinct (map wn_id new)" using dk dm ids by simp
  note dist = this
  have nset: "wn_id ` set new = wn_id ` set kept \<union> wn_id ` set more" by (simp add: new image_image image_Un)
  have msub: "wn_id ` set more \<subseteq> wn_id ` set old" by (auto simp: more_def unseen_windows_def)
  have mem: "wn_id w \<in> wn_id ` set new \<longleftrightarrow> wn_id w \<in> set (window_ids_of inc) \<or> wn_pty w = [] \<or> wn_pty w \<in> se_ptys se"
    if w: "w \<in> set old" for w
  proof -
    have inj: "inj_on wn_id (set old)" using assms(1,6) by (simp add: window_ids_of_def distinct_map)
    have sub: "set more \<subseteq> set old" by (auto simp: more_def unseen_windows_def)
    have "wn_id w \<in> wn_id ` set more \<longleftrightarrow> w \<in> set more" using inj_on_image_mem_iff [OF inj w sub] .
    moreover have "w \<in> set more \<longleftrightarrow> wn_id w \<notin> wn_id ` set kept \<and> (wn_pty w = [] \<or> wn_pty w \<in> se_ptys se)"
      using w by (auto simp: more_def unseen_windows_def live_def)
    moreover have "wn_id w \<in> wn_id ` set kept \<longleftrightarrow> wn_id w \<in> set (window_ids_of inc)" using w kset by auto
    ultimately show ?thesis unfolding nset Un_iff by argo
  qed
  have own: "\<exists>w\<in>set old. owned_part v = owned_part w" if v: "v \<in> set new" for v
  proof -
    obtain u where u: "u \<in> set kept \<or> u \<in> set more" "v = retain_window old u" using v by (auto simp: new)
    then have "\<exists>w\<in>set old. owned_part u = owned_part w"
      using known_windows_parts [of u old "ss_windows inc"] by (auto simp: kept_def more_def unseen_windows_def)
    with u(2) show ?thesis by simp
  qed
  have cli: "\<exists>w\<in>set (ss_windows inc). client_part v = client_part w"
    if v: "v \<in> set new" "wn_id v \<in> set (window_ids_of inc)" for v
  proof -
    obtain u where u: "u \<in> set kept \<or> u \<in> set more" "v = retain_window old u" using v(1) by (auto simp: new)
    have "u \<notin> set more"
    proof
      assume "u \<in> set more"
      then have "wn_id u \<notin> wn_id ` set kept" "wn_id u \<in> wn_id ` set old" using msub by (auto simp: more_def unseen_windows_def)
      with v(2) u(2) kset show False by simp
    qed
    then have "u \<in> set (known_windows old (ss_windows inc))" using u(1) by (simp add: kept_def)
    from known_windows_parts [OF this] u(2) show ?thesis by simp
  qed
  have sub: "wn_id ` set new \<subseteq> wn_id ` set old" using nset kset msub by simp
  have rest: "ss_focused (se_state se') = ss_focused (se_state se)" "ss_workspace (se_state se') = ss_workspace (se_state se)"
    "ss_version (se_state se') = ss_version (se_state se)"
    by (simp_all add: st retain_exclusive_def reconcile_stale_def Let_def)
  show ?thesis
  proof (intro conjI ballI impI)
    fix w
    assume "w \<in> set old"
    then show "wn_id w \<in> wn_id ` set new \<longleftrightarrow> wn_id w \<in> set (window_ids_of inc) \<or> wn_pty w = [] \<or> wn_pty w \<in> se_ptys se"
      by (rule mem)
  qed (fact st(2) dist sub own cli rest)+
qed

definition sample_snapshot :: session_state where
  "sample_snapshot = \<lparr>ss_name = ''s'', ss_display = [], ss_accent = [], ss_restored = False, ss_classroom = [],
     ss_windows = [new_window ''w1'' ''vi'' 3 40 24 ''p'' False, new_window ''w9'' ''gone'' 1 40 24 ''z'' False],
     ss_focused = ''w9'', ss_workspace = 3, ss_ws_focus = None, ss_master = 0, ss_tiling = True, ss_width = 80, ss_height = 24,
     ss_ws_names = None, ss_ws_tiling = None, ss_trees = None, ss_bsp_ids = None, ss_next_bsp = 0, ss_scheme = 0,
     ss_layout = [], ss_num_ws = 0, ss_saved_version = 0, ss_version = 0, ss_base = 4, ss_options = None\<rparr>"

definition sample_daemon :: "string \<Rightarrow> session" where
  "sample_daemon f = \<lparr>se_state = sample_snapshot\<lparr>ss_windows := [new_window ''w1'' ''sh'' 1 80 24 ''p'' False,
       new_window ''w2'' ''sh'' 1 80 24 ''q'' False, new_window ''w3'' ''sh'' 1 80 24 ''x'' False],
       ss_focused := f, ss_workspace := 1, ss_version := 5\<rparr>,
     se_claims = Map.empty, se_holds = [], se_timer = None, se_events = [], se_dirty = False, se_sink = True,
     se_pushed = 5, se_sent = [], se_width = 80, se_height = 24, se_ptys = {''p'', ''q''}\<rparr>"

theorem stale_sync_keeps_daemon_witness:
  "''w9'' \<notin> wn_id ` set (ss_windows (se_state (snd (update_state sample_snapshot (sample_daemon ''w1''))))) \<and>
   ''w2'' \<in> wn_id ` set (ss_windows (se_state (snd (update_state sample_snapshot (sample_daemon ''w1'')))))"
proof -
  let ?s = "sample_daemon ''w1''"
  obtain ok se' where u: "update_state sample_snapshot ?s = (ok, se')" by fastforce
  have d: "distinct (window_ids_of (se_state ?s))" "distinct (window_ids_of sample_snapshot)" "stale_sync (se_state ?s) sample_snapshot"
    by (simp_all add: window_ids_of_def stale_sync_def sample_daemon_def sample_snapshot_def new_window_def)
  have w: "ss_windows (se_state ?s) = [new_window ''w1'' ''sh'' 1 80 24 ''p'' False,
       new_window ''w2'' ''sh'' 1 80 24 ''q'' False, new_window ''w3'' ''sh'' 1 80 24 ''x'' False]" "se_ptys ?s = {''p'', ''q''}"
    by (simp_all add: sample_daemon_def)
  from stale_sync_keeps_daemon [OF d u refl refl] show ?thesis
    unfolding u w by (auto simp: new_window_def)
qed

text \<open>
  The focus comes from the daemon even when the window it names is not in the result: a window the
  snapshot omits and whose terminal is gone is dropped, and stays focused.
\<close>

lemma stale_focus_dangles:
  "ss_focused (se_state (snd (update_state sample_snapshot (sample_daemon ''w3'')))) = ''w3'' \<and>
   ''w3'' \<notin> wn_id ` set (ss_windows (se_state (snd (update_state sample_snapshot (sample_daemon ''w3'')))))"
  by (simp add: update_state_def Let_def stale_sync_def sample_daemon_def sample_snapshot_def emit_lifecycle_def
      reconcile_stale_def retain_exclusive_def known_windows_def unseen_windows_def index_by_def new_window_def take_owned_def)

subsection \<open>A current snapshot\<close>



end
