(* ===== verification/AgentHoldSpec.thy ===== *)
theory AgentHoldSpec
  imports AgentSpec
begin

text \<open>
  The policy of holding a quieter state back, and its backstop: what a source may publish at once,
  and that whatever was held is published when its time has come.
\<close>

subsection \<open>The policy\<close>

lemma map_of_delete: "map_of (AList.delete k al) j = (if j = k then None else map_of al j)"
  by (simp add: AList.delete_conv')

lemma map_of_update: "map_of (AList.update k v al) j = (if j = k then Some v else map_of al j)"
  by (simp add: AList.update_conv')

text \<open>
  C36. A sampled state is published at once exactly when it differs from the current one and is at
  least as loud, or has been held unchanged for the whole window; a state already shown or published
  leaves nothing held for the pane, a refused one leaves a hold that says it and began no later than
  now; other panes' holds stay as they are. So a source that flips to something quieter and back
  within the window publishes nothing and leaves nothing held.
\<close>

theorem hold_policy:
  assumes "hold_quieter w nxt current source now se = (go, se')"
    and "\<forall>h. map_of (se_holds se) w = Some h \<longrightarrow> ah_since h \<le> now"
  shows "(go \<longleftrightarrow> nxt \<noteq> current \<and> (agent_loudness current \<le> agent_loudness nxt \<or>
      (\<exists>h. map_of (se_holds se) w = Some h \<and> ah_state h = nxt \<and> hold_due now h))) \<and>
    (go \<or> nxt = current \<longrightarrow> map_of (se_holds se') w = None) \<and>
    (\<not> go \<and> nxt \<noteq> current \<longrightarrow> (\<exists>h. map_of (se_holds se') w = Some h \<and> ah_state h = nxt \<and> ah_since h \<le> now)) \<and>
    (\<forall>v. v \<noteq> w \<longrightarrow> map_of (se_holds se') v = map_of (se_holds se) v) \<and>
    se_state se' = se_state se \<and> se_claims se' = se_claims se \<and>
    (\<forall>later source'. now \<le> later \<longrightarrow> \<not> fst (hold_quieter w current current source' later se') \<and>
       map_of (se_holds (snd (hold_quieter w current current source' later se'))) w = None)"
proof -
  have sch: "se_holds (schedule_settle now s) = se_holds s" "se_state (schedule_settle now s) = se_state s"
    "se_claims (schedule_settle now s) = se_claims s" for s
    by (simp_all add: schedule_settle_def Let_def)
  have bck: "hold_quieter w current current source' later s = (False, drop_hold w s)" for source' later s
    by (simp add: hold_quieter_def)
  have drop: "map_of (se_holds (drop_hold w s)) v = (if v = w then None else map_of (se_holds s) v)"
    "se_state (drop_hold w s) = se_state s" "se_claims (drop_hold w s) = se_claims s" for s v
    by (simp_all add: drop_hold_def map_of_delete)
  consider (same) "nxt = current" | (loud) "nxt \<noteq> current" "agent_loudness current \<le> agent_loudness nxt"
    | (fresh) "nxt \<noteq> current" "\<not> agent_loudness current \<le> agent_loudness nxt"
        "\<forall>h. map_of (se_holds se) w = Some h \<longrightarrow> ah_state h \<noteq> nxt"
    | (held) h where "nxt \<noteq> current" "\<not> agent_loudness current \<le> agent_loudness nxt"
        "map_of (se_holds se) w = Some h" "ah_state h = nxt" by blast
  then show ?thesis
  proof cases
    case same
    then have "go = False" "se' = drop_hold w se" using assms(1) by (auto simp: hold_quieter_def)
    with same show ?thesis by (simp add: bck drop)
  next
    case loud
    then have "go = True" "se' = drop_hold w se" using assms(1) by (auto simp: hold_quieter_def)
    with loud show ?thesis by (simp add: bck drop)
  next
    case fresh
    define s1 where "s1 = se\<lparr>se_holds := AList.update w \<lparr>ah_state = nxt, ah_source = source, ah_since = now\<rparr> (se_holds se)\<rparr>"
    have "go = False" "se' = schedule_settle now s1"
      using assms(1) fresh by (auto simp: hold_quieter_def Let_def s1_def split: option.splits)
    with fresh show ?thesis by (auto simp: bck drop sch s1_def map_of_update)
  next
    case held
    show ?thesis
    proof (cases "hold_due now h")
      case True
      then have "go = True" "se' = drop_hold w se" using assms(1) held by (auto simp: hold_quieter_def hold_due_def)
      with held True show ?thesis by (simp add: bck drop)
    next
      case False
      then have "go = False" "se' = se" using assms(1) held by (auto simp: hold_quieter_def hold_due_def)
      with held False assms(2) show ?thesis by (simp add: bck drop)
    qed
  qed
qed

theorem hold_policy_witness:
  "map_of (se_holds (snd (hold_quieter ''ab1'' Agent_Working Agent_Working Source_OSC 9
     (snd (hold_quieter ''ab1'' Agent_Idle Agent_Working Source_OSC 5 sample_session))))) ''ab1'' = None"
proof -
  obtain go se' where h: "hold_quieter ''ab1'' Agent_Idle Agent_Working Source_OSC 5 sample_session = (go, se')" by fastforce
  have "\<forall>h. map_of (se_holds sample_session) ''ab1'' = Some h \<longrightarrow> ah_since h \<le> 5" by (simp add: sample_session_def)
  from hold_policy [OF h this] show ?thesis unfolding h by simp
qed

subsection \<open>Publishing\<close>

lemma report_at:
  assumes "distinct (map wn_id (ss_windows (se_state se)))" "j < length (ss_windows (se_state se))"
    and "wn_id (ss_windows (se_state se) ! j) = t" "t \<noteq> []" "se' = fst (apply_report n s t r se)"
  shows "map wn_id (ss_windows (se_state se')) = map wn_id (ss_windows (se_state se))"
    "\<And>i. i \<noteq> j \<Longrightarrow> ss_windows (se_state se') ! i = ss_windows (se_state se) ! i"
    "\<And>v. v \<noteq> t \<Longrightarrow> se_claims se' v = se_claims se v" "se_holds se' = se_holds se" "se_timer se' = se_timer se"
    "\<not> outranked se t (sourced r) \<Longrightarrow> wn_agent (ss_windows (se_state se') ! j) = rp_state r"
proof -
  have f: "find_window (ss_windows (se_state se)) t = Inr j" by (rule find_exact [OF assms(1-4)])
  have "map wn_id (ss_windows (se_state se')) = map wn_id (ss_windows (se_state se)) \<and>
    (\<forall>i. i \<noteq> j \<longrightarrow> ss_windows (se_state se') ! i = ss_windows (se_state se) ! i) \<and>
    (\<forall>v. v \<noteq> t \<longrightarrow> se_claims se' v = se_claims se v) \<and> se_holds se' = se_holds se \<and> se_timer se' = se_timer se \<and>
    (\<not> outranked se t (sourced r) \<longrightarrow> wn_agent (ss_windows (se_state se') ! j) = rp_state r)"
  proof (cases "outranked se t (sourced r) \<and> \<not> blocker_overrides (ss_windows (se_state se) ! j) (sourced r) n")
    case True
    then have "se' = se" using report_refused [OF f refl] assms(3,5) by simp
    with True show ?thesis by simp
  next
    case False
    then have "outranked se (wn_id (ss_windows (se_state se) ! j)) (sourced r) \<longrightarrow>
        blocker_overrides (ss_windows (se_state se) ! j) (sourced r) n" using assms(3) by blast
    from report_accepted [OF f refl refl this, of s] assms(2,3,5) show ?thesis by (auto simp: ids_update)
  qed
  then show "map wn_id (ss_windows (se_state se')) = map wn_id (ss_windows (se_state se))"
    "\<And>i. i \<noteq> j \<Longrightarrow> ss_windows (se_state se') ! i = ss_windows (se_state se) ! i"
    "\<And>v. v \<noteq> t \<Longrightarrow> se_claims se' v = se_claims se v" "se_holds se' = se_holds se" "se_timer se' = se_timer se"
    "\<not> outranked se t (sourced r) \<Longrightarrow> wn_agent (ss_windows (se_state se') ! j) = rp_state r"
    by blast+
qed

definition published :: "(string \<times> agent_hold) list \<Rightarrow> session \<Rightarrow> session \<Rightarrow> bool" where
  "published hs se se' \<longleftrightarrow>
     map wn_id (ss_windows (se_state se')) = map wn_id (ss_windows (se_state se)) \<and>
     se_holds se' = se_holds se \<and> se_timer se' = se_timer se \<and>
     (\<forall>i. i < length (ss_windows (se_state se)) \<longrightarrow> wn_id (ss_windows (se_state se) ! i) \<notin> fst ` set hs \<longrightarrow>
        ss_windows (se_state se') ! i = ss_windows (se_state se) ! i) \<and>
     (\<forall>v. v \<notin> fst ` set hs \<longrightarrow> se_claims se' v = se_claims se v) \<and>
     (\<forall>w h i. (w, h) \<in> set hs \<longrightarrow> i < length (ss_windows (se_state se)) \<longrightarrow> wn_id (ss_windows (se_state se) ! i) = w \<longrightarrow>
        \<not> outranked se w (sourced (hold_report h)) \<longrightarrow> wn_agent (ss_windows (se_state se') ! i) = ah_state h)"

lemma publish_spec:
  assumes "distinct (map wn_id (ss_windows (se_state se)))" "[] \<notin> wn_id ` set (ss_windows (se_state se))"
    and "distinct (map fst hs)" "fst ` set hs \<subseteq> wn_id ` set (ss_windows (se_state se))"
  shows "published hs se (fst (publish_holds clock hs se n))"
  using assms
proof (induction hs arbitrary: se n)
  case Nil
  then show ?case by (simp add: published_def)
next
  case (Cons x hs)
  let ?ws = "ss_windows (se_state se)"
  obtain w h where x: "x = (w, h)" by fastforce
  define s1 where "s1 = fst (apply_report clock clock w (hold_report h) se)"
  define m where "m = (case snd (apply_report clock clock w (hold_report h) se) of Inr (_, True) \<Rightarrow> n + 1 | _ \<Rightarrow> n)"
  have step: "publish_holds clock (x # hs) se n = publish_holds clock hs s1 m"
    by (auto simp: x s1_def m_def split: prod.splits sum.splits bool.splits)
  have "w \<in> wn_id ` set ?ws" using Cons.prems(4) x by simp
  then obtain v where "v \<in> set ?ws" "w = wn_id v" by blast
  then obtain j where j: "j < length ?ws" "wn_id (?ws ! j) = w" unfolding in_set_conv_nth by metis
  have ne: "w \<noteq> []" using \<open>w \<in> wn_id ` set ?ws\<close> Cons.prems(2) by metis
  note R = report_at [OF Cons.prems(1) j ne s1_def]
  have len: "length (ss_windows (se_state s1)) = length ?ws" using R(1) by (metis length_map)
  have ids: "wn_id (ss_windows (se_state s1) ! i) = wn_id (?ws ! i)" if "i < length ?ws" for i
    using arg_cong [OF R(1), of "\<lambda>l. l ! i"] that len by simp
  have idset: "wn_id ` set (ss_windows (se_state s1)) = wn_id ` set ?ws" using R(1) by (metis list.set_map)
  have "published hs s1 (fst (publish_holds clock hs s1 m))"
    using Cons.prems x by (intro Cons.IH) (auto simp: R(1) idset)
  then have P: "map wn_id (ss_windows (se_state (fst (publish_holds clock hs s1 m)))) = map wn_id ?ws"
    "se_holds (fst (publish_holds clock hs s1 m)) = se_holds se" "se_timer (fst (publish_holds clock hs s1 m)) = se_timer se"
    "\<And>i. i < length ?ws \<Longrightarrow> wn_id (?ws ! i) \<notin> fst ` set hs \<Longrightarrow>
       ss_windows (se_state (fst (publish_holds clock hs s1 m))) ! i = ss_windows (se_state s1) ! i"
    "\<And>v. v \<notin> fst ` set hs \<Longrightarrow> se_claims (fst (publish_holds clock hs s1 m)) v = se_claims s1 v"
    "\<And>u g i. (u, g) \<in> set hs \<Longrightarrow> i < length ?ws \<Longrightarrow> wn_id (?ws ! i) = u \<Longrightarrow>
       \<not> outranked s1 u (sourced (hold_report g)) \<Longrightarrow>
       wn_agent (ss_windows (se_state (fst (publish_holds clock hs s1 m))) ! i) = ah_state g"
    using R(1,4,5) len ids unfolding published_def by auto
  have notin: "w \<notin> fst ` set hs" using Cons.prems(3) x by simp
  have out: "outranked s1 u q = outranked se u q" if "u \<noteq> w" for u q
    using R(3) [OF that] by (simp add: outranked_def claim_for_def)
  show ?case
    unfolding step published_def
  proof (intro conjI allI impI)
    show "map wn_id (ss_windows (se_state (fst (publish_holds clock hs s1 m)))) = map wn_id ?ws"
      "se_holds (fst (publish_holds clock hs s1 m)) = se_holds se"
      "se_timer (fst (publish_holds clock hs s1 m)) = se_timer se" by (fact P(1-3))+
    show "ss_windows (se_state (fst (publish_holds clock hs s1 m))) ! i = ?ws ! i"
      if "i < length ?ws" "wn_id (?ws ! i) \<notin> fst ` set (x # hs)" for i
    proof -
      have "i \<noteq> j" "wn_id (?ws ! i) \<notin> fst ` set hs" using that(2) j(2) x by auto
      then show ?thesis using P(4) [OF that(1)] R(2) by simp
    qed
    show "se_claims (fst (publish_holds clock hs s1 m)) v = se_claims se v" if "v \<notin> fst ` set (x # hs)" for v
      using that P(5) R(3) x by simp
    show "wn_agent (ss_windows (se_state (fst (publish_holds clock hs s1 m))) ! i) = ah_state g"
      if a: "(u, g) \<in> set (x # hs)" "i < length ?ws" "wn_id (?ws ! i) = u" "\<not> outranked se u (sourced (hold_report g))" for u g i
    proof (cases "u = w")
      case True
      then have g: "g = h" using a(1) x notin by (force simp: image_iff)
      have "i = j" using True a(2,3) j Cons.prems(1) nth_eq_iff_index_eq [of "map wn_id ?ws" i j] by simp
      then show ?thesis using P(4) [OF a(2)] R(6) a(3,4) True notin g by (simp add: hold_report_def)
    next
      case False
      then have "(u, g) \<in> set hs" using a(1) x by auto
      then show ?thesis using P(6) a(2-4) out [OF False] by simp
    qed
  qed
qed



end
