(* ===== verification/TapeLexer.thy ===== *)
theory TapeLexer
  imports Prelude
begin

text \<open>
  The lexer of the automation language (\<^verbatim>\<open>internal/tape/lexer.go\<close>, \<^verbatim>\<open>token.go\<close>). A Go string is a
  list of bytes, and a HOL character is a byte. Token types are strings, as they are in the source.
  The current byte is zero at the end of the input, and a zero byte inside it looks the same.
\<close>

subsection \<open>Bytes\<close>

abbreviation NUL :: char where "NUL \<equiv> CHR 0x00"
abbreviation newline :: char where "newline \<equiv> CHR 0x0A"
abbreviation backslash :: char where "backslash \<equiv> CHR 0x5C"
abbreviation dquote :: char where "dquote \<equiv> CHR 0x22"
abbreviation squote :: char where "squote \<equiv> CHR 0x27"
abbreviation backtick :: char where "backtick \<equiv> CHR 0x60"

definition code :: "char \<Rightarrow> nat" where "code c = of_char c"

definition is_digit :: "char \<Rightarrow> bool" where "is_digit c \<longleftrightarrow> 48 \<le> code c \<and> code c \<le> 57"

text \<open>\<^verbatim>\<open>unicode.IsLetter\<close> of a byte taken as a code point: the letters of Latin-1.\<close>

definition is_letter :: "char \<Rightarrow> bool" where
  "is_letter c \<longleftrightarrow> (let n = code c in
     (65 \<le> n \<and> n \<le> 90) \<or> (97 \<le> n \<and> n \<le> 122) \<or> n = 170 \<or> n = 181 \<or> n = 186 \<or>
     (192 \<le> n \<and> n \<noteq> 215 \<and> n \<noteq> 247))"

definition is_ident :: "char \<Rightarrow> bool" where
  "is_ident c \<longleftrightarrow> is_letter c \<or> is_digit c \<or> c = CHR ''_''"

definition is_blank :: "char \<Rightarrow> bool" where
  "is_blank c \<longleftrightarrow> c = CHR '' '' \<or> c = CHR 0x09 \<or> c = CHR 0x0D"

text \<open>
  \<^verbatim>\<open>strings.ToLower\<close> as far as the language uses it, to look words up among ASCII keywords: no byte
  of a longer encoding that an identifier can hold is lowered to ASCII.
\<close>

definition lower_char :: "char \<Rightarrow> char" where
  "lower_char c = (if 65 \<le> code c \<and> code c \<le> 90 then char_of (code c + 32) else c)"

definition to_lower :: "string \<Rightarrow> string" where "to_lower = map lower_char"

subsection \<open>Tokens\<close>

abbreviation token_eof :: string where "token_eof \<equiv> ''EOF''"
abbreviation token_newline :: string where "token_newline \<equiv> ''NEWLINE''"
abbreviation token_string :: string where "token_string \<equiv> ''STRING''"
abbreviation token_number :: string where "token_number \<equiv> ''NUMBER''"
abbreviation token_duration :: string where "token_duration \<equiv> ''DURATION''"
abbreviation token_identifier :: string where "token_identifier \<equiv> ''IDENTIFIER''"
abbreviation token_plus :: string where "token_plus \<equiv> ''PLUS''"
abbreviation token_at_sign :: string where "token_at_sign \<equiv> ''AT''"

record token =
  tk_type :: string
  tk_lit :: string
  tk_line :: nat
  tk_col :: nat

text \<open>\<^verbatim>\<open>KeywordTokenMap\<close>: every keyword's token type is spelled like the keyword.\<close>

definition keyword_list :: "string list" where
  "keyword_list =
     [''Type'', ''Sleep'', ''Enter'', ''Space'', ''Backspace'', ''Delete'', ''Tab'', ''Escape'',
      ''Up'', ''Down'', ''Left'', ''Right'', ''Home'', ''End'', ''Ctrl'', ''Alt'', ''Shift'',
      ''TerminalMode'', ''WindowManagementMode'',
      ''NewWindow'', ''CloseWindow'', ''NextWindow'', ''PrevWindow'', ''FocusWindow'', ''RenameWindow'',
      ''MinimizeWindow'', ''RestoreWindow'',
      ''ToggleTiling'', ''EnableTiling'', ''DisableTiling'', ''SnapLeft'', ''SnapRight'', ''SnapFullscreen'',
      ''SwitchWorkspace'', ''MoveToWorkspace'', ''MoveAndFollowWorkspace'',
      ''Split'', ''Focus'', ''RotateSplit'', ''EqualizeSplits'', ''ToggleZoom'', ''SmartSplit'',
      ''CommandPalette'', ''SaveLayout'', ''LoadLayout'', ''Wait'', ''WaitUntilRegex'',
      ''Set'', ''Output'', ''Source'', ''EnableAnimations'', ''DisableAnimations'', ''ToggleAnimations'',
      ''true'', ''false'']"

definition lookup_keyword :: "string \<Rightarrow> string" where
  "lookup_keyword w =
     (if w \<in> set keyword_list then w
      else case find (\<lambda>k. to_lower k = to_lower w) keyword_list of Some k \<Rightarrow> k | None \<Rightarrow> token_identifier)"

definition is_modifier :: "string \<Rightarrow> bool" where
  "is_modifier t \<longleftrightarrow> t \<in> set [''Ctrl'', ''Alt'', ''Shift'']"

definition is_navigation_key :: "string \<Rightarrow> bool" where
  "is_navigation_key t \<longleftrightarrow> t \<in> set [''Up'', ''Down'', ''Left'', ''Right'', ''Home'', ''End'']"

subsection \<open>The lexer's state\<close>

record lexer =
  lx_input :: string
  lx_pos :: nat
  lx_next :: nat
  lx_ch :: char
  lx_line :: nat
  lx_col :: nat

text \<open>Reading the next byte; a newline moves the position when it becomes the current byte.\<close>

definition read_char :: "lexer \<Rightarrow> lexer" where
  "read_char l =
     (let ch = (if lx_next l \<ge> length (lx_input l) then NUL else lx_input l ! lx_next l);
          (line, col) = (if lx_next l > 0 \<and> ch = newline then (lx_line l + 1, 0) else (lx_line l, lx_col l))
      in l\<lparr>lx_ch := ch, lx_line := line, lx_pos := lx_next l, lx_next := lx_next l + 1, lx_col := col + 1\<rparr>)"

definition new_lexer :: "string \<Rightarrow> lexer" where
  "new_lexer s = read_char \<lparr>lx_input = s, lx_pos = 0, lx_next = 0, lx_ch = NUL, lx_line = 1, lx_col = 0\<rparr>"

definition peek_char :: "lexer \<Rightarrow> char" where
  "peek_char l = (if lx_next l \<ge> length (lx_input l) then NUL else lx_input l ! lx_next l)"

text \<open>What every loop of the lexer uses up: bytes not read yet, and the current one.\<close>

definition left :: "lexer \<Rightarrow> nat" where
  "left l = (length (lx_input l) + 1 - lx_next l) + (if lx_ch l = NUL then 0 else 1)"

lemma left_read_char: "left (read_char l) \<le> left l" "lx_ch l \<noteq> NUL \<Longrightarrow> left (read_char l) < left l"
  by (auto simp: left_def read_char_def Let_def)

lemma left_read_twice: "lx_ch l \<noteq> NUL \<Longrightarrow> left (read_char (read_char l)) < left l"
  by (rule le_less_trans [OF left_read_char(1) left_read_char(2)])

text \<open>The loops \<^verbatim>\<open>for P(ch)\<close>; no \<open>P\<close> of the lexer holds of the zero byte.\<close>

function read_run :: "(char \<Rightarrow> bool) \<Rightarrow> lexer \<Rightarrow> string \<times> lexer" where
  "read_run P l =
     (if lx_ch l \<noteq> NUL \<and> P (lx_ch l)
      then let (s, l') = read_run P (read_char l) in (lx_ch l # s, l')
      else ([], l))"
  by pat_completeness auto
termination by (relation "measure (\<lambda>(P, l). left l)") (auto intro: left_read_char)

definition skip_whitespace :: "lexer \<Rightarrow> lexer" where
  "skip_whitespace l = snd (read_run is_blank l)"

definition skip_comment :: "lexer \<Rightarrow> lexer" where
  "skip_comment l = snd (read_run (\<lambda>c. c \<noteq> newline) l)"

definition unescape :: "char \<Rightarrow> char" where
  "unescape c =
     (if c = CHR ''n'' then newline else if c = CHR ''t'' then CHR 0x09 else if c = CHR ''r'' then CHR 0x0D else c)"

function string_loop :: "char \<Rightarrow> lexer \<Rightarrow> string \<times> lexer" where
  "string_loop quote l =
     (if lx_ch l \<noteq> quote \<and> lx_ch l \<noteq> NUL
      then if lx_ch l = backslash
           then let l1 = read_char l; (s, l') = string_loop quote (read_char l1) in (unescape (lx_ch l1) # s, l')
           else let (s, l') = string_loop quote (read_char l) in (lx_ch l # s, l')
      else ([], l))"
  by pat_completeness auto
termination
  by (relation "measure (\<lambda>(q, l). left l)") (auto intro: left_read_char left_read_twice)

definition read_string :: "char \<Rightarrow> lexer \<Rightarrow> string \<times> lexer" where
  "read_string quote l =
     (let (s, l') = string_loop quote (read_char l) in (s, if lx_ch l' = quote then read_char l' else l'))"

definition read_identifier :: "lexer \<Rightarrow> string \<times> lexer" where
  "read_identifier l = read_run is_ident l"

definition read_number :: "lexer \<Rightarrow> string \<times> lexer" where
  "read_number l =
     (let (s, l1) = read_run is_digit l
      in if lx_ch l1 = CHR ''.'' \<and> is_digit (peek_char l1)
         then let (f, l2) = read_run is_digit (read_char l1) in (s @ lx_ch l1 # f, l2)
         else (s, l1))"

function regex_loop :: "lexer \<Rightarrow> string \<times> lexer" where
  "regex_loop l =
     (if lx_ch l \<noteq> CHR ''/'' \<and> lx_ch l \<noteq> NUL
      then if lx_ch l = backslash
           then let l1 = read_char l
                in if lx_ch l1 \<noteq> NUL
                   then let (s, l') = regex_loop (read_char l1) in (lx_ch l # lx_ch l1 # s, l')
                   else let (s, l') = regex_loop l1 in (lx_ch l # s, l')
           else let (s, l') = regex_loop (read_char l) in (lx_ch l # s, l')
      else ([], l))"
  by pat_completeness auto
termination
  by (relation "measure left") (auto intro: left_read_char left_read_twice)

definition read_regex :: "lexer \<Rightarrow> string \<times> lexer" where
  "read_regex l =
     (let (s, l') = regex_loop (read_char l) in (s, if lx_ch l' = CHR ''/'' then read_char l' else l'))"

declare read_run.simps [simp del] string_loop.simps [simp del] regex_loop.simps [simp del]

lemma left_read_run: "left (snd (read_run P l)) \<le> left l"
proof (induction P l rule: read_run.induct)
  case (1 P l)
  then show ?case
    by (subst read_run.simps) (auto simp: Let_def split_def intro: order_trans [OF _ left_read_char(1)])
qed

lemma left_read_run_less: "lx_ch l \<noteq> NUL \<Longrightarrow> P (lx_ch l) \<Longrightarrow> left (snd (read_run P l)) < left l"
  using le_less_trans [OF left_read_run left_read_char(2)]
  by (subst read_run.simps) (simp add: Let_def split_def)

lemma left_string_loop: "left (snd (string_loop q l)) \<le> left l"
proof (induction q l rule: string_loop.induct)
  case (1 q l)
  note le = order_trans [OF _ left_read_char(1)]
  show ?case
    by (subst string_loop.simps) (use 1 in \<open>auto simp: Let_def split_def intro: le [OF le]  le\<close>)
qed

lemma left_regex_loop: "left (snd (regex_loop l)) \<le> left l"
proof (induction l rule: regex_loop.induct)
  case (1 l)
  note le = order_trans [OF _ left_read_char(1)]
  show ?case
    by (subst regex_loop.simps) (use 1 in \<open>auto simp: Let_def split_def intro: le [OF le] le\<close>)
qed

lemma left_read_number: "left (snd (read_number l)) \<le> left l"
proof -
  have "left (snd (read_run is_digit (read_char (snd (read_run is_digit l))))) \<le> left l"
    by (rule order_trans [OF left_read_run order_trans [OF left_read_char(1) left_read_run]])
  then show ?thesis by (simp add: read_number_def left_read_run split_def Let_def)
qed

text \<open>Alternating units and numbers of a duration, after its first number.\<close>

function read_units :: "lexer \<Rightarrow> string \<times> lexer" where
  "read_units l =
     (if lx_ch l \<noteq> NUL \<and> is_letter (lx_ch l)
      then let (u, l1) = read_run is_letter l;
               (n, l2) = (if is_digit (lx_ch l1) then read_number l1 else ([], l1));
               (s, l') = read_units l2
           in (u @ n @ s, l')
      else ([], l))"
  by pat_completeness auto
termination
proof (relation "measure left", goal_cases)
  case (2 l x u l1 y n l2)
  then have "left l1 < left l" "left l2 \<le> left l1"
    using left_read_run_less [of l is_letter] left_read_number [of l1]
    by (metis snd_conv) (metis (mono_tags, lifting) 2(3-) left_read_number order_refl snd_conv)
  then show ?case by simp
qed simp


declare read_units.simps [simp del]

lemma left_read_units: "left (snd (read_units l)) \<le> left l"
proof (induction l rule: read_units.induct)
  case (1 l)
  obtain u l1 where a: "read_run is_letter l = (u, l1)" by fastforce
  obtain n l2 where b: "(if is_digit (lx_ch l1) then read_number l1 else ([], l1)) = (n, l2)" by fastforce
  have "left l1 \<le> left l" using left_read_run [of is_letter l] a by simp
  moreover have "left l2 \<le> left l1" using left_read_number [of l1] b by (auto split: if_splits)
  ultimately have le: "left l2 \<le> left l" by simp
  show ?case
  proof (cases "lx_ch l \<noteq> NUL \<and> is_letter (lx_ch l)")
    case True
    have ih: "left (snd (read_units l2)) \<le> left l2" by (rule "1.IH" [OF True a [symmetric] refl b [symmetric] refl])
    have "snd (read_units l) = snd (read_units l2)"
      using True b by (subst read_units.simps) (auto simp: a split_def Let_def split: if_splits)
    with ih le show ?thesis by simp
  next
    case False
    then show ?thesis by (subst read_units.simps) auto
  qed
qed

subsection \<open>Tokens of the input\<close>

text \<open>A token carries the position the lexer had before it skipped blanks.\<close>

definition mk_token :: "lexer \<Rightarrow> string \<Rightarrow> string \<Rightarrow> token" where
  "mk_token l ty lit = \<lparr>tk_type = ty, tk_lit = lit, tk_line = lx_line l, tk_col = lx_col l\<rparr>"

definition number_token :: "lexer \<Rightarrow> lexer \<Rightarrow> token \<times> lexer" where
  "number_token l0 l =
     (let (n, l1) = read_number l
      in if is_letter (lx_ch l1)
         then let (u, l2) = read_units l1 in (mk_token l0 token_duration (n @ u), l2)
         else (mk_token l0 token_number n, l1))"

text \<open>The token at \<open>l\<close>, which is not a comment, for a lexer that was at \<open>l0\<close>.\<close>

definition plain_token :: "lexer \<Rightarrow> lexer \<Rightarrow> token \<times> lexer" where
  "plain_token l0 l =
     (let c = lx_ch l
      in if c = NUL then (mk_token l0 token_eof [], l)
         else if c = newline then (mk_token l0 token_newline [newline], read_char l)
         else if c = CHR ''+'' then (mk_token l0 token_plus ''+'', read_char l)
         else if c = CHR ''@'' then (mk_token l0 token_at_sign ''@'', read_char l)
         else if c = CHR '','' then (mk_token l0 ''COMMA'' '','', read_char l)
         else if c = CHR ''/''
         then if peek_char l = CHR ''/'' \<or> is_ident (peek_char l)
              then let (s, l') = read_regex l in (mk_token l0 ''SLASH'' s, l')
              else (mk_token l0 ''SLASH'' ''/'', read_char l)
         else if c = CHR ''('' then (mk_token l0 ''LPAREN'' ''('', read_char l)
         else if c = CHR '')'' then (mk_token l0 ''RPAREN'' '')'', read_char l)
         else if c = dquote \<or> c = squote \<or> c = backtick
         then let (s, l') = read_string c l in (mk_token l0 token_string s, l')
         else if is_digit c then number_token l0 l
         else if is_ident c
         then let (w, l') = read_identifier l in (mk_token l0 (lookup_keyword w) w, l')
         else (mk_token l0 ''ILLEGAL'' [c], read_char l))"

lemma left_skip_whitespace: "left (skip_whitespace l) \<le> left l"
  by (simp add: skip_whitespace_def left_read_run)

lemma left_skip_comment: "lx_ch l = CHR ''#'' \<Longrightarrow> left (skip_comment l) < left l"
  by (simp add: skip_comment_def left_read_run_less)

function next_token :: "lexer \<Rightarrow> token \<times> lexer" where
  "next_token l0 =
     (let l = skip_whitespace l0
      in if lx_ch l = CHR ''#'' then next_token (skip_comment l) else plain_token l0 l)"
  by pat_completeness auto
termination
  by (relation "measure left") (auto intro: less_le_trans [OF left_skip_comment left_skip_whitespace])

declare next_token.simps [simp del]

lemma lookup_keyword_not_eof [simp]: "lookup_keyword w \<noteq> token_eof"
proof -
  have "token_eof \<notin> set keyword_list" by (simp add: keyword_list_def)
  moreover have "k \<in> set keyword_list" if "find P keyword_list = Some k" for P k
    using that by (auto simp: find_Some_iff)
  ultimately show ?thesis by (auto simp: lookup_keyword_def split: option.splits)
qed

lemma left_plain_token:
  assumes "plain_token l0 l = (t, l')" "lx_ch l \<noteq> NUL"
  shows "tk_type t \<noteq> token_eof \<and> left l' < left l"
proof -
  note r = left_read_char(2) [OF assms(2)]
  have s: "left (snd (read_string q l)) < left l" for q
    using left_string_loop [of q "read_char l"] r left_read_char(1)
    by (auto simp: read_string_def Let_def split_def intro: le_less_trans le_less_trans [OF left_read_char(1)])
  have x: "left (snd (read_regex l)) < left l"
    using left_regex_loop [of "read_char l"] r left_read_char(1)
    by (auto simp: read_regex_def Let_def split_def intro: le_less_trans le_less_trans [OF left_read_char(1)])
  have i: "left (snd (read_identifier l)) < left l" if "is_ident (lx_ch l)"
    unfolding read_identifier_def by (rule left_read_run_less) (use assms(2) that in auto)
  have d: "left (snd (read_number l)) < left l" if "is_digit (lx_ch l)"
  proof -
    have d0: "left (snd (read_run is_digit l)) < left l" by (rule left_read_run_less) (use assms(2) that in auto)
    have "left (snd (read_run is_digit (read_char (snd (read_run is_digit l))))) < left l"
      by (rule le_less_trans [OF left_read_run le_less_trans [OF left_read_char(1) d0]])
    with d0 show ?thesis by (simp add: read_number_def split_def Let_def)
  qed
  have n: "left (snd (number_token l0 l)) < left l \<and> tk_type (fst (number_token l0 l)) \<noteq> token_eof" if "is_digit (lx_ch l)"
    using d [OF that] by (auto simp: number_token_def split_def Let_def mk_token_def intro: le_less_trans [OF left_read_units])
  show ?thesis
    using assms(1) r s x i n assms(2)
    by (auto simp: plain_token_def Let_def mk_token_def split_def split: if_splits)
qed

lemma left_next_token:
  assumes "next_token l = (t, l')"
  shows "if tk_type t = token_eof then left l' \<le> left l \<and> lx_ch l' = NUL else left l' < left l"
  using assms
proof (induction l rule: next_token.induct)
  case (1 l0)
  let ?l = "skip_whitespace l0"
  show ?case
  proof (cases "lx_ch ?l = CHR ''#''")
    case True
    with 1 have "if tk_type t = token_eof then left l' \<le> left (skip_comment ?l) \<and> lx_ch l' = NUL else left l' < left (skip_comment ?l)"
      by (subst (asm) (2) next_token.simps) (simp add: Let_def)
    with left_skip_comment [OF True] left_skip_whitespace [of l0] show ?thesis by (auto split: if_splits)
  next
    case False
    with "1.prems" have p: "plain_token l0 ?l = (t, l')" by (subst (asm) next_token.simps) (simp add: Let_def)
    show ?thesis
    proof (cases "lx_ch ?l = NUL")
      case True
      with p left_skip_whitespace [of l0] show ?thesis by (auto simp: plain_token_def mk_token_def)
    next
      case False
      with left_plain_token [OF p] left_skip_whitespace [of l0] show ?thesis by simp
    qed
  qed
qed

function tokens_from :: "lexer \<Rightarrow> token list" where
  "tokens_from l = (let (t, l') = next_token l in if tk_type t = token_eof then [t] else t # tokens_from l')"
  by pat_completeness auto
termination by (relation "measure left") (use left_next_token in \<open>force split: if_splits\<close>)+

declare tokens_from.simps [simp del]

definition tokenize :: "string \<Rightarrow> token list" where
  "tokenize s = tokens_from (new_lexer s)"

end
