(* ===== verification/TapeTokens.thy ===== *)
theory TapeTokens
  imports TapeLexer
begin

text \<open>
  What the lexer reads: every loop is a number of \<open>read_char\<close> steps, and in terms of the bytes not
  read yet it takes a longest run. Tokenizing always ends, with the only end-of-file token.
\<close>

subsection \<open>Steps\<close>

definition reads :: "lexer \<Rightarrow> lexer \<Rightarrow> bool" where
  "reads l l' \<longleftrightarrow> (\<exists>n. l' = (read_char ^^ n) l)"

lemma reads_refl [simp, intro]: "reads l l"
  unfolding reads_def by (rule exI [of _ 0]) simp

lemma reads_trans: "reads a b \<Longrightarrow> reads b c \<Longrightarrow> reads a c"
  unfolding reads_def by (metis comp_apply funpow_add)

lemma reads_step: "reads l (read_char l)"
  unfolding reads_def by (rule exI [of _ 1]) simp

lemma reads_more: "reads (read_char l) l' \<Longrightarrow> reads l l'"
  by (rule reads_trans [OF reads_step])

lemma reads_invariant:
  assumes "reads l l'" "Q l" "\<And>x. Q x \<Longrightarrow> Q (read_char x)"
  shows "Q l'"
proof -
  obtain n where "l' = (read_char ^^ n) l" using assms(1) by (auto simp: reads_def)
  moreover have "Q ((read_char ^^ n) l)" by (induction n) (simp_all add: assms)
  ultimately show ?thesis by simp
qed

lemma reads_run: "reads l (snd (read_run P l))"
proof (induction P l rule: read_run.induct)
  case (1 P l)
  then show ?case by (subst read_run.simps) (auto simp: split_def Let_def intro: reads_more)
qed

lemma reads_string_loop: "reads l (snd (string_loop q l))"
proof (induction q l rule: string_loop.induct)
  case (1 q l)
  then show ?case
    by (subst string_loop.simps) (auto simp: split_def Let_def intro: reads_more)
qed

lemma reads_regex_loop: "reads l (snd (regex_loop l))"
proof (induction l rule: regex_loop.induct)
  case (1 l)
  then show ?case
    by (subst regex_loop.simps) (auto simp: split_def Let_def intro: reads_more)
qed

lemma reads_number: "reads l (snd (read_number l))"
  by (auto simp: read_number_def split_def Let_def
      intro: reads_run reads_trans [OF reads_run reads_more [OF reads_run]])

lemma reads_units: "reads l (snd (read_units l))"
proof (induction l rule: read_units.induct)
  case (1 l)
  obtain u l1 where a: "read_run is_letter l = (u, l1)" by fastforce
  obtain n l2 where b: "(if is_digit (lx_ch l1) then read_number l1 else ([], l1)) = (n, l2)" by fastforce
  have "reads l l1" using reads_run [of l is_letter] a by simp
  moreover have "reads l1 l2" using reads_number [of l1] b by (auto split: if_splits)
  ultimately have le: "reads l l2" by (rule reads_trans)
  show ?case
  proof (cases "lx_ch l \<noteq> NUL \<and> is_letter (lx_ch l)")
    case True
    have ih: "reads l2 (snd (read_units l2))" by (rule "1.IH" [OF True a [symmetric] refl b [symmetric] refl])
    have "snd (read_units l) = snd (read_units l2)"
      using True b by (subst read_units.simps) (auto simp: a split_def Let_def split: if_splits)
    with reads_trans [OF le ih] show ?thesis by simp
  next
    case False
    then show ?thesis by (subst read_units.simps) auto
  qed
qed

lemma reads_plain: "reads l (snd (plain_token l0 l))"
proof -
  have "reads l (snd (read_string q l))" "reads l (snd (read_regex l))" for q
    using reads_string_loop [of "read_char l" q] reads_regex_loop [of "read_char l"]
    by (auto simp: read_string_def read_regex_def split_def Let_def intro: reads_more reads_trans [OF reads_more reads_step])
  moreover have "reads l (snd (number_token l0 l))"
    using reads_number [of l] by (auto simp: number_token_def split_def Let_def intro: reads_trans [OF _ reads_units])
  ultimately show ?thesis
    by (auto simp: plain_token_def Let_def split_def read_identifier_def intro: reads_step reads_run)
qed

lemma reads_next: "reads l (snd (next_token l))"
proof (induction l rule: next_token.induct)
  case (1 l0)
  have "reads l0 (skip_whitespace l0)" "reads (skip_whitespace l0) (skip_comment (skip_whitespace l0))"
    by (simp_all add: skip_whitespace_def skip_comment_def reads_run)
  with 1 show ?case
    by (subst next_token.simps) (auto simp: Let_def intro: reads_trans reads_trans [OF _ reads_plain])
qed

subsection \<open>What is left of the input\<close>

definition rest :: "lexer \<Rightarrow> string" where "rest l = drop (lx_pos l) (lx_input l)"

definition head :: "string \<Rightarrow> char" where "head s = (case s of [] \<Rightarrow> NUL | c # cs \<Rightarrow> c)"

definition lx_ok :: "lexer \<Rightarrow> bool" where
  "lx_ok l \<longleftrightarrow> lx_next l = Suc (lx_pos l) \<and> lx_ch l = head (rest l)"

lemma head_simps [simp]: "head [] = NUL" "head (c # cs) = c" by (simp_all add: head_def)

lemma head_drop: "head (drop n s) = (if n < length s then s ! n else NUL)"
  by (auto simp: head_def hd_drop_conv_nth [symmetric] split: list.splits)

lemma rest_read_char: "lx_ok l \<Longrightarrow> rest (read_char l) = tl (rest l)" "lx_ok (read_char l)"
  by (auto simp: lx_ok_def rest_def read_char_def Let_def head_drop drop_Suc tl_drop)

lemma ch_read_char: "lx_ok l \<Longrightarrow> lx_ch (read_char l) = head (tl (rest l))"
  using rest_read_char [of l] by (simp add: lx_ok_def)

lemma new_lexer_ok: "lx_ok (new_lexer s)" "rest (new_lexer s) = s"
  unfolding new_lexer_def by (rule rest_read_char(2)) (simp add: rest_def read_char_def Let_def)

lemma peek_ok: "lx_ok l \<Longrightarrow> peek_char l = head (tl (rest l))"
  by (simp add: lx_ok_def peek_char_def rest_def tl_drop drop_Suc [symmetric] head_drop)

lemma read_run_rest:
  assumes "lx_ok l" "read_run P l = (s, l')"
  shows "lx_ok l' \<and> s = takeWhile (\<lambda>c. c \<noteq> NUL \<and> P c) (rest l) \<and> rest l' = dropWhile (\<lambda>c. c \<noteq> NUL \<and> P c) (rest l)"
  using assms
proof (induction P l arbitrary: s l' rule: read_run.induct)
  case (1 P l)
  show ?case
  proof (cases "lx_ch l \<noteq> NUL \<and> P (lx_ch l)")
    case True
    then obtain cs where c: "rest l = lx_ch l # cs" using "1.prems"(1) by (cases "rest l") (auto simp: lx_ok_def)
    obtain s1 where s1: "read_run P (read_char l) = (s1, l')" "s = lx_ch l # s1"
      using "1.prems"(2) True by (subst (asm) read_run.simps) (auto split: prod.splits)
    from "1.IH" [OF True rest_read_char(2) s1(1)] s1(2) True c rest_read_char(1) [OF "1.prems"(1)] show ?thesis by simp
  next
    case False
    then have "s = []" "l' = l" using "1.prems"(2) by (subst (asm) read_run.simps; auto)+
    with "1.prems"(1) False show ?thesis by (cases "rest l") (auto simp: lx_ok_def)
  qed
qed


subsection \<open>All tokens of a file\<close>

text \<open>The line of the current byte: newlines after the first byte move it.\<close>

definition line_ok :: "lexer \<Rightarrow> bool" where
  "line_ok l \<longleftrightarrow> lx_next l = Suc (lx_pos l) \<and>
     lx_line l = 1 + length (filter (\<lambda>c. c = newline) (take (lx_pos l) (tl (lx_input l))))"

lemma line_ok_read_char: "line_ok l \<Longrightarrow> line_ok (read_char l)"
proof -
  assume a: "line_ok l"
  let ?t = "tl (lx_input l)" and ?n = "lx_pos l"
  have "filter (\<lambda>c. c = newline) (take (Suc ?n) ?t) =
      filter (\<lambda>c. c = newline) (take ?n ?t) @ (if ?n < length ?t \<and> ?t ! ?n = newline then [newline] else [])"
    by (cases "?n < length ?t") (auto simp: take_Suc_conv_app_nth)
  then show ?thesis using a by (auto simp: line_ok_def read_char_def Let_def nth_tl)
qed

lemma new_lexer_line: "line_ok (new_lexer s)"
  by (simp add: line_ok_def new_lexer_def read_char_def Let_def)

definition line_count :: "string \<Rightarrow> nat" where
  "line_count s = 1 + length (filter (\<lambda>c. c = newline) s)"

lemma line_ok_le: "line_ok l \<Longrightarrow> 1 \<le> lx_line l \<and> lx_line l \<le> line_count (lx_input l)"
proof -
  have "filter P xs = filter P (take n xs) @ filter P (drop n xs)" for P n and xs :: string
    by (simp add: filter_append [symmetric])
  then have t: "length (filter P (take n xs)) \<le> length (filter P xs)" for P n and xs :: string
    by (metis length_append le_add1)
  have "length (filter P (tl xs)) \<le> length (filter P xs)" for P and xs :: string by (cases xs) auto
  then have "length (filter P (take n (tl xs))) \<le> length (filter P xs)" for P n and xs :: string
    using t order_trans by blast
  then show "line_ok l \<Longrightarrow> ?thesis" by (simp add: line_ok_def line_count_def)
qed

lemma reads_facts:
  assumes "reads l l'" "line_ok l"
  shows "line_ok l' \<and> lx_input l' = lx_input l \<and> lx_line l \<le> lx_line l'"
  using assms(1)
proof (rule reads_invariant)
  show "line_ok l \<and> lx_input l = lx_input l \<and> lx_line l \<le> lx_line l" using assms(2) by simp
next
  fix x
  assume x: "line_ok x \<and> lx_input x = lx_input l \<and> lx_line l \<le> lx_line x"
  then show "line_ok (read_char x) \<and> lx_input (read_char x) = lx_input l \<and> lx_line l \<le> lx_line (read_char x)"
    using line_ok_read_char [of x] by (auto simp: read_char_def Let_def)
qed

lemma mk_token_sel [simp]: "tk_type (mk_token l ty s) = ty" "tk_lit (mk_token l ty s) = s" "tk_line (mk_token l ty s) = lx_line l"
  by (simp_all add: mk_token_def)

lemma plain_token_line: "tk_line (fst (plain_token l0 l)) = lx_line l0"
  by (simp add: plain_token_def number_token_def Let_def split_def)

lemma next_token_line:
  "line_ok l \<Longrightarrow> next_token l = (t, l') \<Longrightarrow> lx_line l \<le> tk_line t \<and> tk_line t \<le> lx_line l'"
proof (induction l rule: next_token.induct)
  case (1 l0)
  let ?l = "skip_whitespace l0"
  have ws: "line_ok ?l" "lx_line l0 \<le> lx_line ?l" using reads_facts [OF reads_run "1.prems"(1)] by (simp_all add: skip_whitespace_def)
  show ?case
  proof (cases "lx_ch ?l = CHR ''#''")
    case True
    have "line_ok (skip_comment ?l)" "lx_line ?l \<le> lx_line (skip_comment ?l)"
      using reads_facts [OF reads_run ws(1)] by (simp_all add: skip_comment_def)
    moreover have "next_token (skip_comment ?l) = (t, l')"
      using "1.prems"(2) True by (subst (asm) next_token.simps) (simp add: Let_def)
    ultimately show ?thesis using "1.IH" [OF refl True] ws(2) by auto
  next
    case False
    then have p: "plain_token l0 ?l = (t, l')" using "1.prems"(2) by (subst (asm) next_token.simps) (simp add: Let_def)
    then show ?thesis using plain_token_line [of l0 ?l] reads_facts [OF reads_plain ws(1), of l0] ws(2) by auto
  qed
qed

lemma next_token_at_end: "lx_ch l = NUL \<Longrightarrow> tk_type (fst (next_token l)) = token_eof"
  by (subst next_token.simps) (simp add: skip_whitespace_def read_run.simps plain_token_def)

lemma lx_ok_reads: "reads l l' \<Longrightarrow> lx_ok l \<Longrightarrow> lx_ok l'"
  by (rule reads_invariant) (auto intro: rest_read_char)

lemma left_not_end: "lx_ok l \<Longrightarrow> lx_ch l \<noteq> NUL \<Longrightarrow> 2 \<le> left l"
  by (auto simp: lx_ok_def left_def rest_def head_drop split: if_splits)

lemma tokens_from_spec:
  assumes "line_ok l" "lx_ok l"
  shows "\<exists>ts e. tokens_from l = ts @ [e] \<and> tk_type e = token_eof \<and> (\<forall>t\<in>set ts. tk_type t \<noteq> token_eof) \<and>
    (ts = [] \<or> length ts < left l) \<and> sorted (map tk_line (tokens_from l)) \<and>
    (\<forall>t\<in>set (tokens_from l). lx_line l \<le> tk_line t \<and> tk_line t \<le> line_count (lx_input l))"
  using assms
proof (induction l rule: tokens_from.induct)
  case (1 l)
  obtain t l' where n: "next_token l = (t, l')" by fastforce
  have r: "line_ok l'" "lx_input l' = lx_input l" using reads_facts [OF reads_next "1.prems"(1)] n by auto
  have b: "lx_line l \<le> tk_line t" "tk_line t \<le> lx_line l'" using next_token_line [OF "1.prems"(1) n] by auto
  have ok: "lx_ok l'" using lx_ok_reads [OF reads_next "1.prems"(2)] n by simp
  from b have tl: "tk_line t \<le> line_count (lx_input l)" using line_ok_le [OF r(1)] r(2) by simp
  show ?case
  proof (cases "tk_type t = token_eof")
    case True
    then have "tokens_from l = [t]" by (subst tokens_from.simps) (simp add: n)
    with True b tl show ?thesis by simp
  next
    case False
    have st: "tokens_from l = t # tokens_from l'" using False by (subst tokens_from.simps) (simp add: n)
    have dec: "left l' < left l" using left_next_token [OF n] False by simp
    have two: "2 \<le> left l" using left_not_end [OF "1.prems"(2)] next_token_at_end [of l] n False by auto
    obtain ts e where ts: "tokens_from l' = ts @ [e]" "tk_type e = token_eof" "\<forall>t\<in>set ts. tk_type t \<noteq> token_eof"
        "ts = [] \<or> length ts < left l'" "sorted (map tk_line (tokens_from l'))"
        "\<forall>t\<in>set (tokens_from l'). lx_line l' \<le> tk_line t \<and> tk_line t \<le> line_count (lx_input l')"
      using "1.IH" [OF n [symmetric] refl False r(1) ok] by blast
    show ?thesis
    proof (intro exI [of _ "t # ts"] exI [of _ e] conjI)
      show "tokens_from l = (t # ts) @ [e]" using st ts(1) by simp
      show "\<forall>t\<in>set (t # ts). tk_type t \<noteq> token_eof" using ts(3) False by simp
      show "t # ts = [] \<or> length (t # ts) < left l" using ts(4) dec two by auto
      show "sorted (map tk_line (tokens_from l))" using ts(5,6) b(2) by (force simp: st)
      show "\<forall>t\<in>set (tokens_from l). lx_line l \<le> tk_line t \<and> tk_line t \<le> line_count (lx_input l)"
        using ts(6) b tl r(2) by (fastforce simp: st)
    qed (fact ts(2))
  qed
qed

text \<open>
  C40. Tokenizing any file ends: there is exactly one end-of-file token and it is the last, there are
  at most as many other tokens as bytes, and the line numbers never go back and never pass the
  number of lines of the file.
\<close>

theorem tokenize_ends:
  "\<exists>ts e. tokenize s = ts @ [e] \<and> tk_type e = token_eof \<and> (\<forall>t\<in>set ts. tk_type t \<noteq> token_eof) \<and>
     length ts \<le> length s \<and> sorted (map tk_line (tokenize s)) \<and>
     (\<forall>t\<in>set (tokenize s). 1 \<le> tk_line t \<and> tk_line t \<le> line_count s)"
proof -
  have "left (new_lexer s) \<le> Suc (length s)"
    by (cases s) (auto simp: left_def new_lexer_def read_char_def Let_def)
  moreover have "lx_input (new_lexer s) = s" by (simp add: new_lexer_def read_char_def Let_def)
  ultimately show ?thesis
    using tokens_from_spec [OF new_lexer_line new_lexer_ok(1), of s] line_ok_le [OF new_lexer_line [of s]]
    unfolding tokenize_def by (fastforce intro: order_trans)
qed

text \<open>A command and a comment: two tokens and the end.\<close>

lemma tokenize_ends_witness:
  "tk_type (last (tokenize ''Up #x'')) = token_eof \<and> length (tokenize ''Up #x'') \<le> 6 \<and>
   map tk_lit (tokenize ''Up #x'') = [''Up'', []]"
proof -
  obtain ts e where "tokenize ''Up #x'' = ts @ [e]" "tk_type e = token_eof" "length ts \<le> length ''Up #x''"
    using tokenize_ends [of "''Up #x''"] by blast
  then have "tk_type (last (tokenize ''Up #x'')) = token_eof \<and> length (tokenize ''Up #x'') \<le> 6" by simp
  moreover have "map tk_lit (tokenize ''Up #x'') = [''Up'', []]" by code_simp
  ultimately show ?thesis by blast
qed

end
