(* ===== verification/TapeDuration.thy ===== *)
theory TapeDuration
  imports Float64 TapeLexer
begin

text \<open>
  Durations as the automation language writes and reads them: \<^verbatim>\<open>time.ParseDuration\<close> behind
  \<^verbatim>\<open>ParseDuration\<close> of \<^verbatim>\<open>internal/tape/command.go\<close>, and \<^verbatim>\<open>time.Duration.String\<close> behind the recorder's
  \<^verbatim>\<open>Sleep %v\<close>. A duration is a number of nanoseconds; the parser's accumulators are 64-bit.
\<close>

subsection \<open>Reading\<close>

definition digit_of :: "char \<Rightarrow> nat" where "digit_of c = code c - 48"

fun leading_int :: "nat \<Rightarrow> string \<Rightarrow> (nat \<times> string) option" where
  "leading_int x [] = Some (x, [])"
| "leading_int x (c # cs) =
     (if \<not> is_digit c then Some (x, c # cs)
      else if x > 2 ^ 63 div 10 then None
      else let y = x * 10 + digit_of c in if y > 2 ^ 63 then None else leading_int y cs)"

fun leading_fraction :: "nat \<Rightarrow> f64 \<Rightarrow> bool \<Rightarrow> string \<Rightarrow> nat \<times> f64 \<times> string" where
  "leading_fraction x scale over [] = (x, scale, [])"
| "leading_fraction x scale over (c # cs) =
     (if \<not> is_digit c then (x, scale, c # cs)
      else if over \<or> x > (2 ^ 63 - 1) div 10 then leading_fraction x scale True cs
      else let y = x * 10 + digit_of c
           in if y > 2 ^ 63 then leading_fraction x scale True cs
              else leading_fraction y (f64_mul scale 10) False cs)"

definition unit_map :: "(string \<times> nat) list" where
  "unit_map = [(''ns'', 1), (''us'', 10 ^ 3), ([CHR 0xC2, CHR 0xB5, CHR ''s''], 10 ^ 3),
     ([CHR 0xCE, CHR 0xBC, CHR ''s''], 10 ^ 3), (''ms'', 10 ^ 6), (''s'', 10 ^ 9), (''m'', 60 * 10 ^ 9),
     (''h'', 3600 * 10 ^ 9)]"

definition not_unit :: "char \<Rightarrow> bool" where "not_unit c \<longleftrightarrow> c = CHR ''.'' \<or> is_digit c"

text \<open>A number: its whole part, its decimals and their scale, and the rest of the text.\<close>

definition parse_number :: "string \<Rightarrow> (nat \<times> nat \<times> f64 \<times> string) option" where
  "parse_number s =
     (if s = [] \<or> \<not> not_unit (hd s) then None
      else case leading_int 0 s of None \<Rightarrow> None
      | Some (v, s1) \<Rightarrow>
        if s1 \<noteq> [] \<and> hd s1 = CHR ''.''
        then let (f, scale, s2) = leading_fraction 0 1 False (tl s1)
             in if length s1 = length s \<and> length s2 = length (tl s1) then None else Some (v, f, scale, s2)
        else if length s1 = length s then None else Some (v, 0, 1, s1))"

text \<open>The unit that follows a number; the nanoseconds of both.\<close>

definition with_unit :: "nat \<Rightarrow> nat \<Rightarrow> f64 \<Rightarrow> string \<Rightarrow> (nat \<times> string) option" where
  "with_unit v f scale s =
     (let u = takeWhile (\<lambda>c. \<not> not_unit c) s
      in if u = [] then None
         else case map_of unit_map u of None \<Rightarrow> None
         | Some unit \<Rightarrow>
           if v > 2 ^ 63 div unit then None
           else let w = v * unit;
                    w' = (if f > 0 then w + nat (f64_to_int (f64_mul (f64_of_int (int f)) (f64_div (f64_of_int (int unit)) scale)))
                          else w)
                in if f > 0 \<and> w' > 2 ^ 63 then None else Some (w', drop (length u) s))"

definition parse_part :: "string \<Rightarrow> (nat \<times> string) option" where
  "parse_part s = (case parse_number s of None \<Rightarrow> None | Some (v, f, scale, s2) \<Rightarrow> with_unit v f scale s2)"

lemma leading_int_length: "leading_int x s = Some (v, r) \<Longrightarrow> length r \<le> length s"
  by (induction x s rule: leading_int.induct) (auto simp: Let_def split: if_splits)

lemma leading_fraction_length: "leading_fraction x sc ov s = (f, sc', r) \<Longrightarrow> length r \<le> length s"
  by (induction x sc ov s rule: leading_fraction.induct) (auto simp: Let_def split: if_splits)

lemma parse_number_length:
  assumes "parse_number s = Some (v, f, sc, r)"
  shows "length r \<le> length s"
proof -
  from assms obtain v1 s1 where 1: "leading_int 0 s = Some (v1, s1)"
    by (auto simp: parse_number_def split: if_splits option.splits)
  have le: "length s1 \<le> length s" by (rule leading_int_length [OF 1])
  show ?thesis
  proof (cases "s1 \<noteq> [] \<and> hd s1 = CHR ''.''")
    case True
    obtain a b c where q: "leading_fraction 0 1 False (tl s1) = (a, b, c)" by (rule prod_cases3)
    then have "length c \<le> length (tl s1)" by (rule leading_fraction_length)
    with True q le 1 assms show ?thesis by (auto simp: parse_number_def split: if_splits)
  next
    case False
    with le 1 assms show ?thesis by (auto simp: parse_number_def split: if_splits)
  qed
qed

lemma with_unit_length: "with_unit v f sc s = Some (w, r) \<Longrightarrow> length r < length s"
  by (cases s) (auto simp: with_unit_def Let_def split: if_splits option.splits)

lemma parse_part_length: "parse_part s = Some (v, r) \<Longrightarrow> length r < length s"
  using parse_number_length with_unit_length by (fastforce simp: parse_part_def split: option.splits)

function parse_parts :: "nat \<Rightarrow> string \<Rightarrow> nat option" where
  "parse_parts d s =
     (if s = [] then Some d
      else case parse_part s of None \<Rightarrow> None
      | Some (v, r) \<Rightarrow> let e = (d + v) mod 2 ^ 64 in if e > 2 ^ 63 then None else parse_parts e r)"
  by pat_completeness auto
termination by (relation "measure (\<lambda>(d, s). length s)") (auto intro: parse_part_length)

declare parse_parts.simps [simp del]

definition parse_duration :: "string \<Rightarrow> int option" where
  "parse_duration s =
     (let signed = (s \<noteq> [] \<and> (hd s = CHR ''-'' \<or> hd s = CHR ''+''));
          neg = (s \<noteq> [] \<and> hd s = CHR ''-''); t = (if signed then tl s else s)
      in if t = ''0'' then Some 0
         else if t = [] then None
         else case parse_parts 0 t of None \<Rightarrow> None
           | Some d \<Rightarrow> if neg then Some (- int d) else if d > 2 ^ 63 - 1 then None else Some (int d))"

subsection \<open>Writing\<close>

definition digit_char :: "nat \<Rightarrow> char" where "digit_char n = char_of (48 + n)"

fun nat_string :: "nat \<Rightarrow> string" where
  "nat_string n = (if n < 10 then [digit_char n] else nat_string (n div 10) @ [digit_char (n mod 10)])"

declare nat_string.simps [simp del]

text \<open>\<^verbatim>\<open>fmtFrac\<close>: \<open>prec\<close> decimals without trailing zeros, before what was written already.\<close>

fun fmt_frac :: "nat \<Rightarrow> nat \<Rightarrow> bool \<Rightarrow> string \<Rightarrow> string \<times> nat" where
  "fmt_frac 0 v pr acc = (if pr then CHR ''.'' # acc else acc, v)"
| "fmt_frac (Suc n) v pr acc =
     (let d = v mod 10; pr' = (pr \<or> d \<noteq> 0) in fmt_frac n (v div 10) pr' (if pr' then digit_char d # acc else acc))"

definition duration_string :: "int \<Rightarrow> string" where
  "duration_string d =
     (let u = nat \<bar>d\<bar>;
          body = (if u < 10 ^ 9
            then if u = 0 then ''0s''
                 else let (prec, unit) = (if u < 10 ^ 3 then (0, ''ns'') else if u < 10 ^ 6 then (3, [CHR 0xC2, CHR 0xB5, CHR ''s'']) else (6, ''ms''));
                          (s, v) = fmt_frac prec u False unit
                      in nat_string v @ s
            else let (s, v) = fmt_frac 9 u False ''s''; secs = nat_string (v mod 60) @ s; m = v div 60
                 in if m = 0 then secs
                    else let mins = nat_string (m mod 60) @ ''m'' @ secs; h = m div 60
                         in if h = 0 then mins else nat_string h @ ''h'' @ mins)
      in if d < 0 then CHR ''-'' # body else body)"


subsection \<open>Reading back what was written\<close>

fun pad :: "nat \<Rightarrow> nat \<Rightarrow> string" where
  "pad 0 v = []"
| "pad (Suc n) v = pad n (v div 10) @ [digit_char (v mod 10)]"

lemma digit_char [simp]: "d < 10 \<Longrightarrow> is_digit (digit_char d)" "d < 10 \<Longrightarrow> digit_of (digit_char d) = d"
  by (simp_all add: digit_char_def is_digit_def digit_of_def code_def)

lemma length_pad [simp]: "length (pad n v) = n"
  by (induction n arbitrary: v) auto

lemma fmt_frac_True: "fmt_frac n v True acc = (CHR ''.'' # pad n v @ acc, v div 10 ^ n)"
  by (induction n arbitrary: v acc) (simp_all add: Let_def div_mult2_eq)

lemma fmt_frac_Suc:
  "fmt_frac (Suc n) (10 * w) False acc = fmt_frac n w False acc"
  "v mod 10 \<noteq> 0 \<Longrightarrow> fmt_frac (Suc n) v False acc = (CHR ''.'' # pad (Suc n) v @ acc, v div 10 ^ Suc n)"
  by (simp_all add: Let_def fmt_frac_True div_mult2_eq)

declare fmt_frac.simps(2) [simp del]

lemma fmt_frac_zero: "v mod 10 ^ n = 0 \<Longrightarrow> fmt_frac n v False acc = (acc, v div 10 ^ n)"
proof (induction n arbitrary: v)
  case (Suc n)
  have "10 dvd v" using Suc.prems by (auto simp: mod_eq_0_iff_dvd dest: dvd_mult_left)
  then obtain w where v: "v = 10 * w" by blast
  with Suc.prems have "w mod 10 ^ n = 0" by simp
  then show ?case using Suc.IH [of w] by (simp add: v fmt_frac_Suc)
qed simp

lemma fmt_frac_nonzero:
  "v mod 10 ^ n \<noteq> 0 \<Longrightarrow> \<exists>k. 0 < k \<and> k \<le> n \<and> v mod 10 ^ (n - k) = 0 \<and>
     fmt_frac n v False acc = (CHR ''.'' # pad k (v div 10 ^ (n - k)) @ acc, v div 10 ^ n)"
proof (induction n arbitrary: v acc)
  case (Suc n)
  show ?case
  proof (cases "v mod 10 = 0")
    case True
    then have "10 dvd v" by (rule mod_0_imp_dvd)
    then obtain w where v: "v = 10 * w" by (rule dvdE)
    have "w mod 10 ^ n \<noteq> 0" using Suc.prems unfolding v power_Suc mod_mult_mult1 by simp
    from Suc.IH [OF this, of acc] obtain k where k: "0 < k" "k \<le> n" "w mod 10 ^ (n - k) = 0"
        "fmt_frac n w False acc = (CHR ''.'' # pad k (w div 10 ^ (n - k)) @ acc, w div 10 ^ n)"
      by (elim exE conjE)
    have sn: "Suc n - k = Suc (n - k)" using k(2) by simp
    show ?thesis
    proof (intro exI [of _ k] conjI)
      show "v mod 10 ^ (Suc n - k) = 0" unfolding sn v power_Suc mod_mult_mult1 using k(3) by simp
      show "fmt_frac (Suc n) v False acc = (CHR ''.'' # pad k (v div 10 ^ (Suc n - k)) @ acc, v div 10 ^ Suc n)"
        unfolding v fmt_frac_Suc(1) k(4) sn power_Suc by simp
    qed (use k(1,2) in simp_all)
  next
    case False
    show ?thesis
    proof (intro exI [of _ "Suc n"] conjI)
      show "fmt_frac (Suc n) v False acc =
          (CHR ''.'' # pad (Suc n) (v div 10 ^ (Suc n - Suc n)) @ acc, v div 10 ^ Suc n)"
        unfolding diff_self_eq_0 power_0 div_by_1 by (rule fmt_frac_Suc(2) [OF False])
    qed simp_all
  qed
next
  case 0
  then have False unfolding power_0 by simp
  then show ?case ..
qed

lemma leading_int_nat_string: "n \<le> 2 ^ 63 \<Longrightarrow> leading_int 0 (nat_string n @ r) = leading_int n r"
proof (induction n arbitrary: r rule: nat_string.induct)
  case (1 n)
  show ?case
  proof (cases "n < 10")
    case True
    then show ?thesis by (subst nat_string.simps) simp
  next
    case False
    then have "leading_int 0 (nat_string (n div 10) @ digit_char (n mod 10) # r) = leading_int (n div 10) (digit_char (n mod 10) # r)"
      using "1.prems" by (intro "1.IH") auto
    moreover have "n div 10 \<le> 2 ^ 63 div 10" by (rule div_le_mono [OF "1.prems"])
    moreover have "n div 10 * 10 + n mod 10 = n" by simp
    ultimately show ?thesis
      using False "1.prems" by (subst nat_string.simps) (simp add: Let_def del: div_mult_mod_eq)
  qed
qed

lemma nat_string_start: "\<exists>c cs. nat_string n = c # cs \<and> is_digit c"
proof (induction n rule: nat_string.induct)
  case (1 n)
  then show ?case by (subst nat_string.simps) auto
qed

lemma leading_fraction_pad:
  "k \<le> 9 \<Longrightarrow> leading_fraction 0 1 False (pad k v @ r) = leading_fraction (v mod 10 ^ k) (10 ^ k) False r"
proof (induction k arbitrary: v r)
  case (Suc k)
  let ?x = "v div 10 mod 10 ^ k"
  have le: "(10::nat) ^ k \<le> 10 ^ 8" using Suc.prems by (intro power_increasing) auto
  moreover have "?x < 10 ^ k" by simp
  ultimately have x: "?x < 10 ^ 8" by (rule less_le_trans [rotated])
  have "(of_int (10 ^ Suc k) :: rat) = 10 ^ Suc k" by simp
  moreover have "\<bar>10 ^ Suc k :: int\<bar> \<le> 2 ^ 53"
    using power_increasing [of "Suc k" 9 "10 :: int"] Suc.prems by simp
  ultimately have sc: "f64_mul (10 ^ k) 10 = 10 ^ Suc k"
    using f64_round_of_int [of "10 ^ Suc k"] by (simp add: f64_mul_def mult.commute)
  have "v mod 10 < 10" by simp
  with x have big: "\<not> 2 ^ 63 < ?x * 10 + v mod 10" by simp
  have v: "?x * 10 + v mod 10 = v mod 10 ^ Suc k"
    by (simp add: mod_mult2_eq [of v 10 "10 ^ k"])
  have "leading_fraction 0 1 False (pad (Suc k) v @ r) = leading_fraction ?x (10 ^ k) False (digit_char (v mod 10) # r)"
    using Suc by simp
  also have "\<dots> = leading_fraction (?x * 10 + v mod 10) (10 ^ Suc k) False r"
    using x sc big by (simp add: Let_def)
  finally show ?case using v by simp
qed simp


definition unit_text :: "string \<Rightarrow> bool" where
  "unit_text u \<longleftrightarrow> u \<noteq> [] \<and> (\<forall>c\<in>set u. \<not> not_unit c)"

definition part_end :: "string \<Rightarrow> bool" where
  "part_end r \<longleftrightarrow> r = [] \<or> not_unit (hd r)"

lemma takeWhile_unit: "unit_text u \<Longrightarrow> part_end r \<Longrightarrow> takeWhile (\<lambda>c. \<not> not_unit c) (u @ r) = u"
  by (cases r) (auto simp: unit_text_def part_end_def)

lemma unit_head: "unit_text u \<Longrightarrow> \<exists>c cs. u = c # cs \<and> \<not> is_digit c \<and> c \<noteq> CHR ''.''"
  by (cases u) (auto simp: unit_text_def not_unit_def)

lemma parse_part_whole:
  assumes "unit_text u" "part_end r" "map_of unit_map u = Some m" "0 < m" "v * m \<le> 2 ^ 63"
  shows "parse_part (nat_string v @ u @ r) = Some (v * m, r)"
proof -
  from unit_head [OF assms(1)] obtain c cs where u: "u = c # cs" "\<not> is_digit c" "c \<noteq> CHR ''.''" by blast
  from nat_string_start obtain d ds where d: "nat_string v = d # ds" "is_digit d" by blast
  have v: "v \<le> 2 ^ 63" using assms(4,5) by (metis le_trans less_eq_Suc_le mult.right_neutral mult_le_mono2 One_nat_def)
  have "leading_int 0 (nat_string v @ u @ r) = Some (v, u @ r)"
    using leading_int_nat_string [OF v, of "u @ r"] u by simp
  then have n: "parse_number (nat_string v @ u @ r) = Some (v, 0, 1, u @ r)"
    using u d by (simp add: parse_number_def not_unit_def)
  have "v \<le> 2 ^ 63 div m" using assms(4,5) by (simp add: less_eq_div_iff_mult_less_eq)
  then have "with_unit v 0 1 (u @ r) = Some (v * m, r)"
    using assms(1,3) takeWhile_unit [OF assms(1,2)] by (simp add: with_unit_def unit_text_def)
  with n show ?thesis by (simp add: parse_part_def)
qed

lemma f64_to_int_of_int: "f64_to_int (of_int n) = n"
  by (simp add: f64_to_int_def)

lemma fraction_exact:
  assumes "k \<le> p" "p \<le> 9" "f < 10 ^ k"
  shows "nat (f64_to_int (f64_mul (f64_of_int (int f)) (f64_div (f64_of_int (int (10 ^ p))) (10 ^ k)))) = f * 10 ^ (p - k)"
proof -
  have p9: "(10::int) ^ p \<le> 10 ^ 9" using assms(2) by (rule power_increasing) simp
  have kp: "(10::int) ^ k \<le> 10 ^ p" using assms(1) by (rule power_increasing) simp
  have pk: "(10::rat) ^ p = 10 ^ (p - k) * 10 ^ k" using assms(1) by (simp flip: power_add)
  have f: "int f < 10 ^ k" using assms(3) by (metis of_nat_less_iff of_nat_numeral of_nat_power)
  have "int f \<le> 10 ^ 9" using f kp p9 by linarith
  then have "\<bar>int f\<bar> \<le> 2 ^ 53" by simp
  then have a: "f64_of_int (int f) = of_nat f" using f64_of_int_exact [of "int f"] by simp
  have b: "f64_of_int (int (10 ^ p)) = 10 ^ p"
    using f64_of_int_exact [of "10 ^ p"] p9 by simp
  have le: "(10::int) ^ (p - k) \<le> 10 ^ p" by (rule power_increasing) simp_all
  have sm: "\<bar>(10::int) ^ (p - k)\<bar> \<le> 2 ^ 53" using order_trans [OF le p9] by simp
  have c: "f64_div (10 ^ p) (10 ^ k) = 10 ^ (p - k)"
    using f64_round_of_int [of "10 ^ (p - k)"] sm by (simp add: f64_div_def pk)
  have "int f * 10 ^ (p - k) \<le> 10 ^ k * 10 ^ (p - k)" using f by (intro mult_right_mono) auto
  also have "\<dots> = (10::int) ^ p" using assms(1) by (simp flip: power_add)
  finally have d: "\<bar>int f * 10 ^ (p - k)\<bar> \<le> 2 ^ 53" using p9 by simp
  have "f64_mul (of_nat f) (10 ^ (p - k)) = of_int (int f * 10 ^ (p - k))"
    using f64_round_of_int [OF d] by (simp add: f64_mul_def)
  then have "f64_to_int (f64_mul (of_nat f) (10 ^ (p - k))) = int f * 10 ^ (p - k)"
    by (simp only: f64_to_int_of_int)
  then show ?thesis unfolding a b c by (simp add: nat_mult_distrib nat_power_eq)
qed

lemma parse_part_fraction:
  assumes "unit_text u" "part_end r" "map_of unit_map u = Some (10 ^ p)" "p \<le> 9"
    and "v * 10 ^ p + x mod 10 ^ p \<le> 2 ^ 63"
  shows "parse_part (nat_string v @ fst (fmt_frac p x False (u @ r))) = Some (v * 10 ^ p + x mod 10 ^ p, r)"
proof (cases "x mod 10 ^ p = 0")
  case True
  with parse_part_whole [OF assms(1-3)] assms(5) fmt_frac_zero [OF True] show ?thesis by simp
next
  case False
  from fmt_frac_nonzero [OF this, of "u @ r"] obtain k where k: "0 < k" "k \<le> p" "x mod 10 ^ (p - k) = 0"
    "fmt_frac p x False (u @ r) = (CHR ''.'' # pad k (x div 10 ^ (p - k)) @ u @ r, x div 10 ^ p)" by (elim exE conjE)
  define f where "f = x div 10 ^ (p - k) mod 10 ^ k"
  have "p = (p - k) + k" using k(2) by simp
  then have "x mod 10 ^ p = x mod (10 ^ (p - k) * 10 ^ k)" by (simp flip: power_add)
  also have "\<dots> = 10 ^ (p - k) * f + x mod 10 ^ (p - k)" unfolding f_def by (rule mod_mult2_eq)
  finally have xf: "x mod 10 ^ p = f * 10 ^ (p - k)" using k(3) by simp
  have f0: "0 < f" using False xf by (cases f) auto
  from unit_head [OF assms(1)] obtain c cs where u: "u = c # cs" "\<not> is_digit c" "c \<noteq> CHR ''.''" by blast
  from nat_string_start obtain d ds where d: "nat_string v = d # ds" "is_digit d" by blast
  let ?t = "pad k (x div 10 ^ (p - k)) @ u @ r"
  have v10: "v * 10 ^ p \<le> 2 ^ 63" using assms(5) by simp
  then have v: "v \<le> 2 ^ 63" by (metis le_trans mult.right_neutral mult_le_mono2 one_le_numeral one_le_power)
  have "leading_int 0 (nat_string v @ CHR ''.'' # ?t) = leading_int v (CHR ''.'' # ?t)"
    by (rule leading_int_nat_string [OF v])
  then have li: "leading_int 0 (nat_string v @ CHR ''.'' # ?t) = Some (v, CHR ''.'' # ?t)"
    by (simp add: is_digit_def code_def)
  have "leading_fraction 0 1 False ?t = (f, 10 ^ k, u @ r)"
    using leading_fraction_pad [of k "x div 10 ^ (p - k)" "u @ r"] k(2) assms(4) u by (simp add: f_def)
  then have n: "parse_number (nat_string v @ CHR ''.'' # ?t) = Some (v, f, 10 ^ k, u @ r)"
    using li d k(1) by (simp add: parse_number_def not_unit_def)
  have "f < 10 ^ k" by (simp add: f_def)
  from fraction_exact [OF k(2) assms(4) this]
  have ex: "nat (f64_to_int (f64_mul (f64_of_int (int f)) (f64_div (f64_of_int (int (10 ^ p))) (10 ^ k)))) = x mod 10 ^ p"
    by (simp add: xf)
  have "v \<le> 2 ^ 63 div 10 ^ p" using v10 by (simp add: less_eq_div_iff_mult_less_eq)
  then have "with_unit v f (10 ^ k) (u @ r) = Some (v * 10 ^ p + x mod 10 ^ p, r)"
    unfolding with_unit_def Let_def takeWhile_unit [OF assms(1,2)] assms(3) option.case ex
    using assms(1,5) f0 by (simp add: unit_text_def)
  with n k(4) show ?thesis by (simp add: parse_part_def)
qed


lemma unit_texts [simp]:
  "unit_text ''ns''" "unit_text [CHR 0xC2, CHR 0xB5, CHR ''s'']" "unit_text ''ms''" "unit_text ''s''"
  "unit_text ''m''" "unit_text ''h''"
  by (simp_all add: unit_text_def not_unit_def is_digit_def code_def)

lemma part_end_digits [simp]: "part_end []" "part_end (nat_string n @ r)"
  using nat_string_start [of n] by (auto simp: part_end_def not_unit_def)

lemma parse_parts_step:
  "parse_part s = Some (v, r) \<Longrightarrow> s \<noteq> [] \<Longrightarrow> d + v \<le> 2 ^ 63 \<Longrightarrow> parse_parts d s = parse_parts (d + v) r"
  by (subst parse_parts.simps) (simp add: Let_def)

lemma parse_parts_done [simp]: "parse_parts d [] = Some d"
  by (subst parse_parts.simps) simp

lemma nat_string_not_Nil [simp]: "nat_string n \<noteq> []" "nat_string n @ r \<noteq> []"
  using nat_string_start [of n] by auto

text \<open>The decimal part and its unit, as the whole text or as what follows larger units.\<close>

lemma parse_last:
  assumes "unit_text u" "map_of unit_map u = Some (10 ^ p)" "p \<le> 9" "d + v * 10 ^ p + x mod 10 ^ p \<le> 2 ^ 63"
  shows "parse_parts d (nat_string v @ fst (fmt_frac p x False u)) = Some (d + v * 10 ^ p + x mod 10 ^ p)"
proof -
  have b: "v * 10 ^ p + x mod 10 ^ p \<le> 2 ^ 63" "d + (v * 10 ^ p + x mod 10 ^ p) \<le> 2 ^ 63" using assms(4) by simp_all
  have "parse_part (nat_string v @ fst (fmt_frac p x False u)) = Some (v * 10 ^ p + x mod 10 ^ p, [])"
    using parse_part_fraction [OF assms(1) part_end_digits(1) assms(2,3) b(1)] by simp
  from parse_parts_step [OF this _ b(2)] show ?thesis by (simp add: add.assoc)
qed

lemma parse_whole:
  assumes "unit_text u" "map_of unit_map u = Some m" "0 < m" "d + v * m \<le> 2 ^ 63"
  shows "parse_parts d (nat_string v @ u @ nat_string w @ r) = parse_parts (d + v * m) (nat_string w @ r)"
proof -
  have "v * m \<le> 2 ^ 63" using assms(4) by simp
  from parse_part_whole [OF assms(1) part_end_digits(2) assms(2,3) this] assms(4) show ?thesis
    by (intro parse_parts_step) auto
qed

lemma fmt_frac_snd: "snd (fmt_frac n v pr acc) = v div 10 ^ n"
proof (induction n arbitrary: v pr acc)
  case 0
  then show ?case by simp
next
  case (Suc n)
  then show ?case by (simp add: fmt_frac.simps(2) Let_def div_mult2_eq)
qed

definition duration_body :: "nat \<Rightarrow> string" where
  "duration_body u = duration_string (int u)"

lemma parse_duration_body:
  assumes "u \<le> 2 ^ 63"
  shows "parse_parts 0 (duration_body u) = Some u \<and> (\<exists>c cs. duration_body u = c # cs \<and> is_digit c) \<and> duration_body u \<noteq> ''0''"
proof -
  have starts: "(\<exists>c cs. nat_string n @ r = c # cs \<and> is_digit c)" for n r using nat_string_start [of n] by auto
  have two: "nat_string n @ r \<noteq> ''0''" if "r \<noteq> []" for n r using nat_string_start [of n] that by auto
  have um: "map_of unit_map ''ns'' = Some (10 ^ 0)" "map_of unit_map [CHR 0xC2, CHR 0xB5, CHR ''s''] = Some (10 ^ 3)"
      "map_of unit_map ''ms'' = Some (10 ^ 6)" "map_of unit_map ''s'' = Some (10 ^ 9)"
      "map_of unit_map ''m'' = Some 60000000000" "map_of unit_map ''h'' = Some 3600000000000"
    by (simp_all add: unit_map_def)
  have ff: "fst (fmt_frac p x False acc) \<noteq> []" if "acc \<noteq> []" for p x acc
  proof (cases "x mod 10 ^ p = 0")
    case True
    with that show ?thesis by (simp add: fmt_frac_zero)
  next
    case False
    from fmt_frac_nonzero [OF this, of acc] show ?thesis by auto
  qed
  have small: "duration_body u = nat_string (u div 10 ^ p) @ fst (fmt_frac p u False un) \<Longrightarrow> unit_text un \<Longrightarrow>
      map_of unit_map un = Some (10 ^ p) \<Longrightarrow> p \<le> 9 \<Longrightarrow> ?thesis" for p un
    using parse_last [of un p 0 "u div 10 ^ p" u] assms starts two ff [of un p u]
    by (simp add: unit_text_def div_mult_mod_eq)
  consider "u = 0" | "0 < u" "u < 10 ^ 3" | "10 ^ 3 \<le> u" "u < 10 ^ 6" | "10 ^ 6 \<le> u" "u < 10 ^ 9" | "10 ^ 9 \<le> u" by linarith
  then show ?thesis
  proof cases
    case 1
    have "digit_char 0 = CHR ''0''" by code_simp
    then have "duration_body 0 = nat_string 0 @ fst (fmt_frac 9 0 False ''s'')"
      by (simp add: duration_body_def duration_string_def nat_string.simps fmt_frac_zero)
    with small [of 9 "''s''"] 1 um show ?thesis by simp
  next
    case 2
    then have "duration_body u = nat_string (u div 10 ^ 0) @ fst (fmt_frac 0 u False ''ns'')"
      by (simp add: duration_body_def duration_string_def Let_def split_def fmt_frac_snd)
    with small [of 0 "''ns''"] um show ?thesis by simp
  next
    case 3
    then have "duration_body u = nat_string (u div 10 ^ 3) @ fst (fmt_frac 3 u False [CHR 0xC2, CHR 0xB5, CHR ''s''])"
      by (simp add: duration_body_def duration_string_def Let_def split_def fmt_frac_snd)
    with small [of 3] um show ?thesis by simp
  next
    case 4
    then have "duration_body u = nat_string (u div 10 ^ 6) @ fst (fmt_frac 6 u False ''ms'')"
      by (simp add: duration_body_def duration_string_def Let_def split_def fmt_frac_snd)
    with small [of 6] um show ?thesis by simp
  next
    case 5
    define q where "q = u div 10 ^ 9"
    define tl9 where "tl9 = fst (fmt_frac 9 u False ''s'')"
    have t9: "tl9 \<noteq> []" unfolding tl9_def by (rule ff) simp
    have u: "u = q * 10 ^ 9 + u mod 10 ^ 9" by (simp add: q_def)
    have last: "parse_parts d (nat_string v @ tl9) = Some (d + v * 10 ^ 9 + u mod 10 ^ 9)"
      if "d + v * 10 ^ 9 + u mod 10 ^ 9 \<le> 2 ^ 63" for d v
      unfolding tl9_def by (rule parse_last [OF _ um(4) _ that]) simp_all
    have b: "duration_body u =
      (if q div 60 = 0 then nat_string (q mod 60) @ tl9
       else if q div 60 div 60 = 0 then nat_string (q div 60 mod 60) @ ''m'' @ nat_string (q mod 60) @ tl9
       else nat_string (q div 60 div 60) @ ''h'' @ nat_string (q div 60 mod 60) @ ''m'' @ nat_string (q mod 60) @ tl9)"
      using 5 by (simp add: duration_body_def duration_string_def Let_def split_def fmt_frac_snd q_def tl9_def)
    consider (s) "q div 60 = 0" | (m) "q div 60 \<noteq> 0" "q div 60 div 60 = 0" | (h) "q div 60 \<noteq> 0" "q div 60 div 60 \<noteq> 0" by blast
    then show ?thesis
    proof cases
      case s
      then have "q mod 60 = q" by auto
      with s b last [of 0 q] u assms starts [of q tl9] two [OF t9, of q] show ?thesis by simp
    next
      case m
      then have q: "q = (q div 60 mod 60) * 60 + q mod 60" by (auto simp: div_mult_mod_eq)
      let ?a = "q div 60 mod 60" and ?b = "q mod 60"
      have "?a * 60000000000 + ?b * 10 ^ 9 = (?a * 60 + ?b) * 10 ^ 9" by simp
      with u q have tot: "?a * 60000000000 + ?b * 10 ^ 9 + u mod 10 ^ 9 = u" by metis
      have b': "duration_body u = nat_string ?a @ ''m'' @ nat_string ?b @ tl9" using m b by simp
      have "parse_parts 0 (duration_body u) = parse_parts (0 + ?a * 60000000000) (nat_string ?b @ tl9)"
        unfolding b' using tot assms by (intro parse_whole) (simp_all add: um)
      also have "\<dots> = Some u" using last [of "?a * 60000000000" ?b] tot assms by simp
      finally show ?thesis using b' starts [of ?a] two [of "''m'' @ nat_string ?b @ tl9" ?a] by simp
    next
      case h
      let ?c = "q div 60 div 60" and ?a = "q div 60 mod 60" and ?b = "q mod 60"
      have q: "q = ?c * 3600 + ?a * 60 + ?b" using div_mult_mod_eq [of q 60] div_mult_mod_eq [of "q div 60" 60] by linarith
      have "?c * 3600000000000 + ?a * 60000000000 + ?b * 10 ^ 9 = (?c * 3600 + ?a * 60 + ?b) * 10 ^ 9" by simp
      with u q have tot: "?c * 3600000000000 + ?a * 60000000000 + ?b * 10 ^ 9 + u mod 10 ^ 9 = u" by metis
      have b': "duration_body u = nat_string ?c @ ''h'' @ nat_string ?a @ ''m'' @ nat_string ?b @ tl9" using h b by simp
      have "parse_parts 0 (duration_body u) = parse_parts (0 + ?c * 3600000000000) (nat_string ?a @ ''m'' @ nat_string ?b @ tl9)"
        unfolding b' using tot assms by (intro parse_whole) (simp_all add: um)
      also have "\<dots> = parse_parts (0 + ?c * 3600000000000 + ?a * 60000000000) (nat_string ?b @ tl9)"
        using tot assms by (intro parse_whole) (simp_all add: um)
      also have "\<dots> = Some u" using last [of "?c * 3600000000000 + ?a * 60000000000" ?b] tot assms by simp
      finally show ?thesis using b' starts [of ?c] two [of "''h'' @ nat_string ?a @ ''m'' @ nat_string ?b @ tl9" ?c] by simp
    qed
  qed
qed

text \<open>A written duration is read back exactly, for every 64-bit number of nanoseconds.\<close>

lemma parse_duration_string:
  assumes "- (2 ^ 63) \<le> d" "d < 2 ^ 63"
  shows "parse_duration (duration_string d) = Some d"
proof -
  define u where "u = nat \<bar>d\<bar>"
  have u: "u \<le> 2 ^ 63" using assms by (simp add: u_def)
  obtain c cs where p: "parse_parts 0 (duration_body u) = Some u" "duration_body u = c # cs" "is_digit c" "duration_body u \<noteq> ''0''"
    using parse_duration_body [OF u] by blast
  have c: "c \<noteq> CHR ''-''" "c \<noteq> CHR ''+''" using p(3) by (auto simp: is_digit_def code_def)
  have s: "duration_string d = (if d < 0 then CHR ''-'' # duration_body u else duration_body u)"
    by (simp add: duration_body_def duration_string_def u_def Let_def)
  show ?thesis
  proof (cases "d < 0")
    case True
    with p s show ?thesis by (simp add: parse_duration_def u_def Let_def)
  next
    case False
    then have "\<not> u > 2 ^ 63 - 1" "int u = d" using assms(2) by (simp_all add: u_def)
    with False p s c show ?thesis by (auto simp: parse_duration_def Let_def)
  qed
qed

end
