(* ===== verification/TapeParser.thy ===== *)
theory TapeParser
  imports TapeTokens TapeDuration
begin

text \<open>
  The parser of the automation language (\<^verbatim>\<open>internal/tape/parser.go\<close>) over the lexer's tokens, with its
  one token of lookahead, and the quoting verb it prints with. A parse function returns \<open>None\<close> where
  the code returns \<^verbatim>\<open>false\<close>; the errors are line numbers and messages. \<open>pr\<close> says which code points
  from 128 on \<^verbatim>\<open>strconv.IsPrint\<close> calls printable.
\<close>

subsection \<open>Quoting\<close>

definition continuation :: "string \<Rightarrow> nat \<Rightarrow> nat \<Rightarrow> nat \<Rightarrow> bool" where
  "continuation s i lo hi \<longleftrightarrow> i < length s \<and> lo \<le> code (s ! i) \<and> code (s ! i) \<le> hi"

text \<open>\<^verbatim>\<open>utf8.DecodeRuneInString\<close>: the code point and its width; an invalid byte is U+FFFD of width 1.\<close>

definition decode_rune :: "string \<Rightarrow> nat \<times> nat" where
  "decode_rune s =
     (let b = code (hd s); low = (\<lambda>i. code (s ! i) mod 64)
      in if b < 128 then (b, 1)
         else if 194 \<le> b \<and> b \<le> 223 \<and> continuation s 1 128 191 then ((b mod 32) * 64 + low 1, 2)
         else if 224 \<le> b \<and> b \<le> 239 \<and> continuation s 1 (if b = 224 then 160 else 128) (if b = 237 then 159 else 191) \<and>
              continuation s 2 128 191
         then ((b mod 16) * 4096 + low 1 * 64 + low 2, 3)
         else if 240 \<le> b \<and> b \<le> 244 \<and> continuation s 1 (if b = 240 then 144 else 128) (if b = 244 then 143 else 191) \<and>
              continuation s 2 128 191 \<and> continuation s 3 128 191
         then ((b mod 8) * 262144 + low 1 * 4096 + low 2 * 64 + low 3, 4)
         else (65533, 1))"

definition hex_char :: "nat \<Rightarrow> char" where
  "hex_char n = (if n < 10 then char_of (48 + n) else char_of (87 + n))"

fun hex_string :: "nat \<Rightarrow> nat \<Rightarrow> string" where
  "hex_string 0 v = []"
| "hex_string (Suc n) v = hex_string n (v div 16) @ [hex_char (v mod 16)]"

definition escape_rune :: "(nat \<Rightarrow> bool) \<Rightarrow> nat \<Rightarrow> string \<Rightarrow> string" where
  "escape_rune pr r bytes =
     (if r = 34 \<or> r = 92 then [backslash, char_of r]
      else if (32 \<le> r \<and> r \<le> 126) \<or> (128 \<le> r \<and> pr r) then bytes
      else if r = 7 then backslash # ''a'' else if r = 8 then backslash # ''b'' else if r = 12 then backslash # ''f''
      else if r = 10 then backslash # ''n'' else if r = 13 then backslash # ''r'' else if r = 9 then backslash # ''t''
      else if r = 11 then backslash # ''v''
      else if r < 32 \<or> r = 127 then backslash # CHR ''x'' # hex_string 2 r
      else if r < 65536 then backslash # CHR ''u'' # hex_string 4 r
      else backslash # CHR ''U'' # hex_string 8 r)"

lemma decode_rune_width: "(r, w) = decode_rune s \<Longrightarrow> 0 < w"
  by (simp add: decode_rune_def Let_def split: if_splits)

function quote_body :: "(nat \<Rightarrow> bool) \<Rightarrow> string \<Rightarrow> string" where
  "quote_body pr s =
     (if s = [] then []
      else let (r, w) = decode_rune s
           in (if w = 1 \<and> r = 65533 then backslash # CHR ''x'' # hex_string 2 (code (hd s))
               else escape_rune pr r (take w s)) @ quote_body pr (drop w s))"
  by pat_completeness auto
termination
proof (relation "measure (\<lambda>(pr, s). length s)", goal_cases)
  case (2 pr s x r w)
  then have "0 < w" using decode_rune_width by simp
  with 2(1) show ?case by simp
qed simp

declare quote_body.simps [simp del]

text \<open>\<^verbatim>\<open>fmt.Sprintf("%q")\<close>\<close>

definition quoted :: "(nat \<Rightarrow> bool) \<Rightarrow> string \<Rightarrow> string" where
  "quoted pr s = dquote # quote_body pr s @ [dquote]"

subsection \<open>State\<close>

record command =
  cm_type :: string
  cm_args :: "string list"
  cm_delay :: int
  cm_line :: nat
  cm_col :: nat
  cm_raw :: string

record parser =
  pa_lexer :: lexer
  pa_cur :: token
  pa_peek :: token
  pa_errors :: "(nat \<times> string) list"

definition advance :: "parser \<Rightarrow> parser" where
  "advance p = (let (t, l) = next_token (pa_lexer p) in p\<lparr>pa_cur := pa_peek p, pa_peek := t, pa_lexer := l\<rparr>)"

definition blank_token :: token where
  "blank_token = \<lparr>tk_type = [], tk_lit = [], tk_line = 0, tk_col = 0\<rparr>"

definition new_parser :: "lexer \<Rightarrow> parser" where
  "new_parser l = advance (advance \<lparr>pa_lexer = l, pa_cur = blank_token, pa_peek = blank_token, pa_errors = []\<rparr>)"

definition cur_type :: "parser \<Rightarrow> string" where "cur_type p = tk_type (pa_cur p)"

definition add_error :: "string \<Rightarrow> parser \<Rightarrow> parser" where
  "add_error msg p = p\<lparr>pa_errors := pa_errors p @ [(tk_line (pa_cur p), msg)]\<rparr>"

definition at_end :: "parser \<Rightarrow> bool" where
  "at_end p \<longleftrightarrow> cur_type p = token_newline \<or> cur_type p = token_eof"

text \<open>What every loop of the parser uses up: the lookahead and what the lexer has left.\<close>

definition pending :: "parser \<Rightarrow> nat" where
  "pending p = (if cur_type p = token_eof then 0 else 1) + (if tk_type (pa_peek p) = token_eof then 0 else 1) +
     left (pa_lexer p)"

lemma pending_advance: "cur_type p \<noteq> token_eof \<Longrightarrow> pending (advance p) < pending p"
proof -
  assume c: "cur_type p \<noteq> token_eof"
  obtain t l where n: "next_token (pa_lexer p) = (t, l)" by fastforce
  show ?thesis using left_next_token [OF n] c by (auto simp: pending_def advance_def cur_type_def n split: if_splits)
qed

lemma pending_add_error [simp]: "pending (add_error msg p) = pending p"
  by (simp add: add_error_def pending_def cur_type_def)

function skip_to_next_line :: "parser \<Rightarrow> parser" where
  "skip_to_next_line p = (if at_end p then p else skip_to_next_line (advance p))"
  by pat_completeness auto
termination by (relation "measure pending") (auto simp: at_end_def pending_advance)

declare skip_to_next_line.simps [simp del]

subsection \<open>Commands\<close>

definition start_command :: "string \<Rightarrow> parser \<Rightarrow> command" where
  "start_command ty p = \<lparr>cm_type = ty, cm_args = [], cm_delay = 0, cm_line = tk_line (pa_cur p),
     cm_col = tk_col (pa_cur p), cm_raw = []\<rparr>"

text \<open>What follows a complete command on its line is skipped without an error.\<close>

definition finish :: "command \<Rightarrow> parser \<Rightarrow> command option \<times> parser" where
  "finish c p = (Some c, if at_end p then p else skip_to_next_line p)"

definition give_up :: "string \<Rightarrow> parser \<Rightarrow> command option \<times> parser" where
  "give_up msg p = (None, skip_to_next_line (add_error msg p))"

text \<open>The duration literal at the current token; an unreadable one is reported and counts as zero.\<close>

definition take_duration :: "parser \<Rightarrow> int \<times> parser" where
  "take_duration p =
     (case parse_duration (tk_lit (pa_cur p)) of
        None \<Rightarrow> (0, add_error (''invalid duration: '' @ tk_lit (pa_cur p)) p)
      | Some d \<Rightarrow> (d, p))"

text \<open>The modifier \<^verbatim>\<open>@<duration>\<close>.\<close>

definition speed_modifier :: "command \<Rightarrow> parser \<Rightarrow> command \<times> parser" where
  "speed_modifier c p =
     (if cur_type p \<noteq> token_at_sign then (c, p)
      else let p1 = advance p
           in if cur_type p1 = token_duration
              then let (d, p2) = take_duration p1 in (c\<lparr>cm_delay := d\<rparr>, advance p2)
              else (c, add_error ''expected duration after @'' p1))"

definition parse_basic :: "string \<Rightarrow> parser \<Rightarrow> command option \<times> parser" where
  "parse_basic ty p =
     (let (c, p1) = speed_modifier (start_command ty p) (advance p);
          (c2, p2) = (if cur_type p1 = token_number then (c\<lparr>cm_args := [tk_lit (pa_cur p1)]\<rparr>, advance p1) else (c, p1))
      in finish (c2\<lparr>cm_raw := tk_lit (pa_cur p)\<rparr>) p2)"

definition parse_type :: "(nat \<Rightarrow> bool) \<Rightarrow> parser \<Rightarrow> command option \<times> parser" where
  "parse_type pr p =
     (let (c, p1) = speed_modifier (start_command ''Type'' p) (advance p); s = tk_lit (pa_cur p1)
      in if cur_type p1 = token_string
         then finish (c\<lparr>cm_args := [s], cm_raw := ''Type '' @ quoted pr s\<rparr>) (advance p1)
         else give_up (''Type command expects a string, got '' @ cur_type p1) p1)"

text \<open>\<^verbatim>\<open>Sleep\<close> and its alias \<^verbatim>\<open>Wait\<close>.\<close>

definition parse_pause :: "string \<Rightarrow> parser \<Rightarrow> command option \<times> parser" where
  "parse_pause ty p =
     (let c = start_command ty p; p1 = advance p; s = tk_lit (pa_cur p1)
      in if cur_type p1 = token_duration
         then let (d, p2) = take_duration p1
              in finish (c\<lparr>cm_args := [s], cm_delay := d, cm_raw := ty @ '' '' @ s\<rparr>) (advance p2)
         else give_up (ty @ '' command expects a duration, got '' @ cur_type p1) p1)"

text \<open>The modifiers of a key combination, with the plus signs between them.\<close>

function take_modifiers :: "parser \<Rightarrow> string list \<times> parser" where
  "take_modifiers p =
     (if is_modifier (cur_type p)
      then let p1 = advance p; p2 = (if cur_type p1 = token_plus then advance p1 else p1);
               (ms, p') = take_modifiers p2
           in (tk_lit (pa_cur p) # ms, p')
      else ([], p))"
  by pat_completeness auto
termination
proof (relation "measure pending", goal_cases)
  case (2 p x xa)
  then have "cur_type p \<noteq> token_eof" by (auto simp: is_modifier_def)
  then have "pending x < pending p" using 2 pending_advance by simp
  moreover have "pending xa \<le> pending x"
    using 2 pending_advance [of x] by (cases "cur_type x = token_plus") auto
  ultimately show ?case by simp
qed simp

declare take_modifiers.simps [simp del]

fun join_with :: "string \<Rightarrow> string list \<Rightarrow> string" where
  "join_with sep [] = []"
| "join_with sep [x] = x"
| "join_with sep (x # y # xs) = x @ sep @ join_with sep (y # xs)"

definition key_token :: "token \<Rightarrow> bool" where
  "key_token t \<longleftrightarrow> tk_type t = token_identifier \<or> is_navigation_key (tk_type t) \<or> tk_type t = ''Enter'' \<or>
     tk_type t = ''Space'' \<or> tk_type t = token_number \<or> (tk_lit t \<noteq> [] \<and> is_digit (hd (tk_lit t)))"

definition parse_key_combo :: "parser \<Rightarrow> command option \<times> parser" where
  "parse_key_combo p =
     (let (ms, p1) = take_modifiers p
      in if key_token (pa_cur p1)
         then let s = join_with ''+'' (ms @ [tk_lit (pa_cur p1)])
              in finish ((start_command ''KeyCombo'' p)\<lparr>cm_args := [s], cm_raw := s\<rparr>) (advance p1)
         else give_up (''expected key after modifier, got '' @ cur_type p1) p1)"

text \<open>The commands with one argument of a certain kind of token.\<close>

definition parse_argument :: "string \<Rightarrow> string list \<Rightarrow> string \<Rightarrow> bool \<Rightarrow> parser \<Rightarrow> command option \<times> parser" where
  "parse_argument ty kinds msg report p =
     (let c = start_command ty p; p1 = advance p; s = tk_lit (pa_cur p1)
      in if cur_type p1 \<in> set kinds
         then finish (c\<lparr>cm_args := [s], cm_raw := ty @ '' '' @ s\<rparr>) (advance p1)
         else give_up (if report then msg @ cur_type p1 else msg) p1)"

definition parse_rename :: "(nat \<Rightarrow> bool) \<Rightarrow> parser \<Rightarrow> command option \<times> parser" where
  "parse_rename pr p =
     (let c = start_command ''RenameWindow'' p; p1 = advance p; s = tk_lit (pa_cur p1)
      in if cur_type p1 = token_string
         then finish (c\<lparr>cm_args := [s], cm_raw := ''RenameWindow '' @ quoted pr s\<rparr>) (advance p1)
         else if cur_type p1 = token_identifier
         then finish (c\<lparr>cm_args := [s], cm_raw := ''RenameWindow '' @ s\<rparr>) (advance p1)
         else give_up ''RenameWindow expects a window name'' p1)"

definition parse_wait_until :: "(nat \<Rightarrow> bool) \<Rightarrow> parser \<Rightarrow> command option \<times> parser" where
  "parse_wait_until pr p =
     (let c = start_command ''WaitUntilRegex'' p; p1 = advance p; s = tk_lit (pa_cur p1); p2 = advance p1; n = tk_lit (pa_cur p2)
      in if cur_type p1 = token_string
         then if cur_type p2 = token_number
              then finish (c\<lparr>cm_args := [s, n], cm_raw := ''WaitUntilRegex '' @ quoted pr s @ '' '' @ n\<rparr>) (advance p2)
              else finish (c\<lparr>cm_args := [s], cm_raw := ''WaitUntilRegex '' @ quoted pr s\<rparr>) p2
         else give_up ''WaitUntilRegex expects a regex pattern string'' p1)"

definition parse_set :: "parser \<Rightarrow> command option \<times> parser" where
  "parse_set p =
     (let c = start_command ''Set'' p; p1 = advance p; key = tk_lit (pa_cur p1); p2 = advance p1; v = tk_lit (pa_cur p2)
      in if cur_type p1 \<noteq> token_identifier then give_up ''Set command expects a key'' p1
         else if cur_type p2 \<in> set [token_identifier, token_string, token_number, token_duration]
         then finish (c\<lparr>cm_args := [key, v], cm_raw := ''Set '' @ key @ '' '' @ v\<rparr>) (advance p2)
         else give_up ''Set command expects a value'' p2)"

text \<open>The commands without arguments: token type and command type are spelled alike.\<close>

definition basic_commands :: "string list" where
  "basic_commands =
     [''Enter'', ''Space'', ''Backspace'', ''Delete'', ''Tab'', ''Escape'', ''Up'', ''Down'', ''Left'', ''Right'',
      ''Home'', ''End'', ''TerminalMode'', ''WindowManagementMode'', ''NewWindow'', ''CloseWindow'', ''NextWindow'',
      ''PrevWindow'', ''MinimizeWindow'', ''RestoreWindow'', ''ToggleTiling'', ''EnableTiling'', ''DisableTiling'',
      ''SnapLeft'', ''SnapRight'', ''SnapFullscreen'', ''Split'', ''RotateSplit'', ''EqualizeSplits'', ''ToggleZoom'',
      ''SmartSplit'', ''CommandPalette'', ''EnableAnimations'', ''DisableAnimations'', ''ToggleAnimations'']"

function skip_newlines :: "parser \<Rightarrow> parser" where
  "skip_newlines p = (if cur_type p = token_newline then skip_newlines (advance p) else p)"
  by pat_completeness auto
termination by (relation "measure pending") (auto intro: pending_advance)

declare skip_newlines.simps [simp del]

definition parse_window_id :: "parser \<Rightarrow> command option \<times> parser" where
  "parse_window_id = parse_argument ''FocusWindow'' [token_identifier, token_number] ''FocusWindow expects a window ID, got '' True"

definition parse_switch_workspace :: "parser \<Rightarrow> command option \<times> parser" where
  "parse_switch_workspace = parse_argument ''SwitchWorkspace'' [token_number] ''SwitchWorkspace expects a number, got '' True"

definition parse_move_to_workspace :: "parser \<Rightarrow> command option \<times> parser" where
  "parse_move_to_workspace = parse_argument ''MoveToWorkspace'' [token_number] ''MoveToWorkspace expects a number, got '' True"

definition parse_move_and_follow :: "parser \<Rightarrow> command option \<times> parser" where
  "parse_move_and_follow = parse_argument ''MoveAndFollowWorkspace'' [token_number] ''MoveAndFollowWorkspace expects a number, got '' True"

definition parse_save_layout :: "parser \<Rightarrow> command option \<times> parser" where
  "parse_save_layout = parse_argument ''SaveLayout'' [token_string, token_identifier] ''SaveLayout command expects a layout name'' False"

definition parse_load_layout :: "parser \<Rightarrow> command option \<times> parser" where
  "parse_load_layout = parse_argument ''LoadLayout'' [token_string, token_identifier] ''LoadLayout command expects a layout name'' False"

definition parse_focus :: "parser \<Rightarrow> command option \<times> parser" where
  "parse_focus = parse_argument ''Focus'' [token_identifier, token_number] ''Focus command expects an identifier or number'' False"

definition parse_output :: "parser \<Rightarrow> command option \<times> parser" where
  "parse_output = parse_argument ''Output'' [token_string, token_identifier] ''Output command expects a filename'' False"

definition parse_source :: "parser \<Rightarrow> command option \<times> parser" where
  "parse_source = parse_argument ''Source'' [token_string, token_identifier] ''Source command expects a filename'' False"

definition parse_sleep :: "parser \<Rightarrow> command option \<times> parser" where
  "parse_sleep = parse_pause ''Sleep''"

definition parse_wait :: "parser \<Rightarrow> command option \<times> parser" where
  "parse_wait = parse_pause ''Wait''"

definition dispatch :: "(nat \<Rightarrow> bool) \<Rightarrow> parser \<Rightarrow> command option \<times> parser" where
  "dispatch pr p =
     (let t = cur_type p
      in if t \<in> set basic_commands then parse_basic t p
         else if t = ''Type'' then parse_type pr p
         else if t = ''Sleep'' then parse_sleep p
         else if t = ''Wait'' then parse_wait p
         else if is_modifier t then parse_key_combo p
         else if t = ''FocusWindow'' then parse_window_id p
         else if t = ''RenameWindow'' then parse_rename pr p
         else if t = ''SwitchWorkspace'' then parse_switch_workspace p
         else if t = ''MoveToWorkspace'' then parse_move_to_workspace p
         else if t = ''MoveAndFollowWorkspace'' then parse_move_and_follow p
         else if t = ''SaveLayout'' then parse_save_layout p
         else if t = ''LoadLayout'' then parse_load_layout p
         else if t = ''Focus'' then parse_focus p
         else if t = ''WaitUntilRegex'' then parse_wait_until pr p
         else if t = ''Set'' then parse_set p
         else if t = ''Output'' then parse_output p
         else if t = ''Source'' then parse_source p
         else give_up (''unexpected token: '' @ t) p)"

text \<open>The same with the shared parsers written out, for the proofs by cases on the token.\<close>

lemma dispatch_cases:
  "dispatch pr p =
     (let t = cur_type p
      in if t \<in> set basic_commands then parse_basic t p
         else if t = ''Type'' then parse_type pr p
         else if t = ''Sleep'' \<or> t = ''Wait'' then parse_pause t p
         else if is_modifier t then parse_key_combo p
         else if t = ''FocusWindow'' then parse_argument t [token_identifier, token_number] ''FocusWindow expects a window ID, got '' True p
         else if t = ''RenameWindow'' then parse_rename pr p
         else if t = ''SwitchWorkspace'' then parse_argument t [token_number] ''SwitchWorkspace expects a number, got '' True p
         else if t = ''MoveToWorkspace'' then parse_argument t [token_number] ''MoveToWorkspace expects a number, got '' True p
         else if t = ''MoveAndFollowWorkspace''
         then parse_argument t [token_number] ''MoveAndFollowWorkspace expects a number, got '' True p
         else if t = ''SaveLayout''
         then parse_argument t [token_string, token_identifier] ''SaveLayout command expects a layout name'' False p
         else if t = ''LoadLayout''
         then parse_argument t [token_string, token_identifier] ''LoadLayout command expects a layout name'' False p
         else if t = ''Focus''
         then parse_argument t [token_identifier, token_number] ''Focus command expects an identifier or number'' False p
         else if t = ''WaitUntilRegex'' then parse_wait_until pr p
         else if t = ''Set'' then parse_set p
         else if t = ''Output'' then parse_argument t [token_string, token_identifier] ''Output command expects a filename'' False p
         else if t = ''Source'' then parse_argument t [token_string, token_identifier] ''Source command expects a filename'' False p
         else give_up (''unexpected token: '' @ t) p)"
  by (simp add: dispatch_def parse_window_id_def parse_switch_workspace_def parse_move_to_workspace_def parse_move_and_follow_def parse_save_layout_def parse_load_layout_def parse_focus_def parse_output_def parse_source_def parse_sleep_def parse_wait_def Let_def)

definition parse_command :: "(nat \<Rightarrow> bool) \<Rightarrow> parser \<Rightarrow> command option \<times> parser" where
  "parse_command pr p0 =
     (let p = skip_newlines p0 in if cur_type p = token_eof then (None, p) else dispatch pr p)"


subsection \<open>Progress\<close>

lemma pending_advance_le: "pending (advance p) \<le> pending p"
proof (cases "cur_type p = token_eof")
  case True
  obtain t l where n: "next_token (pa_lexer p) = (t, l)" by fastforce
  show ?thesis using left_next_token [OF n] True by (auto simp: pending_def advance_def cur_type_def n split: if_splits)
qed (use pending_advance [of p] in simp)

lemma pending_skip_line: "pending (skip_to_next_line p) \<le> pending p"
proof (induction p rule: skip_to_next_line.induct)
  case (1 p)
  then show ?case by (subst skip_to_next_line.simps) (auto intro: order_trans [OF _ pending_advance_le])
qed

lemma pending_finish: "pending (snd (finish c p)) \<le> pending p"
  by (simp add: finish_def pending_skip_line)

lemma pending_give_up: "pending (snd (give_up msg p)) \<le> pending p"
  using pending_skip_line [of "add_error msg p"] by (simp add: give_up_def)

lemma pending_take_duration: "pending (snd (take_duration p)) = pending p"
  by (simp add: take_duration_def split: option.splits)

lemma pending_speed: "pending (snd (speed_modifier c p)) \<le> pending p"
proof -
  have "pending (advance (snd (take_duration (advance p)))) \<le> pending p"
    using pending_advance_le [of "snd (take_duration (advance p))"] pending_take_duration [of "advance p"] pending_advance_le [of p] by simp
  then show ?thesis by (auto simp: speed_modifier_def Let_def split_def pending_advance_le)
qed

lemma pending_modifiers: "pending (snd (take_modifiers p)) \<le> pending p"
proof (induction p rule: take_modifiers.induct)
  case (1 p)
  define p2 where "p2 = (if cur_type (advance p) = token_plus then advance (advance p) else advance p)"
  have "pending p2 \<le> pending p"
    using pending_advance_le [of p] pending_advance_le [of "advance p"] by (auto simp: p2_def)
  with 1 [OF _ refl p2_def] show ?case
    by (subst take_modifiers.simps) (auto simp: Let_def split_def p2_def [symmetric])
qed

lemma modifier_not_eof: "is_modifier t \<Longrightarrow> t \<noteq> token_eof \<and> t \<noteq> token_newline"
  by (auto simp: is_modifier_def)

lemma pending_modifiers_less: "is_modifier (cur_type p) \<Longrightarrow> pending (snd (take_modifiers p)) < pending p"
proof -
  assume m: "is_modifier (cur_type p)"
  define p2 where "p2 = (if cur_type (advance p) = token_plus then advance (advance p) else advance p)"
  have "pending p2 < pending p"
    using pending_advance [of p] modifier_not_eof [OF m] pending_advance_le [of "advance p"] by (auto simp: p2_def)
  moreover have "snd (take_modifiers p) = snd (take_modifiers p2)"
    using m by (subst take_modifiers.simps) (simp add: Let_def split_def p2_def [symmetric])
  ultimately show ?thesis using pending_modifiers [of p2] by simp
qed

lemma pending_dispatch:
  assumes "cur_type p \<noteq> token_eof" "cur_type p \<noteq> token_newline"
  shows "pending (snd (dispatch pr p)) < pending p"
proof -
  note a = pending_advance [OF assms(1)]
  have le: "pending x \<le> pending (advance p) \<Longrightarrow> pending x < pending p" for x using a by simp
  have fin: "pending q \<le> pending (advance p) \<Longrightarrow> pending (snd (finish c q)) < pending p" for q c
    using pending_finish [of c q] a by simp
  have giv: "pending q \<le> pending (advance p) \<Longrightarrow> pending (snd (give_up m q)) < pending p" for q m
    using pending_give_up [of m q] a by simp
  have adv: "pending q \<le> pending (advance p) \<Longrightarrow> pending (advance q) \<le> pending (advance p)" for q
    using pending_advance_le [of q] by simp
  have sp: "pending (snd (speed_modifier c (advance p))) \<le> pending (advance p)" for c by (rule pending_speed)
  have dur: "pending (snd (take_duration (advance p))) \<le> pending (advance p)" by (simp add: pending_take_duration)
  have basic: "pending (snd (parse_basic t p)) < pending p" for t
    unfolding parse_basic_def using sp by (auto simp: split_def Let_def intro!: fin adv)
  have ty: "pending (snd (parse_type pr p)) < pending p"
    unfolding parse_type_def using sp by (auto simp: split_def Let_def intro!: fin giv adv)
  have pau: "pending (snd (parse_pause t p)) < pending p" for t
    unfolding parse_pause_def using dur by (auto simp: split_def Let_def intro!: fin giv adv)
  have arg: "pending (snd (parse_argument t ks m b p)) < pending p" for t ks m b
    unfolding parse_argument_def by (auto simp: Let_def intro!: fin giv adv)
  have ren: "pending (snd (parse_rename pr p)) < pending p"
    unfolding parse_rename_def by (auto simp: Let_def intro!: fin giv adv)
  have wai: "pending (snd (parse_wait_until pr p)) < pending p"
    unfolding parse_wait_until_def by (auto simp: Let_def intro!: fin giv adv)
  have set: "pending (snd (parse_set p)) < pending p"
    unfolding parse_set_def by (auto simp: Let_def intro!: fin giv adv)
  have key: "pending (snd (parse_key_combo p)) < pending p" if m: "is_modifier (cur_type p)"
  proof -
    let ?p1 = "snd (take_modifiers p)"
    have l: "pending ?p1 < pending p" by (rule pending_modifiers_less [OF m])
    have "pending (snd (finish c (advance ?p1))) < pending p" for c
      by (rule le_less_trans [OF pending_finish le_less_trans [OF pending_advance_le l]])
    moreover have "pending (snd (give_up msg ?p1)) < pending p" for msg
      by (rule le_less_trans [OF pending_give_up l])
    ultimately show ?thesis by (simp add: parse_key_combo_def split_def Let_def)
  qed
  have un: "pending (snd (give_up m p)) < pending p" for m
  proof -
    have e: "\<not> at_end (add_error m p)" using assms by (simp add: at_end_def add_error_def cur_type_def)
    have "snd (give_up m p) = skip_to_next_line (advance (add_error m p))"
      unfolding give_up_def by (subst skip_to_next_line.simps) (simp add: e)
    then show ?thesis
      using pending_skip_line [of "advance (add_error m p)"] pending_advance [of "add_error m p"] assms(1)
      by (simp add: add_error_def cur_type_def pending_def split: if_splits)
  qed
  show ?thesis
    using basic ty pau arg ren wai set key un by (simp add: dispatch_cases Let_def)
qed

lemma skip_newlines_id: "cur_type p \<noteq> token_newline \<Longrightarrow> skip_newlines p = p"
  by (subst skip_newlines.simps) simp

function parse_loop :: "(nat \<Rightarrow> bool) \<Rightarrow> parser \<Rightarrow> command list \<times> parser" where
  "parse_loop pr p =
     (if cur_type p = token_eof then ([], p)
      else if cur_type p = token_newline then parse_loop pr (advance p)
      else case parse_command pr p of
        (None, p') \<Rightarrow> parse_loop pr (advance p')
      | (Some c, p') \<Rightarrow> let (cs, q) = parse_loop pr p' in (c # cs, q))"
  by pat_completeness auto
termination
proof (relation "measure (\<lambda>(pr, p). pending p)", goal_cases)
  case (3 pr p x p')
  then have "dispatch pr p = (None, p')" by (simp add: parse_command_def skip_newlines_id)
  then have "pending p' < pending p" using pending_dispatch [of p pr] 3 by simp
  with pending_advance_le [of p'] show ?case by simp
next
  case (4 pr p x p' c)
  then have "dispatch pr p = (Some c, p')" by (simp add: parse_command_def skip_newlines_id)
  then show ?case using pending_dispatch [of p pr] 4 by simp
qed (auto intro: pending_advance)

declare parse_loop.simps [simp del]

text \<open>\<^verbatim>\<open>ParseFile\<close>: the commands and the errors.\<close>

definition parse_file :: "(nat \<Rightarrow> bool) \<Rightarrow> string \<Rightarrow> command list \<times> (nat \<times> string) list" where
  "parse_file pr s = (let (cs, p) = parse_loop pr (new_parser (new_lexer s)) in (cs, pa_errors p))"

end
