(* ===== verification/TapeTyping.thy ===== *)
theory TapeTyping
  imports TapeParser
begin

text \<open>
  What the parser guarantees of a command it accepts: its type and the number and shape of its
  arguments.
\<close>

subsection \<open>Literals of tokens\<close>

definition lit_ok :: "token \<Rightarrow> bool" where
  "lit_ok t \<longleftrightarrow> (tk_type t = token_identifier \<longrightarrow> tk_lit t \<noteq> []) \<and>
     (tk_type t = token_number \<longrightarrow> tk_lit t \<noteq> [] \<and> is_digit (hd (tk_lit t)))"

lemma read_run_first: "lx_ch l \<noteq> NUL \<Longrightarrow> P (lx_ch l) \<Longrightarrow> \<exists>s. fst (read_run P l) = lx_ch l # s"
  by (subst read_run.simps) (simp add: split_def Let_def)

lemma lookup_keyword_cases: "lookup_keyword w \<in> set keyword_list \<or> lookup_keyword w = token_identifier"
proof -
  have "k \<in> set keyword_list" if "find P keyword_list = Some k" for P k
    using that by (auto simp: find_Some_iff)
  then show ?thesis by (auto simp: lookup_keyword_def split: option.splits)
qed

lemma plain_token_lit_ok:
  assumes "plain_token l0 l = (t, l')"
  shows "lit_ok t"
proof -
  have num: "fst (read_number l) \<noteq> [] \<and> is_digit (hd (fst (read_number l)))" if d: "is_digit (lx_ch l)" "lx_ch l \<noteq> NUL"
    using read_run_first [of l is_digit] d by (auto simp: read_number_def Let_def split_def)
  have idn: "fst (read_identifier l) \<noteq> []" if d: "is_ident (lx_ch l)" "lx_ch l \<noteq> NUL"
    using read_run_first [of l is_ident] d by (auto simp: read_identifier_def)
  have kw: "lookup_keyword w \<noteq> token_number" for w
    using lookup_keyword_cases [of w] by (auto simp: keyword_list_def)
  show ?thesis
    using assms num idn kw
    by (auto simp: plain_token_def number_token_def Let_def split_def lit_ok_def mk_token_def split: if_splits)
qed

lemma next_token_lit_ok: "next_token l = (t, l') \<Longrightarrow> lit_ok t"
proof (induction l rule: next_token.induct)
  case (1 l0)
  then show ?case
    by (subst (asm) (2) next_token.simps) (auto simp: Let_def plain_token_lit_ok split: if_splits)
qed

definition toks_ok :: "parser \<Rightarrow> bool" where
  "toks_ok p \<longleftrightarrow> lit_ok (pa_cur p) \<and> lit_ok (pa_peek p)"

lemma toks_ok_advance [intro]: "toks_ok p \<Longrightarrow> toks_ok (advance p)"
  using next_token_lit_ok [of "pa_lexer p"]
  by (cases "next_token (pa_lexer p)") (auto simp: toks_ok_def advance_def)

lemma toks_ok_add_error [simp]: "toks_ok (add_error m p) = toks_ok p"
  by (simp add: toks_ok_def add_error_def)

lemma toks_ok_skip_line [intro]: "toks_ok p \<Longrightarrow> toks_ok (skip_to_next_line p)"
proof (induction p rule: skip_to_next_line.induct)
  case (1 p)
  then show ?case by (subst skip_to_next_line.simps) auto
qed

lemma toks_ok_finish [intro]: "toks_ok p \<Longrightarrow> toks_ok (snd (finish c p))"
  by (auto simp: finish_def)

lemma toks_ok_give_up [intro]: "toks_ok p \<Longrightarrow> toks_ok (snd (give_up m p))"
  by (auto simp: give_up_def)

lemma toks_ok_take_duration [intro]: "toks_ok p \<Longrightarrow> toks_ok (snd (take_duration p))"
  by (auto simp: take_duration_def split: option.splits)

lemma toks_ok_speed [intro]: "toks_ok p \<Longrightarrow> toks_ok (snd (speed_modifier c p))"
  by (auto simp: speed_modifier_def Let_def split_def)

lemma toks_ok_modifiers [intro]: "toks_ok p \<Longrightarrow> toks_ok (snd (take_modifiers p))"
proof (induction p rule: take_modifiers.induct)
  case (1 p)
  define p2 where "p2 = (if cur_type (advance p) = token_plus then advance (advance p) else advance p)"
  have "toks_ok p2" using "1.prems" by (auto simp: p2_def)
  with "1.IH" [OF _ refl p2_def] "1.prems" show ?case
    by (subst take_modifiers.simps) (auto simp: Let_def split_def p2_def [symmetric])
qed

lemma toks_ok_skip_newlines [intro]: "toks_ok p \<Longrightarrow> toks_ok (skip_newlines p)"
proof (induction p rule: skip_newlines.induct)
  case (1 p)
  then show ?case by (subst skip_newlines.simps) auto
qed

lemma toks_ok_new_parser: "toks_ok (new_parser l)"
  unfolding new_parser_def by (intro toks_ok_advance) (simp add: toks_ok_def lit_ok_def blank_token_def)

subsection \<open>Well-typed commands\<close>

definition one_argument :: "string list" where
  "one_argument = [''Type'', ''Sleep'', ''Wait'', ''KeyCombo'', ''RenameWindow'', ''SwitchWorkspace'', ''MoveToWorkspace'',
     ''MoveAndFollowWorkspace'', ''SaveLayout'', ''LoadLayout'', ''Focus'', ''Output'', ''Source'']"

definition well_typed :: "command \<Rightarrow> bool" where
  "well_typed c \<longleftrightarrow>
     (cm_type c \<in> set basic_commands \<and> (cm_args c = [] \<or> (\<exists>s. cm_args c = [s] \<and> s \<noteq> [] \<and> is_digit (hd s)))) \<or>
     (cm_type c \<in> set one_argument \<and> (\<exists>s. cm_args c = [s])) \<or>
     (cm_type c = ''FocusWindow'' \<and> (\<exists>s. cm_args c = [s] \<and> s \<noteq> [])) \<or>
     (cm_type c = ''WaitUntilRegex'' \<and> (\<exists>s. cm_args c = [s] \<or> (\<exists>n. cm_args c = [s, n]))) \<or>
     (cm_type c = ''Set'' \<and> (\<exists>k v. cm_args c = [k, v]))"

lemma speed_type_args:
  "cm_type (fst (speed_modifier c p)) = cm_type c \<and> cm_args (fst (speed_modifier c p)) = cm_args c"
  by (simp add: speed_modifier_def Let_def split_def)

lemma start_command_sel [simp]: "cm_type (start_command t p) = t" "cm_args (start_command t p) = []"
  by (simp_all add: start_command_def)

lemma fst_finish [simp]: "fst (finish c p) = Some c" "fst (give_up m p) = None"
  by (simp_all add: finish_def give_up_def)

lemma well_typed_one: "cm_type c = t \<Longrightarrow> t \<in> set one_argument \<Longrightarrow> cm_args c = [s] \<Longrightarrow> well_typed c"
  unfolding well_typed_def by blast

lemma well_typed_basic:
  "cm_type c = t \<Longrightarrow> t \<in> set basic_commands \<Longrightarrow> cm_args c = [] \<or> (\<exists>s. cm_args c = [s] \<and> s \<noteq> [] \<and> is_digit (hd s)) \<Longrightarrow>
   well_typed c"
  unfolding well_typed_def by blast

lemma basic_typed:
  assumes "toks_ok p" "t \<in> set basic_commands" "fst (parse_basic t p) = Some c"
  shows "well_typed c"
proof -
  define q where "q = speed_modifier (start_command t p) (advance p)"
  have st: "cm_type (fst q) = t" "cm_args (fst q) = []"
    using speed_type_args [of "start_command t p" "advance p"] by (simp_all add: q_def)
  have "lit_ok (pa_cur (snd q))" using toks_ok_speed [OF toks_ok_advance [OF assms(1)]] by (simp add: toks_ok_def q_def)
  then have lit: "cur_type (snd q) = token_number \<Longrightarrow> tk_lit (pa_cur (snd q)) \<noteq> [] \<and> is_digit (hd (tk_lit (pa_cur (snd q))))"
    by (simp add: lit_ok_def cur_type_def)
  have "c = (if cur_type (snd q) = token_number then (fst q)\<lparr>cm_args := [tk_lit (pa_cur (snd q))]\<rparr> else fst q)
      \<lparr>cm_raw := tk_lit (pa_cur p)\<rparr>"
    using assms(3) unfolding parse_basic_def q_def [symmetric] by (simp add: Let_def split_def split: if_splits)
  with st lit show ?thesis by (intro well_typed_basic [OF _ assms(2)]) auto
qed

lemma argument_typed: "fst (parse_argument t ks m b p) = Some c \<Longrightarrow>
   cm_type c = t \<and> cur_type (advance p) \<in> set ks \<and> cm_args c = [tk_lit (pa_cur (advance p))]"
  by (auto simp: parse_argument_def Let_def split: if_splits)

lemma pause_typed: "fst (parse_pause t p) = Some c \<Longrightarrow> cm_type c = t \<and> (\<exists>s. cm_args c = [s])"
  by (auto simp: parse_pause_def Let_def split_def split: if_splits)

lemma type_typed: "fst (parse_type pr p) = Some c \<Longrightarrow> cm_type c = ''Type'' \<and> (\<exists>s. cm_args c = [s])"
  using speed_type_args [of "start_command ''Type'' p" "advance p"]
  by (auto simp: parse_type_def Let_def split_def split: if_splits)

lemma combo_typed: "fst (parse_key_combo p) = Some c \<Longrightarrow> cm_type c = ''KeyCombo'' \<and> (\<exists>s. cm_args c = [s])"
  by (auto simp: parse_key_combo_def Let_def split_def split: if_splits)

lemma rename_typed: "fst (parse_rename pr p) = Some c \<Longrightarrow> cm_type c = ''RenameWindow'' \<and> (\<exists>s. cm_args c = [s])"
  by (auto simp: parse_rename_def Let_def split: if_splits)

lemma wait_typed: "fst (parse_wait_until pr p) = Some c \<Longrightarrow>
   cm_type c = ''WaitUntilRegex'' \<and> (\<exists>s. cm_args c = [s] \<or> (\<exists>n. cm_args c = [s, n]))"
  by (auto simp: parse_wait_until_def Let_def split: if_splits)

lemma set_typed: "fst (parse_set p) = Some c \<Longrightarrow> cm_type c = ''Set'' \<and> (\<exists>k v. cm_args c = [k, v])"
  by (auto simp: parse_set_def Let_def split: if_splits)

lemma dispatch_typed:
  assumes "toks_ok p" "fst (dispatch pr p) = Some c"
  shows "well_typed c"
proof -
  have one: "''Type'' \<in> set one_argument" "''Sleep'' \<in> set one_argument" "''Wait'' \<in> set one_argument"
    "''KeyCombo'' \<in> set one_argument" "''RenameWindow'' \<in> set one_argument" by (simp_all add: one_argument_def)
  have ty: "well_typed c" if "fst (parse_type pr p) = Some c"
    using type_typed [OF that] one well_typed_one by blast
  have pau: "well_typed c" if "fst (parse_pause t p) = Some c" "t = ''Sleep'' \<or> t = ''Wait''" for t
    using pause_typed [OF that(1)] that(2) one well_typed_one by blast
  have key: "well_typed c" if "fst (parse_key_combo p) = Some c"
    using combo_typed [OF that] one well_typed_one by blast
  have arg: "well_typed c" if "fst (parse_argument t ks m b p) = Some c" "t \<in> set one_argument" for t ks m b
    using argument_typed [OF that(1)] that(2) well_typed_one by blast
  have foc: "well_typed c" if "fst (parse_argument ''FocusWindow'' [token_identifier, token_number] m b p) = Some c" for m b
  proof -
    have "lit_ok (pa_cur (advance p))" using toks_ok_advance [OF assms(1)] by (simp add: toks_ok_def)
    with argument_typed [OF that] have "cm_type c = ''FocusWindow'' \<and> (\<exists>s. cm_args c = [s] \<and> s \<noteq> [])"
      unfolding lit_ok_def cur_type_def by auto
    then show ?thesis unfolding well_typed_def by blast
  qed
  have ren: "well_typed c" if "fst (parse_rename pr p) = Some c"
    using rename_typed [OF that] one well_typed_one by blast
  have wai: "well_typed c" if "fst (parse_wait_until pr p) = Some c"
    using wait_typed [OF that] unfolding well_typed_def by blast
  have set: "well_typed c" if "fst (parse_set p) = Some c"
    using set_typed [OF that] unfolding well_typed_def by blast
  define Q where "Q x \<longleftrightarrow> (fst x = Some c \<longrightarrow> well_typed c)" for x :: "command option \<times> parser"
  have choose: "(b \<Longrightarrow> Q x) \<Longrightarrow> (\<not> b \<Longrightarrow> Q y) \<Longrightarrow> Q (if b then x else y)" for b x y by simp
  have Q: "t \<in> set basic_commands \<Longrightarrow> Q (parse_basic t p)" "Q (parse_type pr p)"
    "t = ''Sleep'' \<or> t = ''Wait'' \<Longrightarrow> Q (parse_pause t p)" "Q (parse_key_combo p)"
    "t \<in> set one_argument \<Longrightarrow> Q (parse_argument t ks m b p)"
    "Q (parse_argument ''FocusWindow'' [token_identifier, token_number] m b p)" "Q (parse_rename pr p)"
    "Q (parse_wait_until pr p)" "Q (parse_set p)" "Q (give_up m p)" for t ks m b
    unfolding Q_def using basic_typed [OF assms(1)] ty pau key foc ren wai set arg by (blast | simp)+
  have "Q (dispatch pr p)"
    unfolding dispatch_cases Let_def by (intro choose) (simp_all add: Q one_argument_def)
  with assms(2) show ?thesis by (simp add: Q_def)
qed

lemma toks_ok_dispatch: "toks_ok p \<Longrightarrow> toks_ok (snd (dispatch pr p))"
proof -
  assume p: "toks_ok p"
  have "toks_ok (snd (parse_basic t p))" "toks_ok (snd (parse_type pr p))" "toks_ok (snd (parse_pause t p))"
    "toks_ok (snd (parse_key_combo p))" "toks_ok (snd (parse_argument t ks m b p))" "toks_ok (snd (parse_rename pr p))"
    "toks_ok (snd (parse_wait_until pr p))" "toks_ok (snd (parse_set p))" "toks_ok (snd (give_up m p))" for t ks m b
    unfolding parse_basic_def parse_type_def parse_pause_def parse_key_combo_def parse_argument_def parse_rename_def
      parse_wait_until_def parse_set_def
    using p by (auto simp: Let_def split_def)
  then show ?thesis by (simp add: dispatch_cases Let_def)
qed

lemma parse_loop_typed: "toks_ok p \<Longrightarrow> c \<in> set (fst (parse_loop pr p)) \<Longrightarrow> well_typed c"
proof (induction pr p rule: parse_loop.induct)
  case (1 pr p)
  show ?case
  proof (cases "cur_type p = token_eof \<or> cur_type p = token_newline")
    case True
    then show ?thesis
      using 1 by (subst (asm) (4) parse_loop.simps) (auto split: if_splits)
  next
    case False
    obtain co p' where d: "dispatch pr p = (co, p')" by fastforce
    then have pc: "parse_command pr p = (co, p')" using False by (simp add: parse_command_def skip_newlines_id)
    have ok: "toks_ok p'" using toks_ok_dispatch [OF "1.prems"(1), of pr] d by simp
    show ?thesis
    proof (cases co)
      case None
      have "fst (parse_loop pr p) = fst (parse_loop pr (advance p'))"
        using False pc None by (subst parse_loop.simps) simp
      then show ?thesis using "1.IH"(2) False pc None ok "1.prems"(2) by auto
    next
      case (Some k)
      have "fst (parse_loop pr p) = k # fst (parse_loop pr p')"
        using False pc Some by (subst parse_loop.simps) (simp add: split_def Let_def)
      then show ?thesis
        using "1.IH"(3) False pc Some ok "1.prems"(2) dispatch_typed [OF "1.prems"(1), of pr] d by auto
    qed
  qed
qed

lemma parse_file_typed: "c \<in> set (fst (parse_file pr s)) \<Longrightarrow> well_typed c"
  using parse_loop_typed [OF toks_ok_new_parser] by (simp add: parse_file_def split_def Let_def)

end
