(* ===== verification/TapeExecutor.thy ===== *)
theory TapeExecutor
  imports TapeTyping
begin

text \<open>
  Executing one command of a tape (\<^verbatim>\<open>internal/tape/executor.go\<close>) and playing a list of them
  (\<^verbatim>\<open>player.go\<close>). The application behind the \<^verbatim>\<open>Executor\<close> interface is a parameter: \<open>run\<close> performs a
  call, given by the method's name and arguments, on the application's state and may fail, and
  \<open>focused\<close> is \<^verbatim>\<open>GetFocusedWindowID\<close>. Case folding and trimming are those of ASCII text.
\<close>

datatype exec_arg = Str string | Num int

datatype exec_call = Call string "exec_arg list"

datatype 'e exec_error = Missing_Arg string string | Not_A_Workspace string string | Unknown_Split string | Failed 'e

record ('s, 'e) executor =
  run :: "exec_call \<Rightarrow> 's \<Rightarrow> 's \<times> 'e option"
  focused :: "'s \<Rightarrow> string"

subsection \<open>Arguments\<close>

fun read_digits :: "int \<Rightarrow> string \<Rightarrow> int \<times> string" where
  "read_digits acc [] = (acc, [])"
| "read_digits acc (c # cs) = (if is_digit c then read_digits (acc * 10 + int (digit_of c)) cs else (acc, c # cs))"

definition in_int64 :: "int \<Rightarrow> bool" where "in_int64 n \<longleftrightarrow> - (2 ^ 63) \<le> n \<and> n < 2 ^ 63"

text \<open>A signed decimal number at the front of a text, and what follows it.\<close>

definition leading_number :: "string \<Rightarrow> (int \<times> string) option" where
  "leading_number s =
     (let neg = (s \<noteq> [] \<and> hd s = CHR ''-''); t = (if s \<noteq> [] \<and> (hd s = CHR ''-'' \<or> hd s = CHR ''+'') then tl s else s);
          (n, r) = read_digits 0 t; v = (if neg then - n else n)
      in if length r = length t \<or> \<not> in_int64 v then None else Some (v, r))"

text \<open>\<^verbatim>\<open>strconv.Atoi\<close>, and \<^verbatim>\<open>fmt.Sscanf\<close> with \<^verbatim>\<open>"%d"\<close>, which skips blanks and ignores what follows.\<close>

definition go_atoi :: "string \<Rightarrow> int option" where
  "go_atoi s = (case leading_number s of Some (v, []) \<Rightarrow> Some v | _ \<Rightarrow> None)"

definition is_space :: "char \<Rightarrow> bool" where
  "is_space c \<longleftrightarrow> c = CHR '' '' \<or> (9 \<le> code c \<and> code c \<le> 13)"

definition scan_number :: "string \<Rightarrow> int option" where
  "scan_number s = map_option fst (leading_number (dropWhile (\<lambda>c. is_space c \<and> c \<noteq> newline) s))"

definition trim_space :: "string \<Rightarrow> string" where
  "trim_space s = rev (dropWhile is_space (rev (dropWhile is_space s)))"

definition workspace_arg :: "string \<Rightarrow> command \<Rightarrow> 'e exec_error + int" where
  "workspace_arg name c =
     (case cm_args c of [] \<Rightarrow> Inl (Missing_Arg name ''a workspace number'')
      | s # ss \<Rightarrow> (case go_atoi (trim_space s) of None \<Rightarrow> Inl (Not_A_Workspace name s) | Some n \<Rightarrow> Inr n))"

definition repeat_count :: "command \<Rightarrow> nat" where
  "repeat_count c =
     (case cm_args c of [] \<Rightarrow> 1
      | s # ss \<Rightarrow> (case go_atoi s of None \<Rightarrow> 1 | Some n \<Rightarrow> if n < 1 then 1 else nat n))"

subsection \<open>Key combinations\<close>

fun split_on :: "char \<Rightarrow> string \<Rightarrow> string list" where
  "split_on sep [] = [[]]"
| "split_on sep (c # cs) =
     (case split_on sep cs of [] \<Rightarrow> [[c]] | p # ps \<Rightarrow> if c = sep then [] # p # ps else (c # p) # ps)"

text \<open>\<^verbatim>\<open>byte(unicode.ToUpper(rune(b)))\<close>, which is not always the byte of the upper-case letter.\<close>

definition upper_byte :: "char \<Rightarrow> char" where
  "upper_byte c =
     (let n = code c
      in if (97 \<le> n \<and> n \<le> 122) \<or> (224 \<le> n \<and> n \<le> 254 \<and> n \<noteq> 247) then char_of (n - 32)
         else if n = 181 then CHR 0x9C else if n = 255 then CHR ''x'' else c)"

record key_parts =
  kp_ctrl :: bool
  kp_alt :: bool
  kp_shift :: bool
  kp_key :: string

definition take_part :: "string \<Rightarrow> key_parts \<Rightarrow> key_parts" where
  "take_part raw k =
     (let part = trim_space raw; l = to_lower part
      in if l = ''ctrl'' then k\<lparr>kp_ctrl := True\<rparr>
         else if l = ''alt'' \<or> l = ''opt'' then k\<lparr>kp_alt := True\<rparr>
         else if l = ''shift'' then k\<lparr>kp_shift := True\<rparr>
         else k\<lparr>kp_key := part\<rparr>)"

definition ESC :: char where "ESC = CHR 0x1B"

definition special_keys :: "(string \<times> string) list" where
  "special_keys = [(''space'', '' ''), (''enter'', [newline]), (''return'', [newline]), (''tab'', [CHR 0x09]),
     (''escape'', [ESC]), (''esc'', [ESC]), (''backspace'', [CHR 0x08]), (''delete'', [CHR 0x7F])]"

definition single_key :: "key_parts \<Rightarrow> char \<Rightarrow> string" where
  "single_key k c =
     (if kp_ctrl k
      then if is_letter c then [char_of (code (upper_byte c) mod 32)]
           else if is_digit c then [char_of (code c mod 32)] else []
      else if kp_alt k then [ESC, c]
      else if kp_shift k then [upper_byte c]
      else [c])"

definition named_key :: "key_parts \<Rightarrow> string" where
  "named_key k =
     (let l = to_lower (kp_key k)
      in if l = ''tab'' \<and> kp_shift k \<and> \<not> kp_ctrl k \<and> \<not> kp_alt k then ESC # ''[Z''
         else case map_of special_keys l of
           Some b \<Rightarrow> (if kp_alt k then [ESC] else []) @ b
         | None \<Rightarrow> kp_key k)"

definition convert_key_combo :: "string \<Rightarrow> string" where
  "convert_key_combo s =
     (let parts = split_on (CHR ''+'') s;
          k = fold take_part parts \<lparr>kp_ctrl = False, kp_alt = False, kp_shift = False, kp_key = []\<rparr>
      in if length parts < 2 \<or> kp_key k = [] then s
         else if length (kp_key k) = 1 then single_key k (hd (kp_key k)) else named_key k)"

subsection \<open>Execution\<close>

definition call :: "('s, 'e) executor \<Rightarrow> string \<Rightarrow> exec_arg list \<Rightarrow> 's \<Rightarrow> 's \<times> 'e exec_error option" where
  "call ex m xs s = (let (s', e) = run ex (Call m xs) s in (s', map_option Failed e))"

text \<open>The bytes of the basic keys; the first argument says whether the system is Windows.\<close>

definition key_bytes :: "bool \<Rightarrow> (string \<times> string) list" where
  "key_bytes win =
     [(''Enter'', if win then [CHR 0x0D, newline] else [newline]), (''Space'', '' ''), (''Backspace'', [CHR 0x08]),
      (''Tab'', [CHR 0x09]), (''Escape'', [ESC]), (''Delete'', ESC # ''[3~''), (''Up'', ESC # ''[A''), (''Down'', ESC # ''[B''),
      (''Right'', ESC # ''[C''), (''Left'', ESC # ''[D''), (''Home'', ESC # ''[H''), (''End'', ESC # ''[F'')]"

fun send_repeated :: "('s, 'e) executor \<Rightarrow> string \<Rightarrow> string \<Rightarrow> nat \<Rightarrow> 's \<Rightarrow> 's \<times> 'e exec_error option" where
  "send_repeated ex w bytes 0 s = (s, None)"
| "send_repeated ex w bytes (Suc n) s =
     (case call ex ''SendToWindow'' [Str w, Str bytes] s of
        (s', Some e) \<Rightarrow> (s', Some e) | (s', None) \<Rightarrow> send_repeated ex w bytes n s')"

text \<open>The commands that only call one method without using their arguments.\<close>

definition plain_calls :: "(string \<times> string \<times> exec_arg list) list" where
  "plain_calls =
     [(''TerminalMode'', ''SetMode'', [Str ''terminal'']), (''WindowManagementMode'', ''SetMode'', [Str ''window'']),
      (''NextWindow'', ''NextWindow'', []), (''PrevWindow'', ''PrevWindow'', []), (''ToggleTiling'', ''ToggleTiling'', []),
      (''EnableTiling'', ''EnableTiling'', []), (''DisableTiling'', ''DisableTiling'', []),
      (''SnapLeft'', ''SnapByDirection'', [Str ''left'']), (''SnapRight'', ''SnapByDirection'', [Str ''right'']),
      (''SnapFullscreen'', ''SnapByDirection'', [Str ''fullscreen'']), (''RotateSplit'', ''RotateSplit'', []),
      (''EqualizeSplits'', ''EqualizeSplitsExec'', []), (''EnableAnimations'', ''EnableAnimations'', []),
      (''DisableAnimations'', ''DisableAnimations'', []), (''ToggleAnimations'', ''ToggleAnimations'', []),
      (''ToggleZoom'', ''ToggleZoomExec'', []), (''SmartSplit'', ''SmartSplitFocusedExec'', []),
      (''CommandPalette'', ''ShowCommandPaletteExec'', [])]"

definition arg :: "nat \<Rightarrow> command \<Rightarrow> string" where
  "arg i c = (if i < length (cm_args c) then cm_args c ! i else [])"

text \<open>A command that needs its first argument.\<close>

definition needs_arg :: "string \<Rightarrow> string \<Rightarrow> command \<Rightarrow> (string \<Rightarrow> 's \<Rightarrow> 's \<times> 'e exec_error option) \<Rightarrow> 's \<Rightarrow> 's \<times> 'e exec_error option" where
  "needs_arg name what c f s = (case cm_args c of [] \<Rightarrow> (s, Some (Missing_Arg name what)) | x # xs \<Rightarrow> f x s)"

definition with_workspace ::
    "string \<Rightarrow> command \<Rightarrow> (int \<Rightarrow> 's \<Rightarrow> 's \<times> 'e exec_error option) \<Rightarrow> 's \<Rightarrow> 's \<times> 'e exec_error option" where
  "with_workspace name c f s = (case workspace_arg name c of Inl e \<Rightarrow> (s, Some e) | Inr ws \<Rightarrow> f ws s)"

text \<open>On a named window when there is a name, else on the focused one.\<close>

definition by_name_or_focused :: "('s, 'e) executor \<Rightarrow> string \<Rightarrow> string \<Rightarrow> command \<Rightarrow> 's \<Rightarrow> 's \<times> 'e exec_error option" where
  "by_name_or_focused ex named focused_one c s =
     (if arg 0 c \<noteq> [] then call ex named [Str (arg 0 c)] s else call ex focused_one [Str (focused ex s)] s)"

definition exec_combo :: "('s, 'e) executor \<Rightarrow> string \<Rightarrow> 's \<Rightarrow> 's \<times> 'e exec_error option" where
  "exec_combo ex combo s =
     (let l = to_lower combo; ws = scan_number (drop 4 combo);
          send = call ex ''SendToWindow'' [Str (focused ex s), Str (convert_key_combo combo)] s
      in if length l \<ge> 5 \<and> (take 4 l = ''alt+'' \<or> take 4 l = ''opt+'')
         then (case ws of Some n \<Rightarrow> if 1 \<le> n \<and> n \<le> 9 then call ex ''SwitchWorkspace'' [Num n] s else send | None \<Rightarrow> send)
         else send)"

definition exec_split :: "('s, 'e) executor \<Rightarrow> string \<Rightarrow> 's \<Rightarrow> 's \<times> 'e exec_error option" where
  "exec_split ex d s =
     (let l = to_lower d
      in if l = ''horizontal'' \<or> l = ''h'' then call ex ''SplitHorizontal'' [] s
         else if l = ''vertical'' \<or> l = ''v'' then call ex ''SplitVertical'' [] s
         else (s, Some (Unknown_Split d)))"

definition exec_focus :: "('s, 'e) executor \<Rightarrow> command \<Rightarrow> 's \<Rightarrow> 's \<times> 'e exec_error option" where
  "exec_focus ex c s =
     (if arg 0 c = [] then (s, Some (Missing_Arg ''Focus'' ''a window name or id''))
      else case call ex ''FocusWindowByName'' [Str (arg 0 c)] s of
        (s', None) \<Rightarrow> (s', None) | (s', Some e) \<Rightarrow> call ex ''FocusWindowByID'' [Str (arg 0 c)] s')"

definition exec_rename :: "('s, 'e) executor \<Rightarrow> command \<Rightarrow> 's \<Rightarrow> 's \<times> 'e exec_error option" where
  "exec_rename ex c s =
     (case cm_args c of
        [] \<Rightarrow> (s, Some (Missing_Arg ''RenameWindow'' ''a new name''))
      | [x] \<Rightarrow> call ex ''RenameWindowByID'' [Str (focused ex s), Str x] s
      | x # y # xs \<Rightarrow> call ex ''RenameWindowByName'' [Str x, Str y] s)"

text \<open>The commands that come from other clients only: no keyword of the language starts them.\<close>

definition exec_remote :: "('s, 'e) executor \<Rightarrow> command \<Rightarrow> 's \<Rightarrow> 's \<times> 'e exec_error option" where
  "exec_remote ex c s =
     (let t = cm_type c
      in if t = ''Preselect'' then needs_arg t ''left, right, up or down'' c (\<lambda>x. call ex t [Str (to_lower x)]) s
         else if t = ''SetWorkspaceName'' then with_workspace t c (\<lambda>ws. call ex t [Num ws, Str (arg 1 c)]) s
         else if t = ''SetSessionName'' \<or> t = ''SetSessionAccent'' then call ex t [Str (arg 0 c)] s
         else if t = ''SetAgentState''
         then if arg 0 c = [] then (s, Some (Missing_Arg t ''a state name (none, working, needs_input, idle, done, errored)''))
              else call ex t [Str (arg 0 c), Str (arg 1 c), Str (arg 2 c), Str (arg 3 c)] s
         else if t = ''SetConfig''
         then if length (cm_args c) < 2 then (s, Some (Missing_Arg ''Set'' ''a config path and a value''))
              else call ex t [Str (arg 0 c), Str (arg 1 c)] s
         else if t = ''SetTheme'' then needs_arg t ''a theme name'' c (\<lambda>x. call ex t [Str x]) s
         else if t = ''SetDockbarPosition'' then needs_arg t ''top or bottom'' c (\<lambda>x. call ex t [Str x]) s
         else if t = ''SetBorderStyle'' then needs_arg t ''a border style name'' c (\<lambda>x. call ex t [Str x]) s
         else if t = ''ShowNotification''
         then needs_arg ''Notify'' ''a message'' c
           (\<lambda>x. call ex ''ShowNotificationCmd'' [Str x, Str (if length (cm_args c) > 1 then arg 1 c else ''info'')]) s
         else if t = ''FocusDirection'' then needs_arg t ''left, right, up or down'' c (\<lambda>x. call ex t [Str (to_lower x)]) s
         else (s, None))"

definition execute :: "bool \<Rightarrow> ('s, 'e) executor \<Rightarrow> command \<Rightarrow> 's \<Rightarrow> 's \<times> 'e exec_error option" where
  "execute win ex c s =
     (let t = cm_type c
      in case map_of (key_bytes win) t of
        Some b \<Rightarrow> send_repeated ex (focused ex s) b (repeat_count c) s
      | None \<Rightarrow>
        (case map_of plain_calls t of
           Some (m, xs) \<Rightarrow> call ex m xs s
         | None \<Rightarrow>
           if t = ''Type'' then needs_arg t ''the text to type'' c (\<lambda>x s. call ex ''SendToWindow'' [Str (focused ex s), Str x] s) s
           else if t = ''NewWindow''
           then if arg 0 c \<noteq> [] then call ex ''CreateNewWindowWithName'' [Str (arg 0 c)] s else call ex ''CreateNewWindow'' [] s
           else if t = ''CloseWindow'' then by_name_or_focused ex ''CloseWindowByName'' ''CloseWindow'' c s
           else if t = ''FocusWindow'' then exec_focus ex c s
           else if t = ''RenameWindow'' then exec_rename ex c s
           else if t = ''MinimizeWindow'' then by_name_or_focused ex ''MinimizeWindowByName'' ''MinimizeWindowByID'' c s
           else if t = ''RestoreWindow'' then by_name_or_focused ex ''RestoreWindowByName'' ''RestoreWindowByID'' c s
           else if t = ''Split'' then needs_arg t ''horizontal or vertical'' c (exec_split ex) s
           else if t = ''SwitchWorkspace'' then with_workspace ''Switch'' c (\<lambda>ws. call ex ''SwitchWorkspace'' [Num ws]) s
           else if t = ''MoveToWorkspace''
           then with_workspace t c (\<lambda>ws s. call ex ''MoveWindowToWorkspaceByID'' [Str (focused ex s), Num ws] s) s
           else if t = ''MoveAndFollowWorkspace''
           then with_workspace ''MoveAndFollow'' c (\<lambda>ws s. call ex ''MoveAndFollowWorkspaceByID'' [Str (focused ex s), Num ws] s) s
           else if t = ''KeyCombo'' then needs_arg ''key combo'' ''a combination such as ctrl+b'' c (exec_combo ex) s
           else if t = ''SaveLayout'' then needs_arg t ''a layout name'' c (\<lambda>x. call ex ''SaveLayoutExec'' [Str x]) s
           else if t = ''LoadLayout'' then needs_arg t ''a layout name'' c (\<lambda>x. call ex ''LoadLayoutExec'' [Str x]) s
           else exec_remote ex c s))"


subsection \<open>Commands of a tape file\<close>

definition complains :: "'s \<times> 'e exec_error option \<Rightarrow> bool" where
  "complains x \<longleftrightarrow> (\<exists>a b. snd x = Some (Missing_Arg a b))"

lemma call_complains [simp]: "\<not> complains (call ex m xs s)"
  by (auto simp: complains_def call_def split_def Let_def)

lemma done_complains [simp]: "\<not> complains (s, None)" "\<not> complains (s, Some (Unknown_Split d))" "\<not> complains (s, Some (Not_A_Workspace a b))"
  by (simp_all add: complains_def)

lemma send_complains [simp]: "\<not> complains (send_repeated ex w b n s)"
proof (induction n arbitrary: s)
  case (Suc n)
  obtain s' e where c: "call ex ''SendToWindow'' [Str w, Str b] s = (s', e)" by fastforce
  have "\<not> complains (s', e)" using call_complains [of ex "''SendToWindow''" "[Str w, Str b]" s] c by simp
  with Suc show ?case by (cases e) (auto simp: c complains_def)
qed simp

lemma needs_complains: "cm_args c \<noteq> [] \<Longrightarrow> (\<And>x. \<not> complains (f x s)) \<Longrightarrow> \<not> complains (needs_arg n w c f s)"
  by (auto simp: needs_arg_def split: list.splits)

lemma workspace_complains: "cm_args c \<noteq> [] \<Longrightarrow> (\<And>x. \<not> complains (f x s)) \<Longrightarrow> \<not> complains (with_workspace n c f s)"
  by (auto simp: with_workspace_def workspace_arg_def split: list.splits option.splits)

lemma focus_complains: "arg 0 c \<noteq> [] \<Longrightarrow> \<not> complains (exec_focus ex c s)"
proof -
  assume a: "arg 0 c \<noteq> []"
  obtain s' e where c: "call ex ''FocusWindowByName'' [Str (arg 0 c)] s = (s', e)" by fastforce
  show ?thesis using a by (cases e) (simp_all add: exec_focus_def c)
qed

lemma other_complains [simp]:
  "\<not> complains (exec_combo ex x s)" "\<not> complains (exec_split ex x s)" "\<not> complains (by_name_or_focused ex a b c s)"
  "cm_args c \<noteq> [] \<Longrightarrow> \<not> complains (exec_rename ex c s)"
  by (auto simp: exec_combo_def exec_split_def by_name_or_focused_def exec_rename_def Let_def split: option.splits list.splits)

definition tape_types :: "string list" where
  "tape_types = basic_commands @ one_argument @ [''FocusWindow'', ''WaitUntilRegex'', ''Set'']"

lemma well_typed_types: "well_typed c \<Longrightarrow> cm_type c \<in> set tape_types"
  by (auto simp: well_typed_def tape_types_def)

lemma remote_types: "cm_type c \<in> set tape_types \<Longrightarrow> exec_remote ex c s = (s, None)"
proof -
  assume a: "cm_type c \<in> set tape_types"
  have "t \<notin> set tape_types" if "t \<in> {''Preselect'', ''SetWorkspaceName'', ''SetSessionName'', ''SetSessionAccent'',
      ''SetAgentState'', ''SetConfig'', ''SetTheme'', ''SetDockbarPosition'', ''SetBorderStyle'', ''ShowNotification'',
      ''FocusDirection''}" for t
    using that by (auto simp: tape_types_def basic_commands_def one_argument_def)
  with a have "cm_type c \<notin> {''Preselect'', ''SetWorkspaceName'', ''SetSessionName'', ''SetSessionAccent'',
      ''SetAgentState'', ''SetConfig'', ''SetTheme'', ''SetDockbarPosition'', ''SetBorderStyle'', ''ShowNotification'',
      ''FocusDirection''}" by blast
  then show ?thesis by (simp add: exec_remote_def)
qed

lemma well_typed_args:
  assumes "well_typed c" "cm_type c \<notin> set basic_commands"
  shows "cm_args c \<noteq> [] \<and> (cm_type c = ''FocusWindow'' \<longrightarrow> arg 0 c \<noteq> [])"
proof -
  have "''FocusWindow'' \<notin> set one_argument" by (simp add: one_argument_def)
  with assms show ?thesis by (auto simp: well_typed_def arg_def)
qed

lemma execute_complains:
  assumes "well_typed c" "cm_type c \<noteq> ''Split''"
  shows "\<not> complains (execute win ex c s)"
proof -
  have nb: "cm_args c \<noteq> []" "cm_type c = ''FocusWindow'' \<Longrightarrow> arg 0 c \<noteq> []" if "cm_type c = t" "t \<notin> set basic_commands" for t
    using well_typed_args [OF assms(1)] that by auto
  have b: "''Type'' \<notin> set basic_commands" "''FocusWindow'' \<notin> set basic_commands" "''RenameWindow'' \<notin> set basic_commands"
    "''SwitchWorkspace'' \<notin> set basic_commands" "''MoveToWorkspace'' \<notin> set basic_commands"
    "''MoveAndFollowWorkspace'' \<notin> set basic_commands" "''KeyCombo'' \<notin> set basic_commands"
    "''SaveLayout'' \<notin> set basic_commands" "''LoadLayout'' \<notin> set basic_commands"
    by (simp_all add: basic_commands_def)
  have choose: "(k \<Longrightarrow> \<not> complains x) \<Longrightarrow> (\<not> k \<Longrightarrow> \<not> complains y) \<Longrightarrow> \<not> complains (if k then x else y)"
    for k and x y :: "'a \<times> 'b exec_error option" by simp
  show ?thesis
  proof (cases "map_of (key_bytes win) (cm_type c)")
    case (Some x)
    then show ?thesis by (simp add: execute_def)
  next
    case k: None
    show ?thesis
    proof (cases "map_of plain_calls (cm_type c)")
      case (Some x)
      then show ?thesis by (cases x) (simp add: execute_def k)
    next
      case None
      show ?thesis
        unfolding execute_def Let_def k None option.case
        by (intro choose)
          (use assms(2) nb b in \<open>simp_all add: needs_complains workspace_complains focus_complains
             remote_types [OF well_typed_types [OF assms(1)]]\<close>)
    qed
  qed
qed

text \<open>
  C39. What the parser accepts the executor can run: no command of a tape file fails for want of an
  argument, with one exception, \<^verbatim>\<open>Split\<close>, whose direction the parser drops, so it always fails and
  does nothing. \<^verbatim>\<open>Focus\<close>, \<^verbatim>\<open>Set\<close>, \<^verbatim>\<open>Output\<close> and \<^verbatim>\<open>Source\<close> are accepted and do nothing, like the pauses,
  which the playback loop takes care of.
\<close>

theorem tape_commands_executable:
  fixes ex :: "('s, 'e) executor"
  assumes "c \<in> set (fst (parse_file pr src))"
  shows "(cm_type c \<noteq> ''Split'' \<longrightarrow> (\<forall>name what. snd (execute win ex c s) \<noteq> Some (Missing_Arg name what))) \<and>
    (cm_type c = ''Split'' \<longrightarrow> fst (execute win ex c s) = s \<and> snd (execute win ex c s) \<noteq> None) \<and>
    (cm_type c \<in> {''Focus'', ''Set'', ''Output'', ''Source'', ''Sleep'', ''Wait'', ''WaitUntilRegex''} \<longrightarrow>
       execute win ex c s = (s, None))"
proof -
  have w: "well_typed c" by (rule parse_file_typed [OF assms])
  have a: "cm_type c \<noteq> ''Split'' \<Longrightarrow> \<forall>name what. snd (execute win ex c s) \<noteq> Some (Missing_Arg name what)"
    using execute_complains [OF w, of win ex s] by (auto simp: complains_def)
  have b: "fst (execute win ex c s) = s \<and> snd (execute win ex c s) \<noteq> None" if t: "cm_type c = ''Split''"
  proof -
    have "execute win ex c s = needs_arg ''Split'' ''horizontal or vertical'' c (exec_split ex) s"
      by (simp add: execute_def t key_bytes_def plain_calls_def)
    moreover have "''Split'' \<notin> set one_argument" by (simp add: one_argument_def)
    then consider "cm_args c = []" | d where "cm_args c = [d]" "d \<noteq> []" "is_digit (hd d)"
      using w t by (auto simp: well_typed_def)
    then have "fst (needs_arg ''Split'' ''horizontal or vertical'' c (exec_split ex) s) = s \<and>
      snd (needs_arg ''Split'' ''horizontal or vertical'' c (exec_split ex) s) \<noteq> None"
    proof cases
      case 2
      then obtain x xs where d: "d = x # xs" "is_digit x" by (cases d) auto
      then have "lower_char x \<noteq> CHR ''h''" "lower_char x \<noteq> CHR ''v''" by (auto simp: lower_char_def is_digit_def code_def)
      with 2(1) d show ?thesis by (simp add: needs_arg_def exec_split_def to_lower_def Let_def)
    qed (simp add: needs_arg_def)
    ultimately show ?thesis by simp
  qed
  have "execute win ex c s = (s, None)" if t: "cm_type c \<in> {''Focus'', ''Set'', ''Output'', ''Source'', ''Sleep'', ''Wait'', ''WaitUntilRegex''}"
  proof -
    have "map_of (key_bytes win) (cm_type c) = None" "map_of plain_calls (cm_type c) = None"
      using t by (auto simp: key_bytes_def plain_calls_def)
    moreover have "cm_type c \<in> set tape_types" by (rule well_typed_types [OF w])
    ultimately show ?thesis using t by (auto simp: execute_def remote_types)
  qed
  with a b show ?thesis by blast
qed


definition sample_executor :: "(exec_call list, unit) executor" where
  "sample_executor = \<lparr>run = (\<lambda>c s. (s @ [c], None)), focused = (\<lambda>s. ''w1'')\<rparr>"

theorem tape_commands_executable_witness:
  "\<exists>c \<in> set (fst (parse_file (\<lambda>_. True) ''Split h'')).
     execute False sample_executor c [] = ([], Some (Missing_Arg ''Split'' ''horizontal or vertical''))"
proof -
  let ?c = "\<lparr>cm_type = ''Split'', cm_args = [], cm_delay = 0, cm_line = 1, cm_col = 1, cm_raw = ''Split''\<rparr>"
  have m: "?c \<in> set (fst (parse_file (\<lambda>_. True) ''Split h''))" by code_simp
  have "snd (execute False sample_executor ?c []) \<noteq> None" "fst (execute False sample_executor ?c []) = []"
    using tape_commands_executable [OF m, where ex = sample_executor and s = "[]" and win = False] by simp_all
  then show ?thesis
    using m by (intro bexI [of _ ?c]) (simp_all add: execute_def key_bytes_def plain_calls_def needs_arg_def)
qed

end
