(* ===== verification/TapeLines.thy ===== *)
theory TapeLines
  imports TapeTokens TapeParser
begin

text \<open>
  Reading a tape line by line: which tokens the lexer finds in a line of text, and what the parser
  makes of them, as facts that compose into whole files.
\<close>

subsection \<open>One token\<close>

text \<open>The text \<open>u\<close>, with \<open>r\<close> after it, is read as one token of that type and literal.\<close>

definition scans :: "string \<Rightarrow> string \<Rightarrow> string \<times> string \<Rightarrow> bool" where
  "scans u r s \<longleftrightarrow> (\<forall>l. lx_ok l \<longrightarrow> rest l = u @ r \<longrightarrow>
     (\<exists>t l'. next_token l = (t, l') \<and> (tk_type t, tk_lit t) = s \<and> lx_ok l' \<and> rest l' = r))"

definition sig_of :: "token \<Rightarrow> string \<times> string" where "sig_of t = (tk_type t, tk_lit t)"

lemma nul_not_blank [simp]: "\<not> is_blank NUL"
  by (simp add: is_blank_def)

lemma skip_whitespace_rest:
  assumes "lx_ok l"
  shows "lx_ok (skip_whitespace l) \<and> rest (skip_whitespace l) = dropWhile is_blank (rest l)"
proof -
  have "(\<lambda>c. c \<noteq> NUL \<and> is_blank c) = is_blank" by (auto simp: fun_eq_iff)
  then show ?thesis
    using read_run_rest [OF assms, of is_blank "fst (read_run is_blank l)" "snd (read_run is_blank l)"]
    by (simp add: skip_whitespace_def)
qed

text \<open>A token at a byte that is neither blank nor the start of a comment.\<close>

lemma scansI:
  assumes "u \<noteq> []" "\<not> is_blank (hd u)" "hd u \<noteq> CHR ''#''"
    and "\<And>l0 l. lx_ok l \<Longrightarrow> rest l = u @ r \<Longrightarrow>
      \<exists>t l'. plain_token l0 l = (t, l') \<and> (tk_type t, tk_lit t) = s \<and> lx_ok l' \<and> rest l' = r"
  shows "scans u r s"
  unfolding scans_def
proof (intro allI impI)
  fix l
  assume l: "lx_ok l" "rest l = u @ r"
  obtain c cs where c: "u = c # cs" using assms(1) by (cases u) auto
  have w: "lx_ok (skip_whitespace l)" "rest (skip_whitespace l) = u @ r"
    using skip_whitespace_rest [OF l(1)] l(2) assms(2) c by auto
  then have "lx_ch (skip_whitespace l) = c" using c by (simp add: lx_ok_def)
  then have "next_token l = plain_token l (skip_whitespace l)"
    using assms(3) c by (subst next_token.simps) simp
  with assms(4) [OF w, of l]
  show "\<exists>t l'. next_token l = (t, l') \<and> (tk_type t, tk_lit t) = s \<and> lx_ok l' \<and> rest l' = r" by simp
qed

lemma next_token_whitespace:
  assumes "lx_ok l" "rest l = b # s" "is_blank b"
  shows "\<exists>l1. lx_ok l1 \<and> rest l1 = s \<and> sig_of (fst (next_token l)) = sig_of (fst (next_token l1)) \<and>
    snd (next_token l) = snd (next_token l1)"
proof -
  have "b \<noteq> NUL" using assms(3) by auto
  then have r: "read_run is_blank l = (b # fst (read_run is_blank (read_char l)), snd (read_run is_blank (read_char l)))"
    using assms by (subst read_run.simps) (simp add: lx_ok_def split_def Let_def)
  then have w: "skip_whitespace l = skip_whitespace (read_char l)" by (simp add: skip_whitespace_def)
  have p: "sig_of (fst (plain_token a x)) = sig_of (fst (plain_token c x)) \<and> snd (plain_token a x) = snd (plain_token c x)" for a c x
    by (simp add: plain_token_def number_token_def Let_def split_def mk_token_def sig_of_def)
  have "sig_of (fst (next_token l)) = sig_of (fst (next_token (read_char l))) \<and>
      snd (next_token l) = snd (next_token (read_char l))"
    using p [of l "skip_whitespace l" "read_char l"]
    by (subst (1 3) next_token.simps, subst (2 4) next_token.simps) (simp add: w Let_def)
  moreover have "lx_ok (read_char l)" "rest (read_char l) = s" using rest_read_char assms by auto
  ultimately show ?thesis by blast
qed

lemma scans_blank:
  assumes "scans u r s" "is_blank b"
  shows "scans (b # u) r s"
  unfolding scans_def
proof (intro allI impI)
  fix l
  assume l: "lx_ok l" "rest l = (b # u) @ r"
  then obtain l1 where l1: "lx_ok l1" "rest l1 = u @ r" "sig_of (fst (next_token l)) = sig_of (fst (next_token l1))"
      "snd (next_token l) = snd (next_token l1)"
    using next_token_whitespace [of l b "u @ r"] assms(2) by auto
  with assms(1) obtain t l' where "next_token l1 = (t, l')" "(tk_type t, tk_lit t) = s" "lx_ok l'" "rest l' = r"
    unfolding scans_def by blast
  with l1(3,4) show "\<exists>t l'. next_token l = (t, l') \<and> (tk_type t, tk_lit t) = s \<and> lx_ok l' \<and> rest l' = r"
    by (intro exI [of _ "fst (next_token l)"] exI [of _ l']) (auto simp: sig_of_def prod_eq_iff)
qed

lemma scans_newline: "scans [newline] r (token_newline, [newline])"
proof (rule scansI)
  fix l0 l
  assume "lx_ok l" "rest l = [newline] @ r"
  then have "lx_ch l = newline" "lx_ok (read_char l)" "rest (read_char l) = r"
    using rest_read_char by (auto simp: lx_ok_def)
  then show "\<exists>t l'. plain_token l0 l = (t, l') \<and> (tk_type t, tk_lit t) = (token_newline, [newline]) \<and> lx_ok l' \<and> rest l' = r"
    by (simp add: plain_token_def mk_token_def)
qed (simp_all add: is_blank_def)

lemma scans_plus: "scans ''+'' r (token_plus, ''+'')"
proof (rule scansI)
  fix l0 l
  assume "lx_ok l" "rest l = ''+'' @ r"
  then have "lx_ch l = CHR ''+''" "lx_ok (read_char l)" "rest (read_char l) = r"
    using rest_read_char by (auto simp: lx_ok_def)
  then show "\<exists>t l'. plain_token l0 l = (t, l') \<and> (tk_type t, tk_lit t) = (token_plus, ''+'') \<and> lx_ok l' \<and> rest l' = r"
    by (simp add: plain_token_def mk_token_def)
qed (simp_all add: is_blank_def)

text \<open>Words.\<close>

lemma ident_facts:
  assumes "is_ident c"
  shows "c \<noteq> NUL" "c \<noteq> newline" "\<not> is_blank c" "c \<noteq> CHR ''#''" "c \<noteq> CHR ''+''" "c \<noteq> CHR ''@''" "c \<noteq> CHR '',''"
    "c \<noteq> CHR ''/''" "c \<noteq> CHR ''(''" "c \<noteq> CHR '')''" "c \<noteq> dquote" "c \<noteq> squote" "c \<noteq> backtick"
  using assms by (auto simp: is_ident_def is_letter_def is_digit_def code_def is_blank_def)

definition word_end :: "string \<Rightarrow> bool" where "word_end r \<longleftrightarrow> \<not> is_ident (head r)"

lemma takeWhile_word:
  assumes "\<forall>c\<in>set w. is_ident c" "word_end r"
  shows "takeWhile (\<lambda>c. c \<noteq> NUL \<and> is_ident c) (w @ r) = w" "dropWhile (\<lambda>c. c \<noteq> NUL \<and> is_ident c) (w @ r) = r"
proof -
  have "\<forall>c\<in>set w. c \<noteq> NUL \<and> is_ident c" using assms(1) ident_facts(1) by blast
  then show "takeWhile (\<lambda>c. c \<noteq> NUL \<and> is_ident c) (w @ r) = w" "dropWhile (\<lambda>c. c \<noteq> NUL \<and> is_ident c) (w @ r) = r"
    using assms(2) by (cases r; auto simp: word_end_def)+
qed

lemma scans_word:
  assumes "w \<noteq> []" "\<forall>c\<in>set w. is_ident c" "\<not> is_digit (hd w)" "word_end r"
  shows "scans w r (lookup_keyword w, w)"
proof (rule scansI)
  have i: "is_ident (hd w)" using assms(1,2) by (cases w) auto
  show "\<not> is_blank (hd w)" "hd w \<noteq> CHR ''#''" using ident_facts [OF i] by auto
  fix l0 l
  assume l: "lx_ok l" "rest l = w @ r"
  then have c: "lx_ch l = hd w" using assms(1) by (cases w) (auto simp: lx_ok_def)
  obtain s l' where r: "read_run is_ident l = (s, l')" by fastforce
  from read_run_rest [OF l(1) r] have "lx_ok l'" "s = w" "rest l' = r"
    using takeWhile_word [OF assms(2,4)] l(2) by auto
  with r ident_facts [OF i] assms(3) i
  show "\<exists>t l'. plain_token l0 l = (t, l') \<and> (tk_type t, tk_lit t) = (lookup_keyword w, w) \<and> lx_ok l' \<and> rest l' = r"
    by (simp add: plain_token_def c Let_def read_identifier_def mk_token_def)
qed (fact assms(1))

text \<open>Numbers.\<close>

lemma digit_facts:
  assumes "is_digit c"
  shows "c \<noteq> NUL" "is_ident c" "\<not> is_letter c" "c \<noteq> CHR ''.''"
  using assms by (auto simp: is_ident_def is_letter_def is_digit_def code_def)

definition digits :: "string \<Rightarrow> bool" where "digits d \<longleftrightarrow> d \<noteq> [] \<and> (\<forall>c\<in>set d. is_digit c)"

lemma read_digits_rest:
  assumes "lx_ok l" "rest l = d @ r" "\<forall>c\<in>set d. is_digit c" "\<not> is_digit (head r)"
  shows "\<exists>l'. read_run is_digit l = (d, l') \<and> lx_ok l' \<and> rest l' = r"
proof -
  obtain s l' where rr: "read_run is_digit l = (s, l')" by fastforce
  have "takeWhile (\<lambda>c. c \<noteq> NUL \<and> is_digit c) (d @ r) = d" "dropWhile (\<lambda>c. c \<noteq> NUL \<and> is_digit c) (d @ r) = r"
    using assms(3,4) digit_facts(1) by (cases r; force)+
  with read_run_rest [OF assms(1) rr] assms(2) rr show ?thesis by auto
qed

text \<open>A number, possibly with decimals.\<close>

definition number_text :: "string \<Rightarrow> bool" where
  "number_text n \<longleftrightarrow> digits n \<or> (\<exists>d f. n = d @ CHR ''.'' # f \<and> digits d \<and> digits f)"

lemma number_first: "number_text n \<Longrightarrow> \<exists>c cs. n = c # cs \<and> is_digit c"
proof -
  assume "number_text n"
  then obtain d x where "n = d @ x" "digits d" by (auto simp: number_text_def intro: that [of n "[]"])
  then show ?thesis by (cases d) (auto simp: digits_def)
qed

lemma read_number_rest:
  assumes "lx_ok l" "rest l = n @ r" "number_text n" "\<not> is_digit (head r)" "head r \<noteq> CHR ''.''"
  shows "\<exists>l'. read_number l = (n, l') \<and> lx_ok l' \<and> rest l' = r"
  using assms(3) unfolding number_text_def
proof (elim disjE exE conjE)
  assume d: "digits n"
  then obtain l' where l': "read_run is_digit l = (n, l')" "lx_ok l'" "rest l' = r"
    using read_digits_rest [OF assms(1,2) _ assms(4)] by (auto simp: digits_def)
  then have "lx_ch l' \<noteq> CHR ''.''" using assms(5) by (simp add: lx_ok_def)
  with l' show ?thesis by (simp add: read_number_def)
next
  fix d f
  assume n: "n = d @ CHR ''.'' # f" and d: "digits d" and f: "digits f"
  then obtain c cs where c: "f = c # cs" "is_digit c" by (cases f) (auto simp: digits_def)
  have "\<not> is_digit (head (CHR ''.'' # f @ r))" by (simp add: is_digit_def code_def)
  then obtain l1 where l1: "read_run is_digit l = (d, l1)" "lx_ok l1" "rest l1 = CHR ''.'' # f @ r"
    using read_digits_rest [OF assms(1), of d "CHR ''.'' # f @ r"] assms(2) n d by (auto simp: digits_def)
  have dot: "lx_ch l1 = CHR ''.''" "is_digit (peek_char l1)" using l1(2,3) peek_ok [OF l1(2)] c by (auto simp: lx_ok_def)
  have "lx_ok (read_char l1)" "rest (read_char l1) = f @ r" using rest_read_char l1(2,3) by auto
  then obtain l2 where l2: "read_run is_digit (read_char l1) = (f, l2)" "lx_ok l2" "rest l2 = r"
    using read_digits_rest [of "read_char l1" f r] f assms(4) by (auto simp: digits_def)
  show ?thesis using l1(1) dot l2 n by (simp add: read_number_def)
qed

lemma plain_number:
  assumes "lx_ok l" "rest l = n @ r" "number_text n"
  shows "plain_token l0 l = number_token l0 l"
proof -
  obtain c cs where n: "n = c # cs" "is_digit c" using number_first [OF assms(3)] by blast
  then have "lx_ch l = c" using assms(1,2) by (simp add: lx_ok_def)
  with ident_facts [OF digit_facts(2) [OF n(2)]] n(2) show ?thesis by (simp add: plain_token_def Let_def)
qed

lemma scans_number:
  assumes "number_text n" "word_end r" "head r \<noteq> CHR ''.''"
  shows "scans n r (token_number, n)"
proof (rule scansI)
  obtain c cs where n: "n = c # cs" "is_digit c" using number_first [OF assms(1)] by blast
  then show "n \<noteq> []" "\<not> is_blank (hd n)" "hd n \<noteq> CHR ''#''" using ident_facts [OF digit_facts(2) [OF n(2)]] by auto
  fix l0 l
  assume l: "lx_ok l" "rest l = n @ r"
  have e: "\<not> is_digit (head r)" "\<not> is_letter (head r)" using assms(2) by (auto simp: word_end_def is_ident_def)
  obtain l' where l': "read_number l = (n, l')" "lx_ok l'" "rest l' = r"
    using read_number_rest [OF l assms(1) e(1) assms(3)] by blast
  then have "lx_ch l' = head r" by (simp add: lx_ok_def)
  with l' e(2) show "\<exists>t l'. plain_token l0 l = (t, l') \<and> (tk_type t, tk_lit t) = (token_number, n) \<and> lx_ok l' \<and> rest l' = r"
    by (simp add: plain_number [OF l assms(1)] number_token_def mk_token_def)
qed


text \<open>Durations: a number and a unit, then more of both.\<close>

definition unit_word :: "string \<Rightarrow> bool" where "unit_word u \<longleftrightarrow> u \<noteq> [] \<and> (\<forall>c\<in>set u. is_letter c)"

definition parts_text :: "(string \<times> string) list \<Rightarrow> string" where
  "parts_text ps = concat (map (\<lambda>(n, u). n @ u) ps)"

definition parts_ok :: "(string \<times> string) list \<Rightarrow> bool" where
  "parts_ok ps \<longleftrightarrow> (\<forall>(n, u)\<in>set ps. number_text n \<and> unit_word u)"

lemma letter_facts:
  assumes "is_letter c"
  shows "c \<noteq> NUL" "\<not> is_digit c" "c \<noteq> CHR ''.''" "is_ident c"
  using assms by (auto simp: is_ident_def is_letter_def is_digit_def code_def)

lemma takeWhile_letters:
  assumes "\<forall>c\<in>set u. is_letter c" "\<not> is_letter (head r)"
  shows "takeWhile (\<lambda>c. c \<noteq> NUL \<and> is_letter c) (u @ r) = u" "dropWhile (\<lambda>c. c \<noteq> NUL \<and> is_letter c) (u @ r) = r"
  using assms letter_facts(1) by (cases r; force)+

lemma read_units_rest:
  "parts_ok ps \<Longrightarrow> unit_word u \<Longrightarrow> lx_ok l \<Longrightarrow> rest l = u @ parts_text ps @ r \<Longrightarrow> word_end r \<Longrightarrow>
   \<exists>l'. read_units l = (u @ parts_text ps, l') \<and> lx_ok l' \<and> rest l' = r"
proof (induction ps arbitrary: u l)
  case Nil
  have e: "\<not> is_letter (head r)" "\<not> is_digit (head r)" using Nil.prems(5) by (auto simp: word_end_def is_ident_def)
  have c: "lx_ch l \<noteq> NUL" "is_letter (lx_ch l)" using Nil.prems(2,3,4) letter_facts(1)
    by (cases u; auto simp: unit_word_def lx_ok_def)+
  obtain s l1 where r: "read_run is_letter l = (s, l1)" by fastforce
  have l1: "lx_ok l1" "s = u" "rest l1 = r"
    using read_run_rest [OF Nil.prems(3) r] takeWhile_letters [of u r] Nil.prems(2,4) e by (auto simp: unit_word_def parts_text_def)
  then have "lx_ch l1 = head r" by (simp add: lx_ok_def)
  then have "read_units l1 = ([], l1)" using e by (subst read_units.simps) simp
  then have "read_units l = (u, l1)" using c r l1(2) e \<open>lx_ch l1 = head r\<close> by (subst read_units.simps) simp
  with l1 show ?case by (simp add: parts_text_def)
next
  case (Cons q ps)
  obtain n v where q: "q = (n, v)" by fastforce
  have ok: "number_text n" "unit_word v" "parts_ok ps" using Cons.prems(1) q by (auto simp: parts_ok_def)
  obtain d ds where n: "n = d # ds" "is_digit d" using number_first [OF ok(1)] by blast
  obtain k ks where v: "v = k # ks" "is_letter k" using ok(2) by (cases v) (auto simp: unit_word_def)
  let ?r = "parts_text ((n, v) # ps) @ r"
  have t: "?r = n @ v @ parts_text ps @ r" by (simp add: parts_text_def)
  have c: "lx_ch l \<noteq> NUL" "is_letter (lx_ch l)" using Cons.prems(2,3,4) letter_facts(1)
    by (cases u; auto simp: unit_word_def lx_ok_def)+
  obtain s l1 where r: "read_run is_letter l = (s, l1)" by fastforce
  have "\<not> is_letter (head ?r)" using t n digit_facts(3) by simp
  then have l1: "lx_ok l1" "s = u" "rest l1 = n @ v @ parts_text ps @ r"
    using read_run_rest [OF Cons.prems(3) r] takeWhile_letters [of u ?r] Cons.prems(2,4) q t by (auto simp: unit_word_def)
  have d1: "is_digit (lx_ch l1)" using l1(1,3) n by (simp add: lx_ok_def)
  have "\<not> is_digit (head (v @ parts_text ps @ r))" "head (v @ parts_text ps @ r) \<noteq> CHR ''.''"
    using v letter_facts [OF v(2)] by auto
  then obtain l2 where l2: "read_number l1 = (n, l2)" "lx_ok l2" "rest l2 = v @ parts_text ps @ r"
    using read_number_rest [OF l1(1,3) ok(1)] by blast
  obtain l' where l': "read_units l2 = (v @ parts_text ps, l')" "lx_ok l'" "rest l' = r"
    using Cons.IH [OF ok(3,2) l2(2,3) Cons.prems(5)] by blast
  have "read_units l = (u @ n @ v @ parts_text ps, l')"
    using c r l1(2) d1 l2(1) l'(1) by (subst read_units.simps) simp
  with l' show ?case by (simp add: q parts_text_def)
qed

lemma scans_duration:
  assumes "number_text n" "unit_word u" "parts_ok ps" "word_end r"
  shows "scans (n @ u @ parts_text ps) r (token_duration, n @ u @ parts_text ps)"
proof (rule scansI)
  obtain c cs where n: "n = c # cs" "is_digit c" using number_first [OF assms(1)] by blast
  then show "n @ u @ parts_text ps \<noteq> []" "\<not> is_blank (hd (n @ u @ parts_text ps))" "hd (n @ u @ parts_text ps) \<noteq> CHR ''#''"
    using ident_facts [OF digit_facts(2) [OF n(2)]] by auto
  fix l0 l
  assume l: "lx_ok l" "rest l = (n @ u @ parts_text ps) @ r"
  obtain k ks where k: "u = k # ks" "is_letter k" using assms(2) by (cases u) (auto simp: unit_word_def)
  have l2: "rest l = n @ (u @ parts_text ps @ r)" using l(2) by simp
  have "\<not> is_digit (head (u @ parts_text ps @ r))" "head (u @ parts_text ps @ r) \<noteq> CHR ''.''"
    using k letter_facts [OF k(2)] by auto
  then obtain l1 where l1: "read_number l = (n, l1)" "lx_ok l1" "rest l1 = u @ parts_text ps @ r"
    using read_number_rest [OF l(1) l2 assms(1)] by blast
  then have "is_letter (lx_ch l1)" using k by (simp add: lx_ok_def)
  moreover obtain l' where "read_units l1 = (u @ parts_text ps, l')" "lx_ok l'" "rest l' = r"
    using read_units_rest [OF assms(3,2) l1(2,3) assms(4)] by blast
  ultimately show "\<exists>t l'. plain_token l0 l = (t, l') \<and> (tk_type t, tk_lit t) = (token_duration, n @ u @ parts_text ps) \<and>
      lx_ok l' \<and> rest l' = r"
    using l1(1) by (simp add: plain_number [OF l(1) l2 assms(1)] number_token_def mk_token_def)
qed

lemma nat_string_digits: "digits (nat_string n)"
proof (induction n rule: nat_string.induct)
  case (1 n)
  then show ?case by (subst nat_string.simps) (auto simp: digits_def)
qed

lemma pad_digits: "0 < k \<Longrightarrow> digits (pad k v)"
proof (induction k arbitrary: v)
  case (Suc k)
  then show ?case by (cases k) (auto simp: digits_def)
qed simp

lemma fraction_parts: "\<exists>m. number_text m \<and> nat_string v @ fst (fmt_frac p x False u) = m @ u"
proof (cases "x mod 10 ^ p = 0")
  case True
  then have "fst (fmt_frac p x False u) = u" by (simp add: fmt_frac_zero)
  then show ?thesis using nat_string_digits [of v] by (intro exI [of _ "nat_string v"]) (simp add: number_text_def)
next
  case False
  from fmt_frac_nonzero [OF this, of u] obtain k where k: "0 < k"
    "fmt_frac p x False u = (CHR ''.'' # pad k (x div 10 ^ (p - k)) @ u, x div 10 ^ p)" by (elim exE conjE)
  let ?f = "pad k (x div 10 ^ (p - k))"
  have "number_text (nat_string v @ CHR ''.'' # ?f)"
    using nat_string_digits [of v] pad_digits [OF k(1)] by (auto simp: number_text_def)
  moreover have "nat_string v @ fst (fmt_frac p x False u) = (nat_string v @ CHR ''.'' # ?f) @ u" using k(2) by simp
  ultimately show ?thesis by blast
qed

lemma unit_words [simp]:
  "unit_word ''ns''" "unit_word [CHR 0xC2, CHR 0xB5, CHR ''s'']" "unit_word ''ms''" "unit_word ''s''" "unit_word ''m''" "unit_word ''h''"
  by (simp_all add: unit_word_def is_letter_def code_def)

lemma duration_body_parts:
  "\<exists>n u ps. duration_body v = n @ u @ parts_text ps \<and> number_text n \<and> unit_word u \<and> parts_ok ps"
proof -
  have one: ?thesis if "duration_body v = nat_string a @ fst (fmt_frac p v False u)" "unit_word u" for a p u
    using that fraction_parts [of a p v u] by (metis append.right_neutral append_assoc parts_text_def list.map(1) concat.simps(1) parts_ok_def empty_iff list.set(1))
  have num: "number_text (nat_string n)" for n using nat_string_digits [of n] by (simp add: number_text_def)
  consider "v = 0" | "0 < v" "v < 10 ^ 3" | "10 ^ 3 \<le> v" "v < 10 ^ 6" | "10 ^ 6 \<le> v" "v < 10 ^ 9" | "10 ^ 9 \<le> v" by linarith
  then show ?thesis
  proof cases
    case 1
    have "digit_char 0 = CHR ''0''" by code_simp
    then have "duration_body v = nat_string 0 @ fst (fmt_frac 9 v False ''s'')"
      by (simp add: 1 duration_body_def duration_string_def nat_string.simps fmt_frac_zero)
    then show ?thesis by (rule one) simp
  next
    case 2
    then have "duration_body v = nat_string (v div 10 ^ 0) @ fst (fmt_frac 0 v False ''ns'')"
      by (simp add: duration_body_def duration_string_def Let_def split_def fmt_frac_snd)
    then show ?thesis by (rule one) simp
  next
    case 3
    then have "duration_body v = nat_string (v div 10 ^ 3) @ fst (fmt_frac 3 v False [CHR 0xC2, CHR 0xB5, CHR ''s''])"
      by (simp add: duration_body_def duration_string_def Let_def split_def fmt_frac_snd)
    then show ?thesis by (rule one) simp
  next
    case 4
    then have "duration_body v = nat_string (v div 10 ^ 6) @ fst (fmt_frac 6 v False ''ms'')"
      by (simp add: duration_body_def duration_string_def Let_def split_def fmt_frac_snd)
    then show ?thesis by (rule one) simp
  next
    case 5
    define q where "q = v div 10 ^ 9"
    define tl9 where "tl9 = fst (fmt_frac 9 v False ''s'')"
    obtain m where m: "number_text m" "nat_string (q mod 60) @ tl9 = m @ ''s''"
      using fraction_parts [of "q mod 60" 9 v "''s''"] tl9_def by blast
    have "duration_body v =
      (if q div 60 = 0 then nat_string (q mod 60) @ tl9
       else if q div 60 div 60 = 0 then nat_string (q div 60 mod 60) @ ''m'' @ nat_string (q mod 60) @ tl9
       else nat_string (q div 60 div 60) @ ''h'' @ nat_string (q div 60 mod 60) @ ''m'' @ nat_string (q mod 60) @ tl9)"
      using 5 by (simp add: duration_body_def duration_string_def Let_def split_def fmt_frac_snd q_def tl9_def)
    then have b: "duration_body v =
      (if q div 60 = 0 then m @ ''s''
       else if q div 60 div 60 = 0 then nat_string (q div 60 mod 60) @ ''m'' @ m @ ''s''
       else nat_string (q div 60 div 60) @ ''h'' @ nat_string (q div 60 mod 60) @ ''m'' @ m @ ''s'')"
      unfolding m(2) .
    have p1: "parts_text [(m, ''s'')] = m @ ''s''" "parts_ok [(m, ''s'')]"
      "parts_text [(nat_string a, ''m''), (m, ''s'')] = nat_string a @ ''m'' @ m @ ''s''" "parts_ok [(nat_string a, ''m''), (m, ''s'')]"
      "parts_text [] = []" "parts_ok []" for a
      using m(1) num by (simp_all add: parts_text_def parts_ok_def)
    consider "q div 60 = 0" | "q div 60 \<noteq> 0" "q div 60 div 60 = 0" | "q div 60 \<noteq> 0" "q div 60 div 60 \<noteq> 0" by blast
    then show ?thesis
    proof cases
      case 1
      then show ?thesis using m(1) p1 by (intro exI [of _ m] exI [of _ "''s''"] exI [of _ "[]"]) (simp add: b)
    next
      case 2
      then show ?thesis using num p1
        by (intro exI [of _ "nat_string (q div 60 mod 60)"] exI [of _ "''m''"] exI [of _ "[(m, ''s'')]"]) (simp add: b)
    next
      case 3
      then show ?thesis using num p1
        by (intro exI [of _ "nat_string (q div 60 div 60)"] exI [of _ "''h''"] exI [of _ "[(nat_string (q div 60 mod 60), ''m''), (m, ''s'')]"])
          (simp add: b)
    qed
  qed
qed

lemma scans_duration_string:
  assumes "0 \<le> d" "word_end r"
  shows "scans (duration_string d) r (token_duration, duration_string d)"
proof -
  have "duration_string d = duration_body (nat d)" using assms(1) by (simp add: duration_body_def)
  with duration_body_parts [of "nat d"] scans_duration [OF _ _ _ assms(2)] show ?thesis by metis
qed

end
