(* ===== verification/TapeRecorder.thy ===== *)
theory TapeRecorder
  imports TapeParser
begin

text \<open>
  Recording what the user does as a tape (\<^verbatim>\<open>internal/tape/recorder.go\<close>). The clock is an argument, in
  nanoseconds; the moment a recording started is kept as the text of its header line.
\<close>

definition int_string :: "int \<Rightarrow> string" where
  "int_string n = (if n < 0 then CHR ''-'' # nat_string (nat (- n)) else nat_string (nat n))"

record recorder =
  rc_commands :: "command list"
  rc_start :: int
  rc_last :: int
  rc_enabled :: bool
  rc_buffer :: string
  rc_mode :: string
  rc_workspace :: int
  rc_tiling :: bool

definition new_recorder :: "int \<Rightarrow> recorder" where
  "new_recorder now = \<lparr>rc_commands = [], rc_start = now, rc_last = now, rc_enabled = False, rc_buffer = [],
     rc_mode = [], rc_workspace = 0, rc_tiling = False\<rparr>"

text \<open>A command recorded after the ones there are.\<close>

definition recorded :: "string \<Rightarrow> string list \<Rightarrow> int \<Rightarrow> string \<Rightarrow> recorder \<Rightarrow> command" where
  "recorded ty args delay raw r = \<lparr>cm_type = ty, cm_args = args, cm_delay = delay, cm_line = length (rc_commands r) + 1,
     cm_col = 1, cm_raw = raw\<rparr>"

definition append_command :: "command \<Rightarrow> recorder \<Rightarrow> recorder" where
  "append_command c r = r\<lparr>rc_commands := rc_commands r @ [c]\<rparr>"

definition start_recording :: "int \<Rightarrow> recorder \<Rightarrow> recorder" where
  "start_recording now r = r\<lparr>rc_enabled := True, rc_start := now, rc_last := now, rc_commands := []\<rparr>"

definition start_with_state :: "int \<Rightarrow> string \<Rightarrow> int \<Rightarrow> bool \<Rightarrow> recorder \<Rightarrow> recorder" where
  "start_with_state now mode ws tiling r0 =
     (let r = (start_recording now r0)\<lparr>rc_mode := mode, rc_workspace := ws, rc_tiling := tiling\<rparr>;
          r1 = (if ws > 1 then append_command
            (recorded ''SwitchWorkspace'' [int_string ws] 0 (''SwitchWorkspace '' @ int_string ws) r) r else r);
          t = (if tiling then ''EnableTiling'' else ''DisableTiling''); r2 = append_command (recorded t [] 0 t r1) r1;
          m = (if mode = ''terminal'' then ''TerminalMode'' else ''WindowManagementMode'')
      in append_command (recorded m [] 0 m r2) r2)"

definition flush_typing :: "(nat \<Rightarrow> bool) \<Rightarrow> recorder \<Rightarrow> recorder" where
  "flush_typing pr r =
     (if rc_buffer r = [] then r
      else (append_command (recorded ''Type'' [rc_buffer r] 0 (''Type '' @ quoted pr (rc_buffer r)) r) r)\<lparr>rc_buffer := []\<rparr>)"

definition stop_recording :: "(nat \<Rightarrow> bool) \<Rightarrow> recorder \<Rightarrow> recorder" where
  "stop_recording pr r = (flush_typing pr r)\<lparr>rc_enabled := False\<rparr>"

definition has_prefix :: "string \<Rightarrow> string \<Rightarrow> bool" where
  "has_prefix p s \<longleftrightarrow> length s > length p \<and> take (length p) s = p"

definition is_modifier_combo :: "string \<Rightarrow> bool" where
  "is_modifier_combo key \<longleftrightarrow> has_prefix ''ctrl+'' key \<or> has_prefix ''alt+'' key \<or> has_prefix ''shift+'' key"

definition key_names :: "(string \<times> string) list" where
  "key_names = [(''enter'', ''Enter''), ('' '', ''Space''), (''backspace'', ''Backspace''), (''delete'', ''Delete''),
     (''tab'', ''Tab''), (''esc'', ''Escape''), (''up'', ''Up''), (''down'', ''Down''), (''left'', ''Left''),
     (''right'', ''Right''), (''home'', ''Home''), (''end'', ''End'')]"

text \<open>The type, arguments and text of the command for a key; \<open>None\<close> for a key the tape cannot name.\<close>

definition key_to_command :: "(nat \<Rightarrow> bool) \<Rightarrow> string \<Rightarrow> (string \<times> string list \<times> string) option" where
  "key_to_command pr key =
     (case map_of key_names key of Some t \<Rightarrow> Some (t, [], t)
      | None \<Rightarrow>
        if is_modifier_combo key then Some (''KeyCombo'', [], key)
        else if length key = 1 \<and> 32 \<le> code (hd key) \<and> code (hd key) < 127 then Some (''Type'', [key], ''Type '' @ quoted pr key)
        else None)"

definition record_key :: "(nat \<Rightarrow> bool) \<Rightarrow> int \<Rightarrow> string \<Rightarrow> recorder \<Rightarrow> recorder" where
  "record_key pr now key r0 =
     (if \<not> rc_enabled r0 then r0
      else let r = flush_typing pr r0
           in case key_to_command pr key of None \<Rightarrow> r
              | Some (t, args, raw) \<Rightarrow> (append_command (recorded t args (now - rc_last r) raw r) r)\<lparr>rc_last := now\<rparr>)"

definition record_type :: "int \<Rightarrow> string \<Rightarrow> recorder \<Rightarrow> recorder" where
  "record_type now s r = (if \<not> rc_enabled r then r else r\<lparr>rc_buffer := rc_buffer r @ s, rc_last := now\<rparr>)"

text \<open>The part the remaining operations share: flush, append with the time passed, remember the time.\<close>

definition record_command :: "(nat \<Rightarrow> bool) \<Rightarrow> int \<Rightarrow> string \<Rightarrow> string list \<Rightarrow> string \<Rightarrow> recorder \<Rightarrow> recorder" where
  "record_command pr now ty args raw r0 =
     (let r = flush_typing pr r0
      in (append_command (recorded ty args (now - rc_last r) raw r) r)\<lparr>rc_last := now\<rparr>)"

definition record_mode_switch :: "(nat \<Rightarrow> bool) \<Rightarrow> int \<Rightarrow> string \<Rightarrow> recorder \<Rightarrow> recorder" where
  "record_mode_switch pr now ty r = (if \<not> rc_enabled r then r else record_command pr now ty [] ty r)"

definition action_to_command :: "(string \<times> string) list" where
  "action_to_command =
     [(''new_window'', ''NewWindow''), (''close_window'', ''CloseWindow''), (''next_window'', ''NextWindow''),
      (''prev_window'', ''PrevWindow''), (''minimize_window'', ''MinimizeWindow''), (''restore_all'', ''RestoreWindow''),
      (''toggle_tiling'', ''ToggleTiling''), (''snap_left'', ''SnapLeft''), (''snap_right'', ''SnapRight''),
      (''snap_fullscreen'', ''SnapFullscreen'')]"

text \<open>The flush happens before the action is looked up, so also for one that is then skipped.\<close>

definition record_action :: "(nat \<Rightarrow> bool) \<Rightarrow> int \<Rightarrow> string \<Rightarrow> string list \<Rightarrow> recorder \<Rightarrow> recorder" where
  "record_action pr now action args r =
     (if \<not> rc_enabled r then r
      else if action \<in> set [''toggle_tape_manager'', ''stop_recording'', ''enter_terminal_mode'', ''enter_window_mode''] then r
      else case map_of action_to_command action of
        Some t \<Rightarrow> record_command pr now t args t r
      | None \<Rightarrow>
        if has_prefix ''switch_workspace_'' action
        then let ws = drop 17 action in record_command pr now ''SwitchWorkspace'' [ws] (''SwitchWorkspace '' @ ws) r
        else if has_prefix ''select_window_'' action
        then let w = drop 14 action in record_command pr now ''FocusWindow'' [w] (''FocusWindow '' @ w) r
        else flush_typing pr r)"

definition record_workspace_switch :: "(nat \<Rightarrow> bool) \<Rightarrow> int \<Rightarrow> int \<Rightarrow> recorder \<Rightarrow> recorder" where
  "record_workspace_switch pr now ws r =
     (if \<not> rc_enabled r then r
      else record_command pr now ''SwitchWorkspace'' [int_string ws] (''SwitchWorkspace '' @ int_string ws) r)"

text \<open>An explicit pause does not flush what was typed before it.\<close>

definition record_sleep :: "int \<Rightarrow> int \<Rightarrow> recorder \<Rightarrow> recorder" where
  "record_sleep now d r =
     (if \<not> rc_enabled r then r
      else (append_command (recorded ''Sleep'' [duration_string d] d (''Sleep '' @ duration_string d) r) r)\<lparr>rc_last := now\<rparr>)"

definition clear_recorder :: "int \<Rightarrow> recorder \<Rightarrow> recorder" where
  "clear_recorder now r = r\<lparr>rc_commands := [], rc_buffer := [], rc_start := now, rc_last := now\<rparr>"

subsection \<open>The tape\<close>

text \<open>\<^verbatim>\<open>Delay > 0 && Delay.Milliseconds() > 100\<close>\<close>

definition long_pause :: "int \<Rightarrow> bool" where
  "long_pause d \<longleftrightarrow> d > 0 \<and> d div 1000000 > 100"

definition command_lines :: "command \<Rightarrow> string list" where
  "command_lines c = (if long_pause (cm_delay c) then [''Sleep '' @ duration_string (cm_delay c)] else []) @ [cm_raw c]"

text \<open>The lines of the tape; \<open>stamp\<close> is the start of the recording as RFC 3339 text.\<close>

definition tape_lines :: "string \<Rightarrow> string \<Rightarrow> recorder \<Rightarrow> string list" where
  "tape_lines stamp header r =
     (if header = [] then [] else [''# '' @ header, ''# Recorded: '' @ stamp, []]) @
     [''# Disable animations for consistent playback'', ''DisableAnimations'', []] @
     concat (map command_lines (rc_commands r)) @
     [[], ''# Re-enable animations'', ''EnableAnimations'']"

definition recorder_string :: "string \<Rightarrow> string \<Rightarrow> recorder \<Rightarrow> string" where
  "recorder_string stamp header r = concat (map (\<lambda>l. l @ [newline]) (tape_lines stamp header r))"

end
