(* ===== verification/TapeReplay.thy ===== *)
theory TapeReplay
  imports TapeLines TapeRecorder
begin

text \<open>
  A recorded tape read back: what the recorder prints, the lexer and the parser turn into the recorded
  commands again.
\<close>

subsection \<open>Quoted text\<close>

text \<open>Text whose quoting uses only the escapes the lexer undoes.\<close>

function text_ok :: "(nat \<Rightarrow> bool) \<Rightarrow> string \<Rightarrow> bool" where
  "text_ok pr s \<longleftrightarrow>
     (if s = [] then True
      else let (r, w) = decode_rune s
           in (if w = 1 then r \<in> {9, 10, 13} \<or> 32 \<le> r \<and> r \<le> 126 else 128 \<le> r \<and> pr r) \<and> text_ok pr (drop w s))"
  by pat_completeness auto
termination
proof (relation "measure (\<lambda>(pr, s). length s)", goal_cases)
  case (2 pr s x r w)
  then have "0 < w" using decode_rune_width by simp
  with 2(1) show ?case by simp
qed simp

declare text_ok.simps [simp del]

lemma decode_rune_one: "decode_rune s = (r, 1) \<Longrightarrow> r \<noteq> 65533 \<Longrightarrow> r = code (hd s)"
  by (simp add: decode_rune_def Let_def split: if_splits)

lemma continuation_byte: "continuation s i lo hi \<Longrightarrow> 128 \<le> lo \<Longrightarrow> i < length s \<and> 128 \<le> code (s ! i)"
  by (auto simp: continuation_def)

lemma decode_rune_more:
  assumes "decode_rune s = (r, w)" "w \<noteq> 1" "s \<noteq> []" "c \<in> set (take w s)"
  shows "128 \<le> code c"
proof -
  have "128 \<le> code (hd s)" "w = 2 \<or> w = 3 \<or> w = 4"
    using assms(1,2) by (simp_all add: decode_rune_def Let_def split: if_splits)
  then have first: "128 \<le> code (s ! 0)" "w \<in> {2, 3, 4}" using assms(3) by (auto simp: hd_conv_nth)
  have more: "128 \<le> code (s ! 1)" "2 < w \<Longrightarrow> 128 \<le> code (s ! 2)" "3 < w \<Longrightarrow> 128 \<le> code (s ! 3)"
    using assms(1,2) by (simp_all add: decode_rune_def Let_def continuation_def split: if_splits)
  obtain i where "i < w" "c = s ! i" using assms(4) by (auto simp: in_set_conv_nth)
  moreover from this first(2) have "i = 0 \<or> i = 1 \<or> (i = 2 \<and> 2 < w) \<or> (i = 3 \<and> 3 < w)" by auto
  ultimately show ?thesis using first(1) more by auto
qed

lemma string_loop_plain:
  assumes "lx_ok l" "rest l = u @ t" "\<forall>c\<in>set u. c \<noteq> dquote \<and> c \<noteq> backslash \<and> c \<noteq> NUL"
  shows "\<exists>l1. lx_ok l1 \<and> rest l1 = t \<and> string_loop dquote l = (u @ fst (string_loop dquote l1), snd (string_loop dquote l1))"
  using assms
proof (induction u arbitrary: l)
  case Nil
  then show ?case by (intro exI [of _ l]) simp
next
  case (Cons c u)
  then have c: "lx_ch l = c" by (simp add: lx_ok_def)
  have "lx_ok (read_char l)" "rest (read_char l) = u @ t" using rest_read_char Cons.prems by auto
  then obtain l1 where "lx_ok l1" "rest l1 = t"
      "string_loop dquote (read_char l) = (u @ fst (string_loop dquote l1), snd (string_loop dquote l1))"
    using Cons.IH Cons.prems(3) by auto
  with c Cons.prems(3) show ?case
    by (intro exI [of _ l1]) (subst string_loop.simps, simp)
qed

lemma string_loop_escape:
  assumes "lx_ok l" "rest l = backslash # c # t"
  shows "\<exists>l1. lx_ok l1 \<and> rest l1 = t \<and> string_loop dquote l = (unescape c # fst (string_loop dquote l1), snd (string_loop dquote l1))"
proof -
  have l: "lx_ch l = backslash" using assms by (simp add: lx_ok_def)
  have 1: "lx_ok (read_char l)" "rest (read_char l) = c # t" using rest_read_char assms by auto
  then have c: "lx_ch (read_char l) = c" by (simp add: lx_ok_def)
  have "lx_ok (read_char (read_char l))" "rest (read_char (read_char l)) = t" using rest_read_char 1 by auto
  then show ?thesis using l c
    by (intro exI [of _ "read_char (read_char l)"]) (subst string_loop.simps, simp add: split_def Let_def)
qed

lemma char_code: "char_of (code c) = c" by (simp add: code_def)

lemma code_eq_iff: "code c = n \<Longrightarrow> c = char_of n" using char_code [of c] by simp

lemma quoted_step:
  assumes "decode_rune s = (r, w)" "s \<noteq> []" "lx_ok l"
    "if w = 1 then r \<in> {9, 10, 13} \<or> 32 \<le> r \<and> r \<le> 126 else 128 \<le> r \<and> pr r"
    "rest l = escape_rune pr r (take w s) @ t"
  shows "\<exists>l1. lx_ok l1 \<and> rest l1 = t \<and> string_loop dquote l = (take w s @ fst (string_loop dquote l1), snd (string_loop dquote l1))"
proof (cases "w = 1")
  case True
  obtain c cs where s: "s = c # cs" using assms(2) by (cases s) auto
  have r: "r = code c" using decode_rune_one [of s r] assms(1,4) True s by auto
  then have c: "c = char_of r" by (simp add: char_code)
  have ch: "char_of (34 :: nat) = dquote" "char_of (92 :: nat) = backslash" "char_of (9 :: nat) = CHR 0x09"
    "char_of (10 :: nat) = newline" "char_of (13 :: nat) = CHR 0x0D" by code_simp+
  have plain: ?thesis if "escape_rune pr r (take w s) = [c]" "c \<noteq> dquote" "c \<noteq> backslash" "c \<noteq> NUL"
    using string_loop_plain [OF assms(3), of "[c]" t] that assms(5) True s by simp
  have esc: ?thesis if "escape_rune pr r (take w s) = [backslash, d]" "unescape d = c" for d
    using string_loop_escape [OF assms(3), of d t] that assms(5) True s by simp
  consider "r = 34 \<or> r = 92" | "r = 9" | "r = 10" | "r = 13" | "32 \<le> r" "r \<le> 126" "r \<noteq> 34" "r \<noteq> 92"
    using assms(4) True by auto
  then show ?thesis
  proof cases
    case 1
    then show ?thesis by (intro esc [of c]) (auto simp: escape_rune_def c ch unescape_def)
  next
    case 2
    then show ?thesis by (intro esc [of "CHR ''t''"]) (auto simp: escape_rune_def c ch unescape_def)
  next
    case 3
    then show ?thesis by (intro esc [of "CHR ''n''"]) (auto simp: escape_rune_def c ch unescape_def)
  next
    case 4
    then show ?thesis by (intro esc [of "CHR ''r''"]) (auto simp: escape_rune_def c ch unescape_def)
  next
    case 5
    then have "c \<noteq> dquote" "c \<noteq> backslash" "c \<noteq> NUL" using r by (auto simp: code_def)
    with 5 s True show ?thesis by (intro plain) (auto simp: escape_rune_def)
  qed
next
  case False
  then have "escape_rune pr r (take w s) = take w s" using assms(4) by (simp add: escape_rune_def)
  moreover have "\<forall>c\<in>set (take w s). c \<noteq> dquote \<and> c \<noteq> backslash \<and> c \<noteq> NUL"
    using decode_rune_more [OF assms(1) False assms(2)] by (force simp: code_def)
  ultimately show ?thesis using string_loop_plain [OF assms(3), of "take w s" t] assms(5) by simp
qed

lemma text_ok_step:
  "decode_rune s = (q, w) \<Longrightarrow> s \<noteq> [] \<Longrightarrow>
   text_ok pr s = ((if w = 1 then q \<in> {9, 10, 13} \<or> 32 \<le> q \<and> q \<le> 126 else 128 \<le> q \<and> pr q) \<and> text_ok pr (drop w s))"
  by (subst text_ok.simps) (simp only: Let_def prod.case if_False)

lemma quote_body_step:
  "decode_rune s = (q, w) \<Longrightarrow> s \<noteq> [] \<Longrightarrow> w \<noteq> 1 \<or> q \<noteq> 65533 \<Longrightarrow>
   quote_body pr s = escape_rune pr q (take w s) @ quote_body pr (drop w s)"
  by (subst quote_body.simps) auto

lemma string_loop_quoted:
  "text_ok pr s \<Longrightarrow> lx_ok l \<Longrightarrow> rest l = quote_body pr s @ dquote # r \<Longrightarrow>
   \<exists>l'. string_loop dquote l = (s, l') \<and> lx_ok l' \<and> rest l' = dquote # r"
proof (induction pr s arbitrary: l rule: text_ok.induct)
  case (1 pr s)
  show ?case
  proof (cases "s = []")
    case True
    then have "rest l = dquote # r" using "1.prems"(3) by (simp add: quote_body.simps)
    with "1.prems"(2) True show ?thesis
      by (intro exI [of _ l]) (subst string_loop.simps, simp add: lx_ok_def)
  next
    case False
    obtain q w where d: "decode_rune s = (q, w)" by fastforce
    have ok: "if w = 1 then q \<in> {9, 10, 13} \<or> 32 \<le> q \<and> q \<le> 126 else 128 \<le> q \<and> pr q" "text_ok pr (drop w s)"
      using "1.prems"(1) unfolding text_ok_step [OF d False] by blast+
    then have "w \<noteq> 1 \<or> q \<noteq> 65533" by (cases "w = 1") auto
    from "1.prems"(3) quote_body_step [OF d False this]
    have "rest l = escape_rune pr q (take w s) @ quote_body pr (drop w s) @ dquote # r" by simp
    from quoted_step [OF d False "1.prems"(2) ok(1) this]
    obtain l1 where l1: "lx_ok l1" "rest l1 = quote_body pr (drop w s) @ dquote # r"
      "string_loop dquote l = (take w s @ fst (string_loop dquote l1), snd (string_loop dquote l1))" by blast
    from "1.IH" [OF False d [symmetric] refl ok(2) l1(1,2)]
    obtain l' where l': "string_loop dquote l1 = (drop w s, l')" "lx_ok l'" "rest l' = dquote # r" by blast
    with l1(3) have "string_loop dquote l = (s, l')" by simp
    with l'(2,3) show ?thesis by blast
  qed
qed

lemma scans_string:
  assumes "text_ok pr s"
  shows "scans (quoted pr s) r (token_string, s)"
proof (rule scansI)
  show "quoted pr s \<noteq> []" "\<not> is_blank (hd (quoted pr s))" "hd (quoted pr s) \<noteq> CHR ''#''"
    by (simp_all add: quoted_def is_blank_def)
  fix l0 l
  assume l: "lx_ok l" "rest l = quoted pr s @ r"
  then have c: "lx_ch l = dquote" by (simp add: lx_ok_def quoted_def)
  have "lx_ok (read_char l)" "rest (read_char l) = quote_body pr s @ dquote # r"
    using rest_read_char l by (auto simp: quoted_def)
  from string_loop_quoted [OF assms this] obtain l1 where
    l1: "string_loop dquote (read_char l) = (s, l1)" "lx_ok l1" "rest l1 = dquote # r" by blast
  then have "lx_ch l1 = dquote" "lx_ok (read_char l1)" "rest (read_char l1) = r"
    using rest_read_char by (auto simp: lx_ok_def)
  with l1(1) have "read_string dquote l = (s, read_char l1)" by (simp add: read_string_def)
  with c show "\<exists>t l'. plain_token l0 l = (t, l') \<and> (tk_type t, tk_lit t) = (token_string, s) \<and> lx_ok l' \<and> rest l' = r"
    using \<open>lx_ok (read_char l1)\<close> \<open>rest (read_char l1) = r\<close> by (simp add: plain_token_def mk_token_def)
qed

subsection \<open>Tokens of a line\<close>

abbreviation nl_sig :: "string \<times> string" where "nl_sig \<equiv> (token_newline, [newline])"
abbreviation eof_sig :: "string \<times> string" where "eof_sig \<equiv> (token_eof, [])"

definition sigs :: "lexer \<Rightarrow> (string \<times> string) list" where "sigs l = map sig_of (tokens_from l)"

lemma sigs_next: "next_token l = (t, l') \<Longrightarrow> sigs l = sig_of t # (if tk_type t = token_eof then [] else sigs l')"
  unfolding sigs_def by (subst tokens_from.simps) simp

lemma sigs_end: "lx_ok l \<Longrightarrow> rest l = [] \<Longrightarrow> sigs l = [eof_sig]"
proof -
  assume "lx_ok l" "rest l = []"
  then have c: "lx_ch l = NUL" by (simp add: lx_ok_def)
  then have "next_token l = (mk_token l token_eof [], l)"
    by (subst next_token.simps) (simp add: skip_whitespace_def read_run.simps plain_token_def)
  from sigs_next [OF this] show ?thesis by (simp add: sig_of_def)
qed

definition lexes :: "string \<Rightarrow> string \<Rightarrow> (string \<times> string) list \<Rightarrow> bool" where
  "lexes u r ss \<longleftrightarrow> (\<forall>l. lx_ok l \<longrightarrow> rest l = u @ r \<longrightarrow> (\<exists>l'. lx_ok l' \<and> rest l' = r \<and> sigs l = ss @ sigs l'))"

lemma lexes_nil: "lexes [] r []"
  by (auto simp: lexes_def)

lemma lexes_one: "scans u r s \<Longrightarrow> fst s \<noteq> token_eof \<Longrightarrow> lexes u r [s]"
  unfolding scans_def lexes_def using sigs_next by (fastforce simp: sig_of_def)

lemma lexes_append: "lexes u (v @ r) ss \<Longrightarrow> lexes v r ts \<Longrightarrow> lexes (u @ v) r (ss @ ts)"
  unfolding lexes_def by (metis append_assoc)

lemma scans_comment:
  assumes "\<forall>c\<in>set u. c \<noteq> newline \<and> c \<noteq> NUL"
  shows "scans (CHR ''#'' # u @ [newline]) r nl_sig"
  unfolding scans_def
proof (intro allI impI)
  fix l
  assume l: "lx_ok l" "rest l = (CHR ''#'' # u @ [newline]) @ r"
  have w: "lx_ok (skip_whitespace l)" "rest (skip_whitespace l) = CHR ''#'' # u @ newline # r"
    using skip_whitespace_rest [OF l(1)] l(2) by (auto simp: is_blank_def)
  then have c: "lx_ch (skip_whitespace l) = CHR ''#''" by (simp add: lx_ok_def)
  obtain s l1 where rr: "read_run (\<lambda>c. c \<noteq> newline) (skip_whitespace l) = (s, l1)" by fastforce
  have "dropWhile (\<lambda>c. c \<noteq> NUL \<and> c \<noteq> newline) (CHR ''#'' # u @ newline # r) = newline # r"
    using assms by (simp add: dropWhile_append2)
  then have l1: "lx_ok l1" "rest l1 = [newline] @ r" using read_run_rest [OF w(1) rr] w(2) by auto
  have "next_token l = next_token l1"
    using c rr by (subst next_token.simps) (simp add: skip_comment_def)
  with scans_newline [of r] l1 show
    "\<exists>t l'. next_token l = (t, l') \<and> (tk_type t, tk_lit t) = nl_sig \<and> lx_ok l' \<and> rest l' = r"
    unfolding scans_def by metis
qed

subsection \<open>What the parser has before it\<close>

definition stream :: "parser \<Rightarrow> (string \<times> string) list" where
  "stream p = sig_of (pa_cur p) # (if cur_type p = token_eof then []
     else sig_of (pa_peek p) # (if tk_type (pa_peek p) = token_eof then [] else sigs (pa_lexer p)))"

lemma stream_cur: "stream p = (t, s) # ss \<Longrightarrow> cur_type p = t \<and> tk_lit (pa_cur p) = s"
  by (simp add: stream_def sig_of_def cur_type_def)

lemma stream_advance: "stream p = (t, s) # ss \<Longrightarrow> t \<noteq> token_eof \<Longrightarrow> stream (advance p) = ss"
  by (cases "next_token (pa_lexer p)") (auto simp: stream_def advance_def cur_type_def sig_of_def dest: sigs_next)

lemma errors_advance [simp]: "pa_errors (advance p) = pa_errors p"
  by (simp add: advance_def split_def Let_def)

lemma stream_new: "stream (new_parser l) = sigs l"
proof -
  define p where "p = \<lparr>pa_lexer = l, pa_cur = blank_token, pa_peek = blank_token, pa_errors = []\<rparr>"
  have "stream p = ([], []) # ([], []) # sigs l" by (simp add: stream_def p_def cur_type_def sig_of_def blank_token_def)
  from stream_advance [OF stream_advance [OF this]] show ?thesis by (simp add: new_parser_def p_def)
qed

type_synonym summary = "string \<times> string list \<times> int"

definition summary :: "command \<Rightarrow> summary" where "summary c = (cm_type c, cm_args c, cm_delay c)"

definition outcome :: "parser \<Rightarrow> summary \<Rightarrow> (string \<times> string) list \<Rightarrow> command option \<times> parser \<Rightarrow> bool" where
  "outcome p k tail x \<longleftrightarrow> (\<exists>c p'. x = (Some c, p') \<and> summary c = k \<and> stream p' = nl_sig # tail \<and> pa_errors p' = pa_errors p)"

definition says :: "(nat \<Rightarrow> bool) \<Rightarrow> (string \<times> string) list \<Rightarrow> summary \<Rightarrow> bool" where
  "says pr ss k \<longleftrightarrow> ss \<noteq> [] \<and> fst (hd ss) \<noteq> token_newline \<and> fst (hd ss) \<noteq> token_eof \<and>
     (\<forall>p tail. stream p = ss @ nl_sig # tail \<longrightarrow> outcome p k tail (dispatch pr p))"

lemma finish_outcome: "stream p1 = nl_sig # tail \<Longrightarrow> pa_errors p1 = pa_errors p \<Longrightarrow> summary c = k \<Longrightarrow> outcome p k tail (finish c p1)"
  using stream_cur [of p1 token_newline "[newline]" tail] by (simp add: outcome_def finish_def at_end_def)

lemma summary_simps [simp]:
  "summary (c\<lparr>cm_raw := r\<rparr>) = summary c" "summary (start_command t p) = (t, [], 0)"
  "summary (c\<lparr>cm_args := a\<rparr>) = (cm_type c, a, cm_delay c)" "summary (c\<lparr>cm_delay := d\<rparr>) = (cm_type c, cm_args c, d)"
  "cm_delay (start_command t p) = 0" "cm_type (start_command t p) = t" "cm_args (start_command t p) = []"
  by (simp_all add: summary_def start_command_def)

lemma basic_says:
  assumes "t \<in> set basic_commands"
  shows "says pr [(t, w)] (t, [], 0)"
proof -
  have "outcome p (t, [], 0) tail (dispatch pr p)" if p: "stream p = (t, w) # nl_sig # tail" for p tail
  proof -
    have t: "t \<noteq> token_eof" using assms by (auto simp: basic_commands_def)
    have n: "stream (advance p) = nl_sig # tail" using stream_advance [OF p t] .
    then have "cur_type (advance p) = token_newline" using stream_cur by blast
    then have "parse_basic t p = finish ((start_command t p)\<lparr>cm_raw := tk_lit (pa_cur p)\<rparr>) (advance p)"
      by (simp add: parse_basic_def speed_modifier_def)
    with finish_outcome [OF n] stream_cur [OF p] assms show ?thesis by (simp add: dispatch_cases)
  qed
  then show ?thesis using assms by (auto simp: says_def basic_commands_def)
qed

lemma two_tokens:
  assumes "stream p = (t, w) # (t1, s) # nl_sig # tail" "t \<noteq> token_eof" "t1 \<noteq> token_eof"
  shows "cur_type p = t" "cur_type (advance p) = t1" "tk_lit (pa_cur (advance p)) = s" "stream (advance (advance p)) = nl_sig # tail"
  using stream_cur [OF assms(1)] stream_advance [OF assms(1,2)] stream_cur [of "advance p" t1 s]
    stream_advance [of "advance p" t1 s] assms(3) by auto

lemma type_says: "says pr [(''Type'', w), (token_string, s)] (''Type'', [s], 0)"
proof -
  have "outcome p (''Type'', [s], 0) tail (dispatch pr p)"
    if "stream p = (''Type'', w) # (token_string, s) # nl_sig # tail" for p tail
  proof -
    have p: "cur_type p = ''Type''" "cur_type (advance p) = token_string" "tk_lit (pa_cur (advance p)) = s"
      "stream (advance (advance p)) = nl_sig # tail" using two_tokens [OF that] by simp_all
    have "dispatch pr p = parse_type pr p" using p(1) by (simp add: dispatch_cases basic_commands_def)
    moreover have "parse_type pr p =
        finish ((start_command ''Type'' p)\<lparr>cm_args := [s], cm_raw := ''Type '' @ quoted pr s\<rparr>) (advance (advance p))"
      using p(2,3) by (simp add: parse_type_def speed_modifier_def)
    ultimately show ?thesis using finish_outcome [OF p(4)] by simp
  qed
  then show ?thesis by (simp add: says_def)
qed

lemma sleep_says:
  assumes "parse_duration u = Some d"
  shows "says pr [(''Sleep'', w), (token_duration, u)] (''Sleep'', [u], d)"
proof -
  have "outcome p (''Sleep'', [u], d) tail (dispatch pr p)"
    if "stream p = (''Sleep'', w) # (token_duration, u) # nl_sig # tail" for p tail
  proof -
    have p: "cur_type p = ''Sleep''" "cur_type (advance p) = token_duration" "tk_lit (pa_cur (advance p)) = u"
      "stream (advance (advance p)) = nl_sig # tail" using two_tokens [OF that] by simp_all
    have "dispatch pr p = parse_pause ''Sleep'' p" using p(1) by (simp add: dispatch_cases basic_commands_def is_modifier_def)
    moreover have "parse_pause ''Sleep'' p =
        finish ((start_command ''Sleep'' p)\<lparr>cm_args := [u], cm_delay := d, cm_raw := ''Sleep'' @ '' '' @ u\<rparr>) (advance (advance p))"
      using p(2,3) assms by (simp add: parse_pause_def take_duration_def Let_def)
    ultimately show ?thesis using finish_outcome [OF p(4)] by simp
  qed
  then show ?thesis by (simp add: says_def)
qed

lemma argument_says:
  assumes "t \<in> {''SwitchWorkspace'', ''FocusWindow''}" "k = token_number \<or> (t = ''FocusWindow'' \<and> k = token_identifier)"
  shows "says pr [(t, w), (k, s)] (t, [s], 0)"
proof -
  have "outcome p (t, [s], 0) tail (dispatch pr p)" if q: "stream p = (t, w) # (k, s) # nl_sig # tail" for p tail
  proof -
    have "t \<noteq> token_eof" "k \<noteq> token_eof" using assms by auto
    with two_tokens [OF q] have p: "cur_type p = t" "cur_type (advance p) = k" "tk_lit (pa_cur (advance p)) = s"
      "stream (advance (advance p)) = nl_sig # tail" by simp_all
    have "parse_argument t ks m b p = finish ((start_command t p)\<lparr>cm_args := [s], cm_raw := t @ '' '' @ s\<rparr>) (advance (advance p))"
      if "k \<in> set ks" for ks m b
      using p(2,3) that by (simp add: parse_argument_def Let_def)
    then have "dispatch pr p = finish ((start_command t p)\<lparr>cm_args := [s], cm_raw := t @ '' '' @ s\<rparr>) (advance (advance p))"
      using p(1) assms by (auto simp: dispatch_cases basic_commands_def is_modifier_def)
    then show ?thesis using finish_outcome [OF p(4)] by simp
  qed
  then show ?thesis using assms by (auto simp: says_def)
qed

text \<open>Key combinations.\<close>

definition combo_sigs :: "(string \<times> string) list \<Rightarrow> (string \<times> string) list" where
  "combo_sigs ms = concat (map (\<lambda>m. [m, (token_plus, ''+'')]) ms)"

definition key_sig :: "string \<times> string \<Rightarrow> bool" where
  "key_sig k \<longleftrightarrow> fst k \<in> {token_identifier, token_number, ''Enter'', ''Space''} \<or> is_navigation_key (fst k)"

lemma take_modifiers_stream:
  "stream p = combo_sigs ms @ (k, s) # tail \<Longrightarrow> \<forall>m\<in>set ms. is_modifier (fst m) \<Longrightarrow> \<not> is_modifier k \<Longrightarrow>
   \<exists>p1. take_modifiers p = (map snd ms, p1) \<and> stream p1 = (k, s) # tail \<and> pa_errors p1 = pa_errors p"
proof (induction ms arbitrary: p)
  case Nil
  then have "\<not> is_modifier (cur_type p)" using stream_cur [of p k s] by (simp add: combo_sigs_def)
  with Nil.prems(1) show ?case by (subst take_modifiers.simps) (simp add: combo_sigs_def)
next
  case (Cons m ms)
  obtain t w where m: "m = (t, w)" by fastforce
  have q: "stream p = (t, w) # (token_plus, ''+'') # combo_sigs ms @ (k, s) # tail"
    using Cons.prems(1) by (simp add: combo_sigs_def m)
  have t: "is_modifier t" "t \<noteq> token_eof" using Cons.prems(2) modifier_not_eof [of t] by (auto simp: m)
  have a: "stream (advance p) = (token_plus, ''+'') # combo_sigs ms @ (k, s) # tail" using stream_advance [OF q t(2)] .
  have "stream (advance (advance p)) = combo_sigs ms @ (k, s) # tail" using stream_advance [OF a] by simp
  then obtain p1 where "take_modifiers (advance (advance p)) = (map snd ms, p1)" "stream p1 = (k, s) # tail" "pa_errors p1 = pa_errors p"
    using Cons.IH [of "advance (advance p)"] Cons.prems(2,3) by auto
  with stream_cur [OF q] stream_cur [OF a] t(1) show ?case by (subst take_modifiers.simps) (simp add: m Let_def)
qed

lemma combo_says:
  assumes "ms \<noteq> []" "\<forall>m\<in>set ms. is_modifier (fst m)" "key_sig (k, s)"
  shows "says pr (combo_sigs ms @ [(k, s)]) (''KeyCombo'', [join_with ''+'' (map snd ms @ [s])], 0)"
proof -
  obtain t w ms' where ms: "ms = (t, w) # ms'" "is_modifier t" using assms(1,2) by (cases ms) auto
  have k: "k \<noteq> token_eof" "\<not> is_modifier k" using assms(3) by (auto simp: key_sig_def is_modifier_def is_navigation_key_def)
  have "outcome p (''KeyCombo'', [join_with ''+'' (map snd ms @ [s])], 0) tail (dispatch pr p)"
    if q: "stream p = combo_sigs ms @ (k, s) # nl_sig # tail" for p tail
  proof -
    obtain p1 where p1: "take_modifiers p = (map snd ms, p1)" "stream p1 = (k, s) # nl_sig # tail" "pa_errors p1 = pa_errors p"
      using take_modifiers_stream [OF q assms(2) k(2)] by blast
    have c: "cur_type p = t" using q stream_cur [of p t w] by (simp add: ms combo_sigs_def)
    then have "dispatch pr p = parse_key_combo p" using ms(2) by (auto simp: dispatch_cases basic_commands_def is_modifier_def)
    moreover have "key_token (pa_cur p1)"
      using stream_cur [OF p1(2)] assms(3) by (auto simp: key_token_def key_sig_def cur_type_def)
    ultimately show ?thesis
      using p1(1,3) stream_cur [OF p1(2)] finish_outcome [OF stream_advance [OF p1(2) k(1)]]
      by (simp add: parse_key_combo_def Let_def)
  qed
  then show ?thesis using modifier_not_eof [OF ms(2)] by (simp add: says_def ms combo_sigs_def)
qed

subsection \<open>Lines\<close>

text \<open>A line whose tokens are a complete command, or nothing.\<close>

definition line_says :: "(nat \<Rightarrow> bool) \<Rightarrow> string \<Rightarrow> summary option \<Rightarrow> bool" where
  "line_says pr u ko \<longleftrightarrow> (\<exists>ss. (\<forall>r. lexes (u @ [newline]) r (ss @ [nl_sig])) \<and>
     (case ko of None \<Rightarrow> ss = [] | Some k \<Rightarrow> says pr ss k))"

lemma lexes_newline: "lexes [newline] r [nl_sig]"
  by (rule lexes_one [OF scans_newline]) simp

lemma line_saysI:
  assumes "\<And>r. lexes u (newline # r) ss" "says pr ss k"
  shows "line_says pr u (Some k)"
  unfolding line_says_def using assms lexes_append [of u "[newline]" _ ss "[nl_sig]"] lexes_newline by auto

lemma blank_line: "line_says pr [] None"
  unfolding line_says_def using lexes_newline by auto

lemma comment_line: "\<forall>c\<in>set u. c \<noteq> newline \<and> c \<noteq> NUL \<Longrightarrow> line_says pr (CHR ''#'' # u) None"
  unfolding line_says_def using lexes_one [OF scans_comment] by auto

definition word_text :: "string \<Rightarrow> bool" where
  "word_text w \<longleftrightarrow> w \<noteq> [] \<and> (\<forall>c\<in>set w. is_ident c) \<and> \<not> is_digit (hd w)"

lemma lexes_word: "word_text w \<Longrightarrow> word_end r \<Longrightarrow> lexes w r [(lookup_keyword w, w)]"
  using lexes_one [OF scans_word [of w r]] by (simp add: word_text_def)

lemma lexes_blank: "scans u r s \<Longrightarrow> fst s \<noteq> token_eof \<Longrightarrow> lexes ('' '' @ u) r [s]"
  using lexes_one [OF scans_blank [of u r s "CHR '' ''"]] by (simp add: is_blank_def)

lemma word_ends [simp]: "word_end (newline # r)" "word_end (CHR '' '' # r)" "word_end (CHR ''+'' # r)"
  by (simp_all add: word_end_def is_ident_def is_letter_def is_digit_def code_def)

lemma keyword_says:
  assumes "word_text t" "lookup_keyword t = t" "\<And>r. scans u (newline # r) s" "fst s \<noteq> token_eof" "says pr [(t, t), s] k"
  shows "line_says pr (t @ '' '' @ u) (Some k)"
proof (rule line_saysI [OF _ assms(5)])
  fix r
  have "lexes t (('' '' @ u) @ newline # r) [(t, t)]" using lexes_word [OF assms(1), of "('' '' @ u) @ newline # r"] assms(2) by simp
  from lexes_append [OF this lexes_blank [OF assms(3,4)]] show "lexes (t @ '' '' @ u) (newline # r) [(t, t), s]" by simp
qed

lemma keywords_plain: "t \<in> set basic_commands \<union> {''Type'', ''Sleep'', ''SwitchWorkspace'', ''FocusWindow''} \<Longrightarrow>
  word_text t \<and> lookup_keyword t = t"
proof -
  have "\<forall>t\<in>set basic_commands \<union> {''Type'', ''Sleep'', ''SwitchWorkspace'', ''FocusWindow''}. word_text t \<and> lookup_keyword t = t"
    unfolding word_text_def by code_simp
  then show "t \<in> set basic_commands \<union> {''Type'', ''Sleep'', ''SwitchWorkspace'', ''FocusWindow''} \<Longrightarrow> ?thesis" by blast
qed

lemma basic_line: "t \<in> set basic_commands \<Longrightarrow> line_says pr t (Some (t, [], 0))"
  using keywords_plain [of t] lexes_word [of t] by (intro line_saysI [OF _ basic_says [of t pr t]]) auto

lemma type_line: "text_ok pr s \<Longrightarrow> line_says pr (''Type '' @ quoted pr s) (Some (''Type'', [s], 0))"
  using keyword_says [where t = "''Type''" and s = "(token_string, s)", OF _ _ scans_string _ type_says] keywords_plain [of "''Type''"] by simp

lemma sleep_line:
  assumes "0 \<le> d" "d < 2 ^ 63"
  shows "line_says pr (''Sleep '' @ duration_string d) (Some (''Sleep'', [duration_string d], d))"
proof -
  have "parse_duration (duration_string d) = Some d" using parse_duration_string [of d] assms by simp
  from keyword_says [where t = "''Sleep''", OF _ _ scans_duration_string [OF assms(1)] _ sleep_says [OF this]]
  show ?thesis using keywords_plain [of "''Sleep''"] by simp
qed

definition argument_text :: "string \<Rightarrow> string \<Rightarrow> bool" where
  "argument_text t s \<longleftrightarrow> digits s \<or> (t = ''FocusWindow'' \<and> word_text s \<and> lookup_keyword s = token_identifier)"

lemma argument_line:
  assumes "t \<in> {''SwitchWorkspace'', ''FocusWindow''}" "argument_text t s"
  shows "line_says pr (t @ '' '' @ s) (Some (t, [s], 0))"
proof -
  have e: "head (newline # r) \<noteq> CHR ''.''" for r by simp
  have t: "word_text t \<and> lookup_keyword t = t" by (rule keywords_plain) (use assms(1) in auto)
  show ?thesis
    using assms(2) unfolding argument_text_def
  proof (elim disjE conjE)
    assume "digits s"
    then have "scans s (newline # r) (token_number, s)" for r using e by (intro scans_number) (auto simp: number_text_def)
    from keyword_says [OF _ _ this _ argument_says [where t = t and w = t and k = token_number and s = s and pr = pr]] t assms(1) show ?thesis by simp
  next
    assume s: "t = ''FocusWindow''" "word_text s" "lookup_keyword s = token_identifier"
    then have "scans s (newline # r) (token_identifier, s)" for r using scans_word [of s "newline # r"] by (simp add: word_text_def)
    from keyword_says [OF _ _ this _ argument_says [where t = t and w = t and k = token_identifier and s = s and pr = pr]] t assms(1) s(1) show ?thesis by simp
  qed
qed

text \<open>A combination: lower-case modifiers and a key, as the terminal library names them.\<close>

definition key_text :: "string \<Rightarrow> bool" where
  "key_text k \<longleftrightarrow> digits k \<or> (word_text k \<and> (lookup_keyword k \<in> {token_identifier, ''Enter'', ''Space''} \<or>
     is_navigation_key (lookup_keyword k)))"

definition combo_text :: "string \<Rightarrow> bool" where
  "combo_text s \<longleftrightarrow> (\<exists>ms k. s = join_with ''+'' (ms @ [k]) \<and> ms \<noteq> [] \<and> set ms \<subseteq> {''ctrl'', ''alt'', ''shift''} \<and> key_text k)"

lemma join_snoc: "join_with ''+'' (ms @ [k]) = concat (map (\<lambda>m. m @ ''+'') ms) @ k"
proof (induction ms)
  case (Cons m ms)
  obtain y ys where "ms @ [k] = y # ys" by (cases "ms @ [k]") auto
  with Cons show ?case by simp
qed simp

lemma modifier_words: "m \<in> {''ctrl'', ''alt'', ''shift''} \<Longrightarrow> word_text m \<and> is_modifier (lookup_keyword m)"
proof -
  have "\<forall>m\<in>{''ctrl'', ''alt'', ''shift''}. word_text m \<and> is_modifier (lookup_keyword m)"
    unfolding word_text_def by code_simp
  then show "m \<in> {''ctrl'', ''alt'', ''shift''} \<Longrightarrow> ?thesis" by blast
qed

lemma lexes_modifiers:
  "set ms \<subseteq> {''ctrl'', ''alt'', ''shift''} \<Longrightarrow>
   lexes (concat (map (\<lambda>m. m @ ''+'') ms)) r (combo_sigs (map (\<lambda>m. (lookup_keyword m, m)) ms))"
proof (induction ms arbitrary: r)
  case Nil
  show ?case by (simp add: combo_sigs_def lexes_nil)
next
  case (Cons m ms)
  let ?t = "concat (map (\<lambda>m. m @ ''+'') ms)"
  have "lexes m (''+'' @ ?t @ r) [(lookup_keyword m, m)]"
    using lexes_word [of m "''+'' @ ?t @ r"] modifier_words [of m] Cons.prems by simp
  moreover have "lexes ''+'' (?t @ r) [(token_plus, ''+'')]" by (rule lexes_one [OF scans_plus]) simp
  ultimately have "lexes (m @ ''+'') (?t @ r) [(lookup_keyword m, m), (token_plus, ''+'')]"
    using lexes_append [of m "''+''" "?t @ r"] by fastforce
  from lexes_append [OF this Cons.IH] Cons.prems show ?case by (simp add: combo_sigs_def)
qed

lemma combo_line:
  assumes "combo_text s"
  shows "line_says pr s (Some (''KeyCombo'', [s], 0))"
proof -
  obtain ms k where s: "s = join_with ''+'' (ms @ [k])" "ms \<noteq> []" "set ms \<subseteq> {''ctrl'', ''alt'', ''shift''}" "key_text k"
    using assms unfolding combo_text_def by (elim exE conjE)
  let ?ms = "map (\<lambda>m. (lookup_keyword m, m)) ms"
  obtain ty where k: "\<And>r. lexes k (newline # r) [(ty, k)]" "key_sig (ty, k)"
  proof (cases "digits k")
    case True
    have "scans k (newline # r) (token_number, k)" for r by (rule scans_number) (use True in \<open>simp_all add: number_text_def\<close>)
    then show ?thesis by (intro that [of token_number] lexes_one) (simp_all add: key_sig_def)
  next
    case False
    with s(4) show ?thesis by (intro that [of "lookup_keyword k"] lexes_word) (auto simp: key_text_def key_sig_def)
  qed
  have "\<forall>m\<in>set ?ms. is_modifier (fst m)" using s(3) modifier_words by auto
  from combo_says [OF _ this k(2), of pr] s(2)
  have "says pr (combo_sigs ?ms @ [(ty, k)]) (''KeyCombo'', [join_with ''+'' (map snd ?ms @ [k])], 0)" by simp
  moreover have "map snd ?ms = ms" by (induction ms) simp_all
  moreover have "lexes s (newline # r) (combo_sigs ?ms @ [(ty, k)])" for r
    unfolding s(1) join_snoc by (rule lexes_append [OF lexes_modifiers [OF s(3)] k(1)])
  ultimately show ?thesis using s(1) by (intro line_saysI) simp_all
qed

subsection \<open>Files\<close>

definition file_text :: "string list \<Rightarrow> string" where
  "file_text us = concat (map (\<lambda>u. u @ [newline]) us)"

definition said :: "summary option list \<Rightarrow> summary list" where
  "said kos = concat (map (\<lambda>ko. case ko of None \<Rightarrow> [] | Some k \<Rightarrow> [k]) kos)"

lemma said_simps [simp]: "said [] = []" "said (None # ks) = said ks" "said (Some k # ks) = k # said ks"
  "said (a @ b) = said a @ said b"
  by (simp_all add: said_def)

definition line_sigs :: "(nat \<Rightarrow> bool) \<Rightarrow> (string \<times> string) list \<Rightarrow> summary option \<Rightarrow> bool" where
  "line_sigs pr ss ko \<longleftrightarrow> (case ko of None \<Rightarrow> ss = [] | Some k \<Rightarrow> says pr ss k)"

lemma parse_loop_newline:
  "stream p = nl_sig # ss \<Longrightarrow> parse_loop pr p = parse_loop pr (advance p)"
  by (drule stream_cur, subst parse_loop.simps) simp

lemma parse_loop_stream:
  "list_all2 (line_sigs pr) sss kos \<Longrightarrow> stream p = concat (map (\<lambda>ss. ss @ [nl_sig]) sss) @ [eof_sig] \<Longrightarrow>
   map summary (fst (parse_loop pr p)) = said kos \<and> pa_errors (snd (parse_loop pr p)) = pa_errors p"
proof (induction arbitrary: p rule: list_all2_induct)
  case Nil
  then have "cur_type p = token_eof" using stream_cur by auto
  then show ?case by (subst (1 2) parse_loop.simps) simp
next
  case (Cons ss sss ko kos)
  let ?t = "concat (map (\<lambda>ss. ss @ [nl_sig]) sss) @ [eof_sig]"
  have line: ?case if "stream q = nl_sig # ?t" "pa_errors q = pa_errors p" "parse_loop pr p = (cs @ fst (parse_loop pr q), snd (parse_loop pr q))"
      "map summary cs = said [ko]" for q cs
  proof -
    have "stream (advance q) = ?t" using stream_advance [OF that(1)] by simp
    from Cons.IH [OF this] parse_loop_newline [OF that(1), of pr] that(2-4) show ?thesis
      by (cases ko) auto
  qed
  show ?case
  proof (cases ko)
    case None
    then have "stream p = nl_sig # ?t" using Cons.prems Cons.hyps(1) by (simp add: line_sigs_def)
    then show ?thesis by (rule line [of p "[]"]) (simp_all add: None)
  next
    case (Some k)
    with Cons.hyps(1) have s: "says pr ss k" by (simp add: line_sigs_def)
    have p: "stream p = ss @ nl_sig # ?t" using Cons.prems by simp
    from s p have "outcome p k ?t (dispatch pr p)" unfolding says_def by blast
    then obtain c p' where d: "dispatch pr p = (Some c, p')" "summary c = k" "stream p' = nl_sig # ?t" "pa_errors p' = pa_errors p"
      unfolding outcome_def by blast
    have "cur_type p \<noteq> token_newline" "cur_type p \<noteq> token_eof"
      using s p stream_cur [of p "fst (hd ss)" "snd (hd ss)"] by (cases ss; auto simp: says_def)+
    with d(1) have "parse_loop pr p = (c # fst (parse_loop pr p'), snd (parse_loop pr p'))"
      by (subst parse_loop.simps) (simp add: parse_command_def skip_newlines_id split_def Let_def)
    with d show ?thesis by (intro line [of p' "[c]"]) (simp_all add: Some)
  qed
qed

lemma file_sigs:
  assumes "list_all2 (line_says pr) us kos"
  shows "\<exists>sss. list_all2 (line_sigs pr) sss kos \<and> (\<forall>r. lexes (file_text us) r (concat (map (\<lambda>ss. ss @ [nl_sig]) sss)))"
  using assms
proof (induction rule: list_all2_induct)
  case Nil
  show ?case by (intro exI [of _ "[]"]) (simp add: file_text_def lexes_nil)
next
  case (Cons u us ko kos)
  then obtain sss where s: "list_all2 (line_sigs pr) sss kos" "\<And>r. lexes (file_text us) r (concat (map (\<lambda>ss. ss @ [nl_sig]) sss))"
    by blast
  obtain ss where t: "\<And>r. lexes (u @ [newline]) r (ss @ [nl_sig])" "line_sigs pr ss ko"
    using Cons.hyps(1) unfolding line_says_def line_sigs_def by blast
  have "lexes (file_text (u # us)) r (concat (map (\<lambda>ss. ss @ [nl_sig]) (ss # sss)))" for r
    using lexes_append [OF t(1) s(2)] by (simp add: file_text_def)
  with s(1) t(2) show ?case by (intro exI [of _ "ss # sss"]) simp
qed

lemma parse_file_lines:
  assumes "list_all2 (line_says pr) us kos"
  shows "map summary (fst (parse_file pr (file_text us))) = said kos \<and> snd (parse_file pr (file_text us)) = []"
proof -
  obtain sss where s: "list_all2 (line_sigs pr) sss kos" "lexes (file_text us) [] (concat (map (\<lambda>ss. ss @ [nl_sig]) sss))"
    using file_sigs [OF assms] by blast
  let ?l = "new_lexer (file_text us)"
  have "\<exists>l'. lx_ok l' \<and> rest l' = [] \<and> sigs ?l = concat (map (\<lambda>ss. ss @ [nl_sig]) sss) @ sigs l'"
    using s(2) new_lexer_ok [of "file_text us"] unfolding lexes_def by simp
  then have "stream (new_parser ?l) = concat (map (\<lambda>ss. ss @ [nl_sig]) sss) @ [eof_sig]"
    using sigs_end by (auto simp: stream_new)
  from parse_loop_stream [OF s(1) this] show ?thesis
    by (simp add: parse_file_def split_def Let_def new_parser_def)
qed

end
