(* ===== verification/TapeSession.thy ===== *)
theory TapeSession
  imports TapeReplay
begin

text \<open>
  A recording session: the events the program reports to the recorder, one after the other, and the
  tape that comes out of it. Every command the recorder appends is one the parser reads back.
\<close>

subsection \<open>Commands that replay\<close>

definition replayable :: "(nat \<Rightarrow> bool) \<Rightarrow> command \<Rightarrow> bool" where
  "replayable pr c \<longleftrightarrow> cm_delay c < 2 ^ 63 \<and>
     ((cm_type c \<in> set basic_commands \<and> cm_args c = [] \<and> cm_raw c = cm_type c) \<or>
      (cm_type c = ''Type'' \<and> (\<exists>s. cm_args c = [s] \<and> cm_raw c = ''Type '' @ quoted pr s \<and> text_ok pr s)) \<or>
      (cm_type c = ''Sleep'' \<and> 0 \<le> cm_delay c \<and> cm_args c = [duration_string (cm_delay c)] \<and>
         cm_raw c = ''Sleep '' @ duration_string (cm_delay c)) \<or>
      (cm_type c \<in> {''SwitchWorkspace'', ''FocusWindow''} \<and>
         (\<exists>s. cm_args c = [s] \<and> cm_raw c = cm_type c @ '' '' @ s \<and> argument_text (cm_type c) s)) \<or>
      (cm_type c = ''KeyCombo'' \<and> cm_args c = [] \<and> combo_text (cm_raw c)))"

text \<open>
  What is read back for a command: the pause before it, when it is long enough to be written, then the
  command; a combination has its text as the argument, and only a pause keeps its delay.
\<close>

definition replay :: "command \<Rightarrow> summary list" where
  "replay c =
     (if long_pause (cm_delay c) then [(''Sleep'', [duration_string (cm_delay c)], cm_delay c)] else []) @
     [(cm_type c, if cm_type c = ''KeyCombo'' then [cm_raw c] else cm_args c, if cm_type c = ''Sleep'' then cm_delay c else 0)]"

lemma raw_line:
  assumes "replayable pr c"
  shows "line_says pr (cm_raw c)
    (Some (cm_type c, if cm_type c = ''KeyCombo'' then [cm_raw c] else cm_args c, if cm_type c = ''Sleep'' then cm_delay c else 0))"
  using assms unfolding replayable_def
proof (elim conjE disjE exE)
  assume b: "cm_type c \<in> set basic_commands" "cm_args c = []" "cm_raw c = cm_type c"
  then have "cm_type c \<noteq> ''KeyCombo''" "cm_type c \<noteq> ''Sleep''" by (auto simp: basic_commands_def)
  with b basic_line [of "cm_type c" pr] show ?thesis by simp
next
  fix s
  assume "cm_type c = ''Type''" "cm_args c = [s]" "cm_raw c = ''Type '' @ quoted pr s" "text_ok pr s"
  with type_line [of pr s] show ?thesis by simp
next
  assume "cm_delay c < 2 ^ 63" "cm_type c = ''Sleep''" "0 \<le> cm_delay c" "cm_args c = [duration_string (cm_delay c)]"
    "cm_raw c = ''Sleep '' @ duration_string (cm_delay c)"
  with sleep_line [of "cm_delay c" pr] show ?thesis by simp
next
  fix s
  assume a: "cm_type c \<in> {''SwitchWorkspace'', ''FocusWindow''}" "cm_args c = [s]" "cm_raw c = cm_type c @ '' '' @ s"
    "argument_text (cm_type c) s"
  then have "cm_type c \<noteq> ''KeyCombo''" "cm_type c \<noteq> ''Sleep''" by auto
  with a argument_line [OF a(1,4), of pr] show ?thesis by simp
next
  assume "cm_type c = ''KeyCombo''" "cm_args c = []" "combo_text (cm_raw c)"
  with combo_line [of "cm_raw c" pr] show ?thesis by simp
qed

lemma command_lines_say:
  assumes "replayable pr c"
  shows "list_all2 (line_says pr) (command_lines c) (map Some (replay c))"
proof -
  have "line_says pr (''Sleep '' @ duration_string (cm_delay c)) (Some (''Sleep'', [duration_string (cm_delay c)], cm_delay c))"
    if "long_pause (cm_delay c)"
    by (rule sleep_line) (use that assms in \<open>simp_all add: long_pause_def replayable_def\<close>)
  with raw_line [OF assms] show ?thesis by (simp add: command_lines_def replay_def)
qed

lemma said_some: "said (map Some ks) = ks"
  by (induction ks) simp_all

lemma commands_say:
  "\<forall>c\<in>set cs. replayable pr c \<Longrightarrow>
   \<exists>kos. list_all2 (line_says pr) (concat (map command_lines cs)) kos \<and> said kos = concat (map replay cs)"
proof (induction cs)
  case (Cons c cs)
  then obtain kos where k: "list_all2 (line_says pr) (concat (map command_lines cs)) kos" "said kos = concat (map replay cs)" by auto
  have "list_all2 (line_says pr) (concat (map command_lines (c # cs))) (map Some (replay c) @ kos)"
    using list_all2_appendI [OF command_lines_say [of pr c] k(1)] Cons.prems by simp
  moreover have "said (map Some (replay c) @ kos) = concat (map replay (c # cs))" using k(2) by (simp add: said_some)
  ultimately show ?case by blast
qed simp

definition one_line :: "string \<Rightarrow> bool" where
  "one_line s \<longleftrightarrow> newline \<notin> set s \<and> NUL \<notin> set s"

lemma comment_line': "one_line s \<Longrightarrow> line_says pr (''# '' @ s) None"
  using comment_line [of "CHR '' '' # s" pr] by (auto simp: one_line_def)

text \<open>The whole tape.\<close>

lemma tape_replays:
  assumes "\<forall>c\<in>set (rc_commands r). replayable pr c" "one_line header" "one_line stamp"
  shows "map summary (fst (parse_file pr (recorder_string stamp header r))) =
      (''DisableAnimations'', [], 0) # concat (map replay (rc_commands r)) @ [(''EnableAnimations'', [], 0)] \<and>
    snd (parse_file pr (recorder_string stamp header r)) = []"
proof -
  obtain kos where k: "list_all2 (line_says pr) (concat (map command_lines (rc_commands r))) kos"
      "said kos = concat (map replay (rc_commands r))"
    using commands_say [OF assms(1)] by blast
  define hd_us where "hd_us = (if header = [] then [] else [''# '' @ header, ''# Recorded: '' @ stamp, []])"
  have st: "one_line (''Recorded: '' @ stamp)" using assms(3) by (auto simp: one_line_def)
  have h: "list_all2 (line_says pr) hd_us (map (\<lambda>_. None) hd_us)"
    using comment_line' [OF assms(2), of pr] comment_line' [OF st, of pr] blank_line [of pr] by (simp add: hd_us_def)
  have "one_line ''Disable animations for consistent playback''" "one_line ''Re-enable animations''" by (simp_all add: one_line_def)
  from this [THEN comment_line', of pr]
  have c: "line_says pr ''# Disable animations for consistent playback'' None" "line_says pr ''# Re-enable animations'' None" by simp_all
  have a: "line_says pr ''DisableAnimations'' (Some (''DisableAnimations'', [], 0))"
    "line_says pr ''EnableAnimations'' (Some (''EnableAnimations'', [], 0))"
    by (rule basic_line, simp add: basic_commands_def)+
  let ?kos = "map (\<lambda>_. None) hd_us @ [None, Some (''DisableAnimations'', [], 0), None] @ kos @ [None, None, Some (''EnableAnimations'', [], 0)]"
  have "list_all2 (line_says pr) (tape_lines stamp header r) ?kos"
    unfolding tape_lines_def hd_us_def [symmetric] using blank_line [of pr] a c k(1) h
    by (intro list_all2_appendI) simp_all
  from parse_file_lines [OF this]
  have "map summary (fst (parse_file pr (recorder_string stamp header r))) = said ?kos \<and>
      snd (parse_file pr (recorder_string stamp header r)) = []"
    by (simp add: recorder_string_def file_text_def)
  moreover have "said (map (\<lambda>_. None) hd_us) = []" by (induction hd_us) simp_all
  ultimately show ?thesis using k(2) by simp
qed

subsection \<open>Text that grows\<close>

lemma continuation_append: "continuation s i lo hi \<Longrightarrow> continuation (s @ t) i lo hi \<and> (s @ t) ! i = s ! i"
  by (auto simp: continuation_def nth_append)

lemma decode_rune_append:
  assumes "decode_rune s = (r, w)" "s \<noteq> []" "w \<noteq> 1 \<or> r \<noteq> 65533"
  shows "decode_rune (s @ t) = (r, w) \<and> w \<le> length s"
proof -
  have h: "hd (s @ t) = hd s" using assms(2) by simp
  have l: "0 < length s" using assms(2) by simp
  have "w \<noteq> 1 \<Longrightarrow> w \<le> length s"
    using assms(1) by (simp add: decode_rune_def Let_def continuation_def split: if_splits)
  with l have w: "w \<le> length s" by (cases "w = 1") (simp_all add: Suc_le_eq)
  let ?b = "code (hd s)"
  consider "?b < 128" | "194 \<le> ?b \<and> ?b \<le> 223" | "224 \<le> ?b \<and> ?b \<le> 239" | "240 \<le> ?b \<and> ?b \<le> 244"
    | "\<not> ?b < 128" "\<not> (194 \<le> ?b \<and> ?b \<le> 223)" "\<not> (224 \<le> ?b \<and> ?b \<le> 239)" "\<not> (240 \<le> ?b \<and> ?b \<le> 244)" by blast
  then have "decode_rune (s @ t) = (r, w)"
  proof cases
    case 1
    with assms(1) show ?thesis by (simp add: decode_rune_def Let_def h)
  next
    case 2
    with assms(1,3) show ?thesis
      by (auto simp: decode_rune_def Let_def h split: if_splits dest: continuation_append [of s _ _ _ t])
  next
    case 3
    with assms(1,3) show ?thesis
      by (auto simp: decode_rune_def Let_def h split: if_splits dest!: continuation_append [of s _ _ _ t])
  next
    case 4
    with assms(1,3) show ?thesis
      by (auto simp: decode_rune_def Let_def h split: if_splits dest!: continuation_append [of s _ _ _ t])
  next
    case 5
    with assms(1,3) show ?thesis by (auto simp: decode_rune_def Let_def split: if_splits)
  qed
  with w show ?thesis by simp
qed

lemma text_ok_append: "text_ok pr s \<Longrightarrow> text_ok pr t \<Longrightarrow> text_ok pr (s @ t)"
proof (induction pr s rule: text_ok.induct)
  case (1 pr s)
  show ?case
  proof (cases "s = []")
    case False
    obtain q w where d: "decode_rune s = (q, w)" by fastforce
    have ok: "if w = 1 then q \<in> {9, 10, 13} \<or> 32 \<le> q \<and> q \<le> 126 else 128 \<le> q \<and> pr q" "text_ok pr (drop w s)"
      using "1.prems"(1) unfolding text_ok_step [OF d False] by blast+
    then have "w \<noteq> 1 \<or> q \<noteq> 65533" by (cases "w = 1") auto
    from decode_rune_append [OF d False this, of t] have a: "decode_rune (s @ t) = (q, w)" "w \<le> length s" by auto
    have "text_ok pr (drop w s @ t)" by (rule "1.IH" [OF False d [symmetric] refl ok(2) "1.prems"(2)])
    with ok(1) a(2) False show ?thesis by (subst text_ok_step [OF a(1)]) simp_all
  qed (use "1.prems" in simp)
qed

lemma text_ok_empty: "text_ok pr []"
  by (simp add: text_ok.simps)

lemma text_ok_char: "32 \<le> code c \<Longrightarrow> code c < 127 \<Longrightarrow> text_ok pr [c]"
proof -
  assume c: "32 \<le> code c" "code c < 127"
  then have "decode_rune [c] = (code c, 1)" by (simp add: decode_rune_def Let_def)
  from text_ok_step [OF this, of pr] c text_ok_empty [of pr] show "text_ok pr [c]" by simp
qed

subsection \<open>Events\<close>

datatype event =
    Key string
  | Typed string
  | Mode string
  | Action string
  | Workspace int
  | Pause int

text \<open>An event at a moment of the clock.\<close>

fun record_event :: "(nat \<Rightarrow> bool) \<Rightarrow> int \<times> event \<Rightarrow> recorder \<Rightarrow> recorder" where
  "record_event pr (now, Key k) r = record_key pr now k r"
| "record_event pr (now, Typed s) r = record_type now s r"
| "record_event pr (now, Mode t) r = record_mode_switch pr now t r"
| "record_event pr (now, Action a) r = record_action pr now a [] r"
| "record_event pr (now, Workspace n) r = record_workspace_switch pr now n r"
| "record_event pr (now, Pause d) r = record_sleep now d r"

definition time_ok :: "int \<Rightarrow> bool" where "time_ok t \<longleftrightarrow> 0 \<le> t \<and> t < 2 ^ 63"

definition action_ok :: "string \<Rightarrow> bool" where
  "action_ok a \<longleftrightarrow> (has_prefix ''switch_workspace_'' a \<longrightarrow> digits (drop 17 a)) \<and>
     (has_prefix ''select_window_'' a \<longrightarrow> digits (drop 14 a))"

fun event_ok :: "(nat \<Rightarrow> bool) \<Rightarrow> event \<Rightarrow> bool" where
  "event_ok pr (Key k) \<longleftrightarrow> (is_modifier_combo k \<longrightarrow> combo_text k)"
| "event_ok pr (Typed s) \<longleftrightarrow> text_ok pr s"
| "event_ok pr (Mode t) \<longleftrightarrow> t \<in> {''TerminalMode'', ''WindowManagementMode''}"
| "event_ok pr (Action a) \<longleftrightarrow> action_ok a"
| "event_ok pr (Workspace n) \<longleftrightarrow> 0 \<le> n"
| "event_ok pr (Pause d) \<longleftrightarrow> time_ok d"

definition recorder_ok :: "(nat \<Rightarrow> bool) \<Rightarrow> recorder \<Rightarrow> bool" where
  "recorder_ok pr r \<longleftrightarrow> (\<forall>c\<in>set (rc_commands r). replayable pr c) \<and> text_ok pr (rc_buffer r) \<and> 0 \<le> rc_last r"

lemma recorded_sel [simp]:
  "cm_type (recorded t a d raw r) = t" "cm_args (recorded t a d raw r) = a" "cm_delay (recorded t a d raw r) = d"
  "cm_raw (recorded t a d raw r) = raw"
  by (simp_all add: recorded_def)

lemma append_ok: "recorder_ok pr r \<Longrightarrow> replayable pr c \<Longrightarrow> recorder_ok pr (append_command c r)"
  by (auto simp: recorder_ok_def append_command_def)

lemma last_ok: "recorder_ok pr r \<Longrightarrow> time_ok now \<Longrightarrow> recorder_ok pr (r\<lparr>rc_last := now\<rparr>)"
  by (simp add: recorder_ok_def time_ok_def)

lemma flush_ok: "recorder_ok pr r \<Longrightarrow> recorder_ok pr (flush_typing pr r)"
  by (auto simp: flush_typing_def recorder_ok_def append_command_def replayable_def text_ok_empty)

lemma flush_last [simp]: "rc_last (flush_typing pr r) = rc_last r" "rc_enabled (flush_typing pr r) = rc_enabled r"
  by (simp_all add: flush_typing_def append_command_def)

definition shape_ok :: "(nat \<Rightarrow> bool) \<Rightarrow> string \<Rightarrow> string list \<Rightarrow> string \<Rightarrow> bool" where
  "shape_ok pr t a raw \<longleftrightarrow>
     (t \<in> set basic_commands \<and> a = [] \<and> raw = t) \<or>
     (t = ''Type'' \<and> (\<exists>s. a = [s] \<and> raw = ''Type '' @ quoted pr s \<and> text_ok pr s)) \<or>
     (t \<in> {''SwitchWorkspace'', ''FocusWindow''} \<and> (\<exists>s. a = [s] \<and> raw = t @ '' '' @ s \<and> argument_text t s)) \<or>
     (t = ''KeyCombo'' \<and> a = [] \<and> combo_text raw)"

lemma shape_replayable: "shape_ok pr t a raw \<Longrightarrow> d < 2 ^ 63 \<Longrightarrow> replayable pr (recorded t a d raw r)"
  unfolding replayable_def shape_ok_def by auto

lemma record_command_ok:
  assumes "recorder_ok pr r" "time_ok now" "shape_ok pr t a raw"
  shows "recorder_ok pr (record_command pr now t a raw r)"
proof -
  have f: "recorder_ok pr (flush_typing pr r)" by (rule flush_ok [OF assms(1)])
  have "now - rc_last r < 2 ^ 63" using assms(1,2) by (simp add: recorder_ok_def time_ok_def)
  then have "replayable pr (recorded t a (now - rc_last r) raw (flush_typing pr r))" by (rule shape_replayable [OF assms(3)])
  from last_ok [OF append_ok [OF f this] assms(2)] show ?thesis by (simp add: record_command_def Let_def)
qed

lemma key_shape:
  assumes "event_ok pr (Key k)" "key_to_command pr k = Some (t, a, raw)"
  shows "shape_ok pr t a raw"
proof (cases "map_of key_names k")
  case (Some n)
  then have "n \<in> snd ` set key_names" by (force dest: map_of_SomeD)
  then have "n \<in> set basic_commands" by (auto simp: key_names_def basic_commands_def)
  with Some assms(2) show ?thesis by (auto simp: key_to_command_def shape_ok_def)
next
  case None
  show ?thesis
  proof (cases "is_modifier_combo k")
    case True
    with None assms show ?thesis by (simp add: key_to_command_def shape_ok_def)
  next
    case False
    then have k: "length k = 1" "32 \<le> code (hd k)" "code (hd k) < 127" "t = ''Type''" "a = [k]" "raw = ''Type '' @ quoted pr k"
      using None assms(2) by (simp_all add: key_to_command_def split: if_splits)
    then obtain c where "k = [c]" by (cases k) auto
    with k text_ok_char [of c pr] show ?thesis by (simp add: shape_ok_def)
  qed
qed

lemma record_event_ok:
  assumes "recorder_ok pr r" "time_ok now" "event_ok pr e"
  shows "recorder_ok pr (record_event pr (now, e) r)"
proof (cases "rc_enabled r")
  case False
  then show ?thesis using assms(1)
    by (cases e) (simp_all add: record_key_def record_type_def record_mode_switch_def record_action_def
        record_workspace_switch_def record_sleep_def)
next
  case True
  have cmd: "shape_ok pr t a raw \<Longrightarrow> recorder_ok pr (record_command pr now t a raw r)" for t a raw
    by (rule record_command_ok [OF assms(1,2)])
  show ?thesis
  proof (cases e)
    case (Key k)
    show ?thesis
    proof (cases "key_to_command pr k")
      case None
      with True Key flush_ok [OF assms(1)] show ?thesis by (simp add: record_key_def Let_def)
    next
      case (Some x)
      obtain t a raw where x: "x = (t, a, raw)" by (cases x) auto
      have "shape_ok pr t a raw" using key_shape [of pr k t a raw] assms(3) Some Key x by simp
      from cmd [OF this] True Key Some x show ?thesis by (simp add: record_key_def record_command_def Let_def)
    qed
  next
    case (Typed s)
    with True assms(1,2,3) show ?thesis
      by (auto simp: record_type_def recorder_ok_def time_ok_def intro: text_ok_append)
  next
    case (Mode t)
    then have "shape_ok pr t [] t" using assms(3) by (auto simp: shape_ok_def basic_commands_def)
    from cmd [OF this] True Mode show ?thesis by (simp add: record_mode_switch_def)
  next
    case (Action a)
    have dig: "digits s \<Longrightarrow> t \<in> {''SwitchWorkspace'', ''FocusWindow''} \<Longrightarrow> shape_ok pr t [s] (t @ '' '' @ s)" for s t
      by (auto simp: shape_ok_def argument_text_def)
    have act: "shape_ok pr t [] t" if "map_of action_to_command a = Some t" for t
    proof -
      from that have "t \<in> snd ` set action_to_command" by (force dest: map_of_SomeD)
      then show ?thesis by (auto simp: action_to_command_def shape_ok_def basic_commands_def)
    qed
    have ws: "recorder_ok pr (record_command pr now ''SwitchWorkspace'' [drop 17 a] (''SwitchWorkspace '' @ drop 17 a) r)"
      if "has_prefix ''switch_workspace_'' a"
      using cmd [OF dig [of "drop 17 a" "''SwitchWorkspace''"]] that assms(3) Action by (simp add: action_ok_def)
    have win: "recorder_ok pr (record_command pr now ''FocusWindow'' [drop 14 a] (''FocusWindow '' @ drop 14 a) r)"
      if "has_prefix ''select_window_'' a"
      using cmd [OF dig [of "drop 14 a" "''FocusWindow''"]] that assms(3) Action by (simp add: action_ok_def)
    have "recorder_ok pr (record_action pr now a [] r)"
      unfolding record_action_def Let_def
      using True assms(1) flush_ok [OF assms(1)] ws win cmd [OF act] by (simp split: option.splits)
    with Action show ?thesis by simp
  next
    case (Workspace n)
    then have "digits (int_string n)" using assms(3) nat_string_digits by (simp add: int_string_def)
    then have "shape_ok pr ''SwitchWorkspace'' [int_string n] (''SwitchWorkspace'' @ '' '' @ int_string n)"
      by (simp add: shape_ok_def argument_text_def)
    from cmd [OF this] True Workspace show ?thesis by (simp add: record_workspace_switch_def)
  next
    case (Pause d)
    then have "replayable pr (recorded ''Sleep'' [duration_string d] d (''Sleep '' @ duration_string d) r)"
      using assms(3) by (simp add: replayable_def time_ok_def)
    from last_ok [OF append_ok [OF assms(1) this] assms(2)] True Pause show ?thesis by (simp add: record_sleep_def)
  qed
qed

lemma start_ok:
  assumes "text_ok pr (rc_buffer r)" "time_ok now"
  shows "recorder_ok pr (start_with_state now mode ws tiling r)"
proof -
  have ap: "recorder_ok pr x \<Longrightarrow> shape_ok pr t a raw \<Longrightarrow> recorder_ok pr (append_command (recorded t a 0 raw x) x)" for x t a raw
    using append_ok shape_replayable [of pr t a raw 0] by simp
  have basic: "t \<in> set basic_commands \<Longrightarrow> shape_ok pr t [] t" for t by (simp add: shape_ok_def)
  have b: "''EnableTiling'' \<in> set basic_commands" "''DisableTiling'' \<in> set basic_commands"
    "''TerminalMode'' \<in> set basic_commands" "''WindowManagementMode'' \<in> set basic_commands" by (simp_all add: basic_commands_def)
  have w: "shape_ok pr ''SwitchWorkspace'' [int_string ws] (''SwitchWorkspace '' @ int_string ws)" if "ws > 1"
    using that nat_string_digits by (auto simp: shape_ok_def argument_text_def int_string_def)
  define s where "s = (start_recording now r)\<lparr>rc_mode := mode, rc_workspace := ws, rc_tiling := tiling\<rparr>"
  have s: "recorder_ok pr s" using assms by (simp add: s_def start_recording_def recorder_ok_def time_ok_def)
  define s1 where "s1 = (if ws > 1 then append_command
     (recorded ''SwitchWorkspace'' [int_string ws] 0 (''SwitchWorkspace '' @ int_string ws) s) s else s)"
  have s1: "recorder_ok pr s1" using s ap [OF s w] by (simp add: s1_def)
  define t where "t = (if tiling then ''EnableTiling'' else ''DisableTiling'')"
  define m where "m = (if mode = ''terminal'' then ''TerminalMode'' else ''WindowManagementMode'')"
  have tm: "t \<in> set basic_commands" "m \<in> set basic_commands" unfolding t_def m_def using b by simp_all
  have "recorder_ok pr (append_command (recorded t [] 0 t s1) s1)" by (rule ap [OF s1 basic [OF tm(1)]])
  from ap [OF this basic [OF tm(2)]] show ?thesis
    by (simp only: start_with_state_def Let_def s_def s1_def t_def m_def)
qed

text \<open>The recorder after a session: started, told the events, stopped.\<close>

definition recorded_session :: "(nat \<Rightarrow> bool) \<Rightarrow> int \<Rightarrow> string \<Rightarrow> int \<Rightarrow> bool \<Rightarrow> (int \<times> event) list \<Rightarrow> recorder \<Rightarrow> recorder" where
  "recorded_session pr now mode ws tiling es r = stop_recording pr (fold (record_event pr) es (start_with_state now mode ws tiling r))"

lemma recorded_session_ok:
  assumes "text_ok pr (rc_buffer r)" "time_ok now" "\<forall>(t, e)\<in>set es. time_ok t \<and> event_ok pr e"
  shows "recorder_ok pr (recorded_session pr now mode ws tiling es r)"
proof -
  have "recorder_ok pr x \<Longrightarrow> \<forall>(t, e)\<in>set es. time_ok t \<and> event_ok pr e \<Longrightarrow> recorder_ok pr (fold (record_event pr) es x)" for x
    by (induction es arbitrary: x) (auto intro: record_event_ok)
  from flush_ok [OF this [OF start_ok [OF assms(1,2)] assms(3)]] show ?thesis
    by (simp add: recorded_session_def stop_recording_def recorder_ok_def)
qed


definition sample_events :: "(int \<times> event) list" where
  "sample_events = [(1000000000, Typed ''say ''), (1000000001, Typed [dquote, CHR ''x'', newline]), (2500000000, Key ''enter''),
     (2500000003, Key ''ctrl+b''), (2600000000, Action ''new_window''), (2700000000, Workspace 3)]"

lemma fmt_frac_numeral:
  "fmt_frac (numeral n) v pr acc =
     (let d = v mod 10; pr' = (pr \<or> d \<noteq> 0) in fmt_frac (pred_numeral n) (v div 10) pr' (if pr' then digit_char d # acc else acc))"
  by (subst numeral_eq_Suc) (rule fmt_frac.simps)

lemma digit_chars:
  "digit_char (Suc 0) = CHR ''1''" "digit_char 1 = CHR ''1''" "digit_char 4 = CHR ''4''" "digit_char 9 = CHR ''9''"
  by code_simp+

lemma digit_three: "int_string 3 = ''3''"
  by code_simp

lemmas session_defs = recorded_session_def stop_recording_def start_with_state_def start_recording_def append_command_def
  new_recorder_def flush_typing_def record_key_def record_type_def record_action_def record_workspace_switch_def
  record_command_def recorded_def key_to_command_def key_names_def is_modifier_combo_def has_prefix_def
  action_to_command_def Let_def


end
