(* ===== verification/TapePlayer.thy ===== *)
theory TapePlayer
  imports TapeExecutor
begin

text \<open>
  Around the tape language: the player that walks through a parsed tape (\<^verbatim>\<open>player.go\<close>), the key
  combinations other parts of the program parse (\<^verbatim>\<open>command.go\<close>), and the declarative header of a
  project tape (\<^verbatim>\<open>header.go\<close>). Trimming and case folding are those of ASCII text.
\<close>

subsection \<open>The player\<close>

record player =
  pl_commands :: "command list"
  pl_index :: nat
  pl_paused :: bool
  pl_finished :: bool
  pl_delay :: int

definition new_player :: "command list \<Rightarrow> player" where
  "new_player cs = \<lparr>pl_commands = cs, pl_index = 0, pl_paused = False, pl_finished = False, pl_delay = 0\<rparr>"

definition next_command :: "player \<Rightarrow> command option" where
  "next_command p = (if pl_index p \<ge> length (pl_commands p) then None else Some (pl_commands p ! pl_index p))"

definition advance_player :: "player \<Rightarrow> player" where
  "advance_player p =
     (let q = (if pl_index p < length (pl_commands p) then p\<lparr>pl_index := pl_index p + 1\<rparr> else p)
      in if pl_index q \<ge> length (pl_commands q) then q\<lparr>pl_finished := True\<rparr> else q)"

definition set_paused :: "bool \<Rightarrow> player \<Rightarrow> player" where
  "set_paused b p = p\<lparr>pl_paused := b\<rparr>"

definition reset_player :: "player \<Rightarrow> player" where
  "reset_player p = p\<lparr>pl_index := 0, pl_paused := False, pl_finished := False, pl_delay := 0\<rparr>"

definition player_progress :: "player \<Rightarrow> nat" where
  "player_progress p = (if pl_commands p = [] then 100 else (pl_index p * 100) div length (pl_commands p))"

text \<open>
  A caller's loop: fetch, hand out, advance. What it hands out is every command, in order, once, and
  afterwards the player is finished.
\<close>

function play :: "player \<Rightarrow> command list \<times> player" where
  "play p = (case next_command p of None \<Rightarrow> ([], p) | Some c \<Rightarrow> let (cs, q) = play (advance_player p) in (c # cs, q))"
  by pat_completeness auto
termination
  by (relation "measure (\<lambda>p. length (pl_commands p) - pl_index p)")
    (auto simp: next_command_def advance_player_def Let_def split: if_splits)

declare play.simps [simp del]

lemma advance_commands [simp]: "pl_commands (advance_player p) = pl_commands p"
  by (simp add: advance_player_def Let_def)

lemma advance_index: "pl_index p < length (pl_commands p) \<Longrightarrow> pl_index (advance_player p) = Suc (pl_index p)"
  by (simp add: advance_player_def Let_def)

lemma play_all:
  "fst (play p) = drop (pl_index p) (pl_commands p) \<and> pl_commands (snd (play p)) = pl_commands p \<and>
   (pl_index p < length (pl_commands p) \<longrightarrow> pl_finished (snd (play p)))"
proof (induction p rule: play.induct)
  case (1 p)
  show ?case
  proof (cases "pl_index p < length (pl_commands p)")
    case True
    then have n: "next_command p = Some (pl_commands p ! pl_index p)" by (simp add: next_command_def)
    let ?q = "advance_player p"
    have pl: "play p = (pl_commands p ! pl_index p # fst (play ?q), snd (play ?q))"
      by (subst play.simps) (simp add: n split_def Let_def)
    note ih = "1.IH" [OF n]
    have last: "snd (play ?q) = ?q" "pl_finished ?q" if "\<not> pl_index ?q < length (pl_commands ?q)"
    proof -
      from that have "next_command ?q = None" by (simp add: next_command_def)
      then show "snd (play ?q) = ?q" by (subst play.simps) simp
      have "length (pl_commands p) \<le> Suc (pl_index p)" using that advance_index [OF True] by simp
      then show "pl_finished ?q" using True by (simp add: advance_player_def Let_def)
    qed
    show ?thesis
      using ih last advance_index [OF True] True by (auto simp: pl Cons_nth_drop_Suc)
  next
    case False
    then show ?thesis by (subst (1 2) play.simps) (simp add: next_command_def)
  qed
qed

lemma play_new: "fst (play (new_player cs)) = cs \<and> (cs \<noteq> [] \<longrightarrow> pl_finished (snd (play (new_player cs))))"
  using play_all [of "new_player cs"] by (simp add: new_player_def)

lemma progress_bounds: "pl_index p \<le> length (pl_commands p) \<Longrightarrow> player_progress p \<le> 100"
  using div_le_mono [of "pl_index p * 100" "length (pl_commands p) * 100" "length (pl_commands p)"]
  by (auto simp: player_progress_def)

subsection \<open>Key combinations\<close>

record key_combo =
  kc_ctrl :: bool
  kc_alt :: bool
  kc_shift :: bool
  kc_key :: string

definition key_combo_string :: "key_combo \<Rightarrow> string" where
  "key_combo_string k =
     (if kc_ctrl k then ''Ctrl+'' else []) @ (if kc_alt k then ''Alt+'' else []) @
     (if kc_shift k then ''Shift+'' else []) @ kc_key k"

text \<open>\<^verbatim>\<open>string(b)\<close> of a byte: its code point encoded, two bytes from 128 on.\<close>

definition byte_string :: "char \<Rightarrow> string" where
  "byte_string c = (if code c < 128 then [c] else [char_of (192 + code c div 64), char_of (128 + code c mod 64)])"

fun combo_parts :: "string \<Rightarrow> string \<Rightarrow> string list" where
  "combo_parts cur [] = (if cur = [] then [] else [cur])"
| "combo_parts cur (c # cs) =
     (if c = CHR ''+'' then (if cur = [] then combo_parts [] cs else cur # combo_parts [] cs)
      else combo_parts (cur @ byte_string c) cs)"

fun apply_modifiers :: "string list \<Rightarrow> key_combo \<Rightarrow> key_combo option" where
  "apply_modifiers [] k = Some k"
| "apply_modifiers (m # ms) k =
     (let l = to_lower m
      in if l = ''ctrl'' then apply_modifiers ms (k\<lparr>kc_ctrl := True\<rparr>)
         else if l = ''alt'' \<or> l = ''opt'' then apply_modifiers ms (k\<lparr>kc_alt := True\<rparr>)
         else if l = ''shift'' then apply_modifiers ms (k\<lparr>kc_shift := True\<rparr>)
         else None)"

definition parse_combo :: "string \<Rightarrow> key_combo option" where
  "parse_combo s =
     (let parts = combo_parts [] s
      in if parts = [] then None
         else apply_modifiers (butlast parts) \<lparr>kc_ctrl = False, kc_alt = False, kc_shift = False, kc_key = last parts\<rparr>)"

lemma combo_parts_key:
  "\<forall>c\<in>set s. c \<noteq> CHR ''+'' \<and> code c < 128 \<Longrightarrow> cur @ s \<noteq> [] \<Longrightarrow> combo_parts cur s = [cur @ s]"
  by (induction s arbitrary: cur) (auto simp: byte_string_def)

lemma combo_parts_word:
  "\<forall>c\<in>set w. c \<noteq> CHR ''+'' \<and> code c < 128 \<Longrightarrow> cur @ w \<noteq> [] \<Longrightarrow> combo_parts cur (w @ CHR ''+'' # s) = (cur @ w) # combo_parts [] s"
  by (induction w arbitrary: cur) (auto simp: byte_string_def)

lemma parse_combo_string:
  assumes "kc_key k \<noteq> []" "\<forall>c\<in>set (kc_key k). c \<noteq> CHR ''+'' \<and> code c < 128"
  shows "parse_combo (key_combo_string k) = Some k"
proof -
  have w: "combo_parts [] (''Ctrl+'' @ s) = ''Ctrl'' # combo_parts [] s" "combo_parts [] (''Alt+'' @ s) = ''Alt'' # combo_parts [] s"
    "combo_parts [] (''Shift+'' @ s) = ''Shift'' # combo_parts [] s" for s
    using combo_parts_word [of "''Ctrl''" "[]" s] combo_parts_word [of "''Alt''" "[]" s] combo_parts_word [of "''Shift''" "[]" s]
    by (simp_all add: code_def)
  have l: "to_lower ''Ctrl'' = ''ctrl''" "to_lower ''Alt'' = ''alt''" "to_lower ''Shift'' = ''shift''" by code_simp+
  note k = combo_parts_key [OF assms(2), of "[]"]
  show ?thesis
    using assms(1) k by (cases "kc_ctrl k"; cases "kc_alt k"; cases "kc_shift k")
      (simp_all only: key_combo_string_def parse_combo_def if_True if_False append_Nil w Let_def, simp_all add: l)
qed

subsection \<open>The header of a project tape\<close>

record project_header =
  ph_session :: string
  ph_scope :: string
  ph_workspace :: int
  ph_requires :: "string list"
  ph_has :: bool

definition header_keywords :: "string list" where
  "header_keywords = [''session'', ''scope'', ''workspace'', ''require'']"

definition split_first_field :: "string \<Rightarrow> string \<times> string" where
  "split_first_field s =
     (let w = takeWhile (\<lambda>c. c \<noteq> CHR '' '' \<and> c \<noteq> CHR 0x09) s in (w, drop (length w + 1) s))"

definition unquote :: "string \<Rightarrow> string" where
  "unquote s0 =
     (let s = trim_space s0
      in if length s \<ge> 2 \<and> ((hd s = dquote \<and> last s = dquote) \<or> (hd s = squote \<and> last s = squote))
         then butlast (tl s) else s)"

definition apply_directive :: "string \<Rightarrow> string \<Rightarrow> project_header \<Rightarrow> project_header" where
  "apply_directive keyword rst h =
     (let k = to_lower keyword
      in if k = ''session'' then h\<lparr>ph_session := unquote (trim_space rst)\<rparr>
         else if k = ''scope''
         then h\<lparr>ph_scope := (if to_lower (trim_space (unquote rst)) = ''current'' then ''current'' else ''session'')\<rparr>
         else if k = ''workspace''
         then (case go_atoi (trim_space (unquote rst)) of Some n \<Rightarrow> if n \<ge> 0 then h\<lparr>ph_workspace := n\<rparr> else h | None \<Rightarrow> h)
         else if k = ''require''
         then (let c = unquote (trim_space rst) in if c \<noteq> [] then h\<lparr>ph_requires := ph_requires h @ [c]\<rparr> else h)
         else h)"

definition is_filler :: "string \<Rightarrow> bool" where
  "is_filler line \<longleftrightarrow> (let t = trim_space line in t = [] \<or> hd t = CHR ''#'')"

definition is_directive :: "string \<Rightarrow> bool" where
  "is_directive line \<longleftrightarrow> to_lower (fst (split_first_field (trim_space line))) \<in> set header_keywords"

text \<open>The loop over the lines: the header so far and the lines of the body.\<close>

fun header_lines :: "project_header \<Rightarrow> string list \<Rightarrow> project_header \<times> string list" where
  "header_lines h [] = (h, [])"
| "header_lines h (line # ls) =
     (if is_filler line then header_lines h ls
      else if is_directive line
      then let (k, r) = split_first_field (trim_space line) in header_lines ((apply_directive k r h)\<lparr>ph_has := True\<rparr>) ls
      else (h, line # ls))"

definition split_lines :: "string \<Rightarrow> string list" where
  "split_lines = split_on newline"

definition empty_header :: project_header where
  "empty_header = \<lparr>ph_session = [], ph_scope = ''session'', ph_workspace = 0, ph_requires = [], ph_has = False\<rparr>"

definition parse_project_header :: "string \<Rightarrow> project_header \<times> string" where
  "parse_project_header s =
     (let (h, body) = header_lines empty_header (split_lines s)
      in (h, join_with [newline] body))"

lemma split_on_nonempty: "split_on sep s \<noteq> []"
  by (cases s) (auto split: list.splits)

lemma join_split: "join_with [sep] (split_on sep s) = s"
proof (induction s)
  case (Cons c cs)
  obtain p ps where "split_on sep cs = p # ps" using split_on_nonempty [of sep cs] by (cases "split_on sep cs") auto
  with Cons show ?case by (cases ps) auto
qed simp

lemma header_lines_suffix:
  "\<exists>pre. ls = pre @ snd (header_lines h ls) \<and> (\<forall>l\<in>set pre. is_filler l \<or> is_directive l) \<and>
     (case snd (header_lines h ls) of [] \<Rightarrow> True | l # _ \<Rightarrow> \<not> is_filler l \<and> \<not> is_directive l) \<and>
     (ph_has (fst (header_lines h ls)) \<longleftrightarrow> ph_has h \<or> (\<exists>l\<in>set pre. is_directive l \<and> \<not> is_filler l))"
proof (induction h ls rule: header_lines.induct)
  case (1 h)
  show ?case by simp
next
  case (2 h line ls)
  consider "is_filler line" | "\<not> is_filler line" "is_directive line" | "\<not> is_filler line" "\<not> is_directive line" by blast
  then show ?case
  proof cases
    case 1
    then obtain pre where "ls = pre @ snd (header_lines h ls)" "\<forall>l\<in>set pre. is_filler l \<or> is_directive l"
        "case snd (header_lines h ls) of [] \<Rightarrow> True | l # _ \<Rightarrow> \<not> is_filler l \<and> \<not> is_directive l"
        "ph_has (fst (header_lines h ls)) \<longleftrightarrow> ph_has h \<or> (\<exists>l\<in>set pre. is_directive l \<and> \<not> is_filler l)"
      using "2.IH"(1) by blast
    with 1 show ?thesis by (intro exI [of _ "line # pre"]) simp
  next
    case 2
    obtain k r where kr: "split_first_field (trim_space line) = (k, r)" by fastforce
    let ?h = "(apply_directive k r h)\<lparr>ph_has := True\<rparr>"
    obtain pre where "ls = pre @ snd (header_lines ?h ls)" "\<forall>l\<in>set pre. is_filler l \<or> is_directive l"
        "case snd (header_lines ?h ls) of [] \<Rightarrow> True | l # _ \<Rightarrow> \<not> is_filler l \<and> \<not> is_directive l"
        "ph_has (fst (header_lines ?h ls)) \<longleftrightarrow> ph_has ?h \<or> (\<exists>l\<in>set pre. is_directive l \<and> \<not> is_filler l)"
      using "2.IH"(2) [OF 2 kr [symmetric]] by blast
    with 2 kr show ?thesis by (intro exI [of _ "line # pre"]) simp
  next
    case 3
    then show ?thesis by (intro exI [of _ "[]"]) simp
  qed
qed

text \<open>The body is a verbatim tail of the file that starts with the first line that is neither header nor filler.\<close>

lemma header_body:
  "\<exists>pre body. split_lines s = pre @ body \<and> snd (parse_project_header s) = join_with [newline] body \<and>
     (\<forall>l\<in>set pre. is_filler l \<or> is_directive l) \<and>
     (body \<noteq> [] \<longrightarrow> \<not> is_filler (hd body) \<and> \<not> is_directive (hd body)) \<and> (pre = [] \<longrightarrow> snd (parse_project_header s) = s)"
proof -
  obtain h body where b: "header_lines empty_header (split_lines s) = (h, body)" by fastforce
  obtain pre where "split_lines s = pre @ body" "\<forall>l\<in>set pre. is_filler l \<or> is_directive l"
      "case body of [] \<Rightarrow> True | l # _ \<Rightarrow> \<not> is_filler l \<and> \<not> is_directive l"
    using header_lines_suffix [of "split_lines s" empty_header] b by auto
  moreover have "snd (parse_project_header s) = join_with [newline] body" by (simp add: parse_project_header_def b)
  moreover have "join_with [newline] (split_lines s) = s" by (simp add: split_lines_def join_split)
  ultimately show ?thesis by (intro exI [of _ pre] exI [of _ body]) (auto split: list.splits)
qed

end
