(* ===== verification/VtCells.thy ===== *)
theory VtCells
  imports TermCell
begin

text \<open>
  A row of the virtual terminal and its wide runes (\<^verbatim>\<open>internal/vt/screen.go\<close>). A rune of width \<open>w\<close>
  is a lead cell of that width and \<open>w - 1\<close> continuation cells of width 0; a row is whole when it is a
  sequence of such runes. The functions here are the ones that cut runes and the one that repairs a
  row after a shift.
\<close>

subsection \<open>Cells\<close>

text \<open>The blank of the current pen: its background and nothing else; \<open>None\<close> without a background.\<close>

definition blank_cell :: "style \<Rightarrow> cell option" where
  "blank_cell p = (if st_bg p = None then None else Some (empty_cell\<lparr>c_style := plain_style\<lparr>st_bg := st_bg p\<rparr>\<rparr>))"

definition erase_cell :: "style \<Rightarrow> cell" where
  "erase_cell p = (case blank_cell p of None \<Rightarrow> empty_cell | Some c \<Rightarrow> c)"

lemma erase_width [simp]: "c_width (erase_cell p) = 1"
  by (simp add: erase_cell_def blank_cell_def empty_cell_def)

subsection \<open>Whole rows\<close>

text \<open>The cells a rune has after its lead.\<close>

definition tail_width :: "cell \<Rightarrow> nat" where "tail_width c = nat (c_width c - 1)"

function whole_row :: "cell list \<Rightarrow> bool" where
  "whole_row [] \<longleftrightarrow> True"
| "whole_row (c # cs) \<longleftrightarrow> 1 \<le> c_width c \<and> tail_width c \<le> length cs \<and>
     (\<forall>d\<in>set (take (tail_width c) cs). c_width d = 0) \<and> whole_row (drop (tail_width c) cs)"
  by pat_completeness auto
termination by (relation "measure length") auto

lemma whole_append: "whole_row a \<Longrightarrow> whole_row (a @ b) \<longleftrightarrow> whole_row b"
  by (induction a rule: whole_row.induct) auto

lemma whole_narrow: "\<forall>c\<in>set r. c_width c = 1 \<Longrightarrow> whole_row r"
  by (induction r) (auto simp: tail_width_def)

text \<open>
  \<^verbatim>\<open>repairWide\<close>: the row after a shift, every half of a rune whose other half is gone made a space.
  \<open>e\<close> is \<^verbatim>\<open>Cell.Empty\<close>.
\<close>

function repair_wide :: "(cell \<Rightarrow> cell) \<Rightarrow> cell list \<Rightarrow> cell list" where
  "repair_wide e [] = []"
| "repair_wide e (c # cs) =
     (if c_width c > 1
      then if tail_width c \<le> length cs \<and> (\<forall>d\<in>set (take (tail_width c) cs). c_width d = 0)
           then c # take (tail_width c) cs @ repair_wide e (drop (tail_width c) cs)
           else e c # repair_wide e cs
      else if c_width c = 0 then e c # repair_wide e cs
      else c # repair_wide e cs)"
  by pat_completeness auto
termination by (relation "measure (\<lambda>(e, r). length r)") auto

lemma length_repair [simp]: "length (repair_wide e r) = length r"
  by (induction e r rule: repair_wide.induct) auto

lemma repair_whole:
  "(\<And>c. c_width (e c) = 1) \<Longrightarrow> \<forall>c\<in>set r. 0 \<le> c_width c \<Longrightarrow> whole_row (repair_wide e r)"
proof (induction e r rule: repair_wide.induct)
  case (2 e c cs)
  let ?fits = "tail_width c \<le> length cs \<and> (\<forall>d\<in>set (take (tail_width c) cs). c_width d = 0)"
  have one: "tail_width (e c) = 0" "1 \<le> c_width (e c)" using "2.prems"(1) [of c] by (simp_all add: tail_width_def)
  have r: "\<forall>d\<in>set cs. 0 \<le> c_width d" "0 \<le> c_width c" using "2.prems"(2) by auto
  have blanked: "whole_row (repair_wide e cs) \<Longrightarrow> whole_row (e c # repair_wide e cs)" using one by simp
  consider "c_width c > 1" "?fits" | "c_width c > 1" "\<not> ?fits" | "c_width c = 0" | "c_width c = 1" using r(2) by linarith
  then show ?case
  proof cases
    case 1
    have d: "\<forall>d\<in>set (drop (tail_width c) cs). 0 \<le> c_width d" using r(1) by (meson in_set_dropD)
    have w: "whole_row (repair_wide e (drop (tail_width c) cs))" by (rule "2.IH"(1) [OF 1 "2.prems"(1) d])
    have eq: "repair_wide e (c # cs) = c # take (tail_width c) cs @ repair_wide e (drop (tail_width c) cs)"
      using 1 by (subst repair_wide.simps) simp
    show ?thesis unfolding eq using 1 w by simp
  next
    case 2
    then have "repair_wide e (c # cs) = e c # repair_wide e cs" by (subst repair_wide.simps) argo
    with blanked [OF "2.IH"(2) [OF 2 "2.prems"(1) r(1)]] show ?thesis by simp
  next
    case 3
    then have "repair_wide e (c # cs) = e c # repair_wide e cs" by simp
    moreover have "\<not> c_width c > 1" using 3 by simp
    ultimately show ?thesis using blanked [OF "2.IH"(3) [OF _ 3 "2.prems"(1) r(1)]] by simp
  next
    case 4
    then have "repair_wide e (c # cs) = c # repair_wide e cs" "\<not> c_width c > 1" "c_width c \<noteq> 0" by simp_all
    moreover from this have "whole_row (repair_wide e cs)" using "2.IH"(4) [OF _ _ "2.prems"(1) r(1)] by simp
    ultimately show ?thesis using 4 by (simp add: tail_width_def)
  qed
qed simp

lemma repair_id: "whole_row r \<Longrightarrow> repair_wide e r = r"
proof (induction r rule: whole_row.induct)
  case (2 c cs)
  show ?case
  proof (cases "c_width c = 1")
    case True
    with 2 show ?thesis by (simp add: tail_width_def)
  next
    case False
    with 2 show ?thesis by simp
  qed
qed simp

lemma repair_idem:
  "(\<And>c. c_width (e c) = 1) \<Longrightarrow> \<forall>c\<in>set r. 0 \<le> c_width c \<Longrightarrow> repair_wide e (repair_wide e r) = repair_wide e r"
  by (rule repair_id [OF repair_whole])

text \<open>Rows of runes of one and two columns, read locally.\<close>

definition locally_whole :: "cell list \<Rightarrow> bool" where
  "locally_whole r \<longleftrightarrow> (\<forall>i<length r. c_width (r ! i) \<in> {0, 1, 2} \<and>
     (c_width (r ! i) = 2 \<longrightarrow> Suc i < length r \<and> c_width (r ! Suc i) = 0) \<and>
     (c_width (r ! i) = 0 \<longrightarrow> 0 < i \<and> c_width (r ! (i - 1)) = 2))"

lemma locally_Cons1:
  assumes "c_width c = 1"
  shows "locally_whole (c # cs) \<longleftrightarrow> locally_whole cs"
proof
  assume l: "locally_whole (c # cs)"
  show "locally_whole cs"
    unfolding locally_whole_def
  proof (intro allI impI)
    fix i
    assume i: "i < length cs"
    then have *: "c_width (cs ! i) \<in> {0, 1, 2}" "c_width (cs ! i) = 2 \<longrightarrow> Suc i < length cs \<and> c_width (cs ! Suc i) = 0"
      "c_width (cs ! i) = 0 \<longrightarrow> c_width ((c # cs) ! i) = 2"
      using l [unfolded locally_whole_def, rule_format, of "Suc i"] by auto
    then have "c_width (cs ! i) = 0 \<longrightarrow> 0 < i \<and> c_width (cs ! (i - 1)) = 2"
      using assms by (cases i) auto
    with * show "c_width (cs ! i) \<in> {0, 1, 2} \<and> (c_width (cs ! i) = 2 \<longrightarrow> Suc i < length cs \<and> c_width (cs ! Suc i) = 0) \<and>
        (c_width (cs ! i) = 0 \<longrightarrow> 0 < i \<and> c_width (cs ! (i - 1)) = 2)" by blast
  qed
next
  assume l: "locally_whole cs"
  show "locally_whole (c # cs)"
    unfolding locally_whole_def
  proof (intro allI impI)
    fix i
    assume i: "i < length (c # cs)"
    show "c_width ((c # cs) ! i) \<in> {0, 1, 2} \<and>
        (c_width ((c # cs) ! i) = 2 \<longrightarrow> Suc i < length (c # cs) \<and> c_width ((c # cs) ! Suc i) = 0) \<and>
        (c_width ((c # cs) ! i) = 0 \<longrightarrow> 0 < i \<and> c_width ((c # cs) ! (i - 1)) = 2)"
    proof (cases i)
      case (Suc n)
      with i l [unfolded locally_whole_def, rule_format, of n] show ?thesis by (cases n) auto
    qed (use assms in simp)
  qed
qed

lemma locally_Cons2:
  assumes "c_width c = 2"
  shows "locally_whole (c # cs) \<longleftrightarrow> (\<exists>d ds. cs = d # ds \<and> c_width d = 0 \<and> locally_whole ds)"
proof
  assume l: "locally_whole (c # cs)"
  then have "Suc 0 < length (c # cs)" "c_width ((c # cs) ! Suc 0) = 0"
    using assms l [unfolded locally_whole_def, rule_format, of 0] by auto
  then obtain d ds where cs: "cs = d # ds" "c_width d = 0" by (cases cs) auto
  have "locally_whole ds"
    unfolding locally_whole_def
  proof (intro allI impI)
    fix i
    assume "i < length ds"
    then have *: "c_width (ds ! i) \<in> {0, 1, 2}" "c_width (ds ! i) = 2 \<longrightarrow> Suc i < length ds \<and> c_width (ds ! Suc i) = 0"
      "c_width (ds ! i) = 0 \<longrightarrow> c_width ((d # ds) ! i) = 2"
      using l [unfolded locally_whole_def, rule_format, of "Suc (Suc i)"] by (auto simp: cs)
    then have "c_width (ds ! i) = 0 \<longrightarrow> 0 < i \<and> c_width (ds ! (i - 1)) = 2" using cs(2) by (cases i) auto
    with * show "c_width (ds ! i) \<in> {0, 1, 2} \<and> (c_width (ds ! i) = 2 \<longrightarrow> Suc i < length ds \<and> c_width (ds ! Suc i) = 0) \<and>
        (c_width (ds ! i) = 0 \<longrightarrow> 0 < i \<and> c_width (ds ! (i - 1)) = 2)" by blast
  qed
  with cs show "\<exists>d ds. cs = d # ds \<and> c_width d = 0 \<and> locally_whole ds" by blast
next
  assume "\<exists>d ds. cs = d # ds \<and> c_width d = 0 \<and> locally_whole ds"
  then obtain d ds where cs: "cs = d # ds" "c_width d = 0" "locally_whole ds" by blast
  show "locally_whole (c # cs)"
    unfolding locally_whole_def
  proof (intro allI impI)
    fix i
    assume i: "i < length (c # cs)"
    consider "i = 0" | "i = 1" | n where "i = Suc (Suc n)" by (metis One_nat_def not0_implies_Suc)
    then show "c_width ((c # cs) ! i) \<in> {0, 1, 2} \<and>
        (c_width ((c # cs) ! i) = 2 \<longrightarrow> Suc i < length (c # cs) \<and> c_width ((c # cs) ! Suc i) = 0) \<and>
        (c_width ((c # cs) ! i) = 0 \<longrightarrow> 0 < i \<and> c_width ((c # cs) ! (i - 1)) = 2)"
    proof cases
      case 3
      with i cs(1) cs(3) [unfolded locally_whole_def, rule_format, of n] cs(2) show ?thesis by (cases n) auto
    qed (use assms cs in simp_all)
  qed
qed

lemma whole_locally: "\<forall>c\<in>set r. c_width c \<le> 2 \<Longrightarrow> whole_row r \<longleftrightarrow> locally_whole r"
proof (induction r rule: whole_row.induct)
  case 1
  show ?case by (simp add: locally_whole_def)
next
  case (2 c cs)
  have ih: "whole_row (drop (tail_width c) cs) \<longleftrightarrow> locally_whole (drop (tail_width c) cs)"
    using 2 by (auto dest: in_set_dropD)
  consider "c_width c = 1" | "c_width c = 2" | "c_width c < 1" using "2.prems" by fastforce
  then show ?case
  proof cases
    case 1
    with ih show ?thesis by (simp add: locally_Cons1 tail_width_def)
  next
    case 2
    with ih show ?thesis by (cases cs) (auto simp: locally_Cons2 tail_width_def)
  next
    case 3
    then have "\<not> locally_whole (c # cs)" unfolding locally_whole_def by (intro notI) (drule spec [of _ 0], auto)
    with 3 show ?thesis by simp
  qed
qed

subsection \<open>Cutting the runes a new cell covers\<close>

definition blank_range :: "cell \<Rightarrow> nat \<Rightarrow> nat \<Rightarrow> cell list \<Rightarrow> cell list" where
  "blank_range b i k r = map (\<lambda>n. if i \<le> n \<and> n < k then b else r ! n) [0..<length r]"

text \<open>The nearest cell before a position that is not a continuation.\<close>

fun lead_before :: "cell list \<Rightarrow> nat \<Rightarrow> nat option" where
  "lead_before r 0 = None"
| "lead_before r (Suc j) = (if c_width (r ! j) \<noteq> 0 then Some j else lead_before r j)"

definition cut_left :: "cell \<Rightarrow> cell list \<Rightarrow> nat \<Rightarrow> cell list" where
  "cut_left b r x =
     (if c_width (r ! x) = 0
      then (case lead_before r x of None \<Rightarrow> r
            | Some j \<Rightarrow> if c_width (r ! j) > 1 \<and> int j + c_width (r ! j) > int x then blank_range b j x r else r)
      else r)"

definition cut_right :: "cell \<Rightarrow> nat \<Rightarrow> nat \<Rightarrow> cell list \<Rightarrow> cell list" where
  "cut_right b k i r =
     (let w = c_width (r ! i)
      in if w > 1 \<and> int i + w > int k then blank_range b k (min (i + nat w) (length r)) r else r)"

definition vacate :: "cell \<Rightarrow> nat \<Rightarrow> nat \<Rightarrow> cell list \<Rightarrow> cell list" where
  "vacate b i k r = map (\<lambda>n. if i \<le> n \<and> n < k \<and> c_width (r ! n) \<noteq> 1 then b else r ! n) [0..<length r]"

text \<open>\<^verbatim>\<open>prepareCellSlow\<close>, for a position inside the row.\<close>

definition cell_end :: "cell list \<Rightarrow> nat \<Rightarrow> int \<Rightarrow> nat" where
  "cell_end r x w = min (x + nat (max w 1)) (length r)"

definition prepare_slow :: "cell \<Rightarrow> cell list \<Rightarrow> nat \<Rightarrow> int \<Rightarrow> cell list" where
  "prepare_slow b r x w =
     (let k = cell_end r x w
      in vacate b x k (fold (cut_right b k) [x..<k] (cut_left b r x)))"

definition prepare_row :: "cell \<Rightarrow> cell list \<Rightarrow> int \<Rightarrow> int \<Rightarrow> cell list" where
  "prepare_row b r x w =
     (if x < 0 \<or> x \<ge> int (length r) \<or> (w \<le> 1 \<and> c_width (r ! nat x) = 1) then r else prepare_slow b r (nat x) w)"

definition blank_cells_row :: "cell \<Rightarrow> cell list \<Rightarrow> int \<Rightarrow> int \<Rightarrow> cell list" where
  "blank_cells_row b r x n =
     (let r' = prepare_row b r x n in blank_range b (nat (max x 0)) (nat (x + n)) r')"

lemma length_cuts [simp]:
  "length (blank_range b i k r) = length r" "length (vacate b i k r) = length r" "length (cut_left b r x) = length r"
  "length (cut_right b k i r) = length r"
  by (simp_all add: blank_range_def vacate_def cut_left_def cut_right_def Let_def split: option.splits)

lemma length_fold_cut [simp]: "length (fold (cut_right b k) is r) = length r"
  by (induction "is" arbitrary: r) simp_all

lemma length_prepare [simp]: "length (prepare_slow b r x w) = length r" "length (prepare_row b r y w) = length r"
  "length (blank_cells_row b r y w) = length r"
  by (simp_all add: prepare_slow_def prepare_row_def blank_cells_row_def Let_def)

lemma nth_cuts [simp]:
  "n < length r \<Longrightarrow> blank_range b i k r ! n = (if i \<le> n \<and> n < k then b else r ! n)"
  "n < length r \<Longrightarrow> vacate b i k r ! n = (if i \<le> n \<and> n < k \<and> c_width (r ! n) \<noteq> 1 then b else r ! n)"
  by (simp_all add: blank_range_def vacate_def)

text \<open>What the cuts do to a whole row of narrow and double-width runes.\<close>

lemma locally_wholeD:
  assumes "locally_whole r" "i < length r"
  shows "c_width (r ! i) \<in> {0, 1, 2}" "c_width (r ! i) = 2 \<Longrightarrow> Suc i < length r \<and> c_width (r ! Suc i) = 0"
    "c_width (r ! i) = 0 \<Longrightarrow> 0 < i \<and> c_width (r ! (i - 1)) = 2"
  using assms unfolding locally_whole_def by blast+

lemma cut_left_nth:
  assumes "locally_whole r" "x < length r" "n < length r"
  shows "cut_left b r x ! n = (if c_width (r ! x) = 0 \<and> Suc n = x then b else r ! n)"
proof (cases "c_width (r ! x) = 0")
  case True
  then obtain m where x: "x = Suc m" "c_width (r ! m) = 2"
    using locally_wholeD(3) [OF assms(1,2)] by (cases x) auto
  then have "cut_left b r x = blank_range b m x r" using True by (simp add: cut_left_def)
  with x True assms(3) show ?thesis by auto
qed (simp add: cut_left_def)

lemma cut_right_id: "c_width (r ! i) \<noteq> 2 \<Longrightarrow> c_width (r ! i) \<le> 2 \<Longrightarrow> cut_right b k i r = r"
  by (simp add: cut_right_def Let_def)

lemma fold_cut_right:
  assumes "\<And>i. x \<le> i \<Longrightarrow> i < k \<Longrightarrow> c_width (r ! i) \<in> {0, 1, 2}" "k \<le> length r" "n < length r" "x \<le> k"
  shows "fold (cut_right b k) [x..<k] r ! n = (if x < k \<and> c_width (r ! (k - 1)) = 2 \<and> n = k then b else r ! n)"
proof (cases "x < k")
  case False
  then show ?thesis by simp
next
  case True
  then obtain m where k: "k = Suc m" by (cases k) auto
  have early: "fold (cut_right b k) [x..<j] r = r" if "j \<le> m" for j
    using that
  proof (induction j)
    case (Suc j)
    show ?case
    proof (cases "x \<le> j")
      case True
      have "cut_right b k j r = r"
        using assms(1) [of j] True Suc.prems k by (auto simp: cut_right_def Let_def)
      then show ?thesis using Suc True by simp
    qed (use Suc in simp)
  qed simp
  have "fold (cut_right b k) [x..<k] r = cut_right b k m r" using early [of m] True k by simp
  moreover have "cut_right b k m r ! n = (if c_width (r ! m) = 2 \<and> n = k then b else r ! n)"
    using assms(1) [of m] assms(3) True k by (auto simp: cut_right_def Let_def)
  ultimately show ?thesis using True k by simp
qed

lemma prepare_slow_nth:
  assumes "locally_whole r" "x < length r" "n < length r" "c_width b = 1" and k_def: "k = cell_end r x w"
  shows "prepare_slow b r x w ! n =
    (if (c_width (r ! x) = 0 \<and> Suc n = x) \<or> (c_width (r ! (k - 1)) = 2 \<and> n = k) \<or> (x \<le> n \<and> n < k \<and> c_width (r ! n) \<noteq> 1)
     then b else r ! n)"
proof -
  let ?l = "cut_left b r x"
  have k: "x < k" "k \<le> length r" using assms(2) by (auto simp: k_def cell_end_def)
  have same: "?l ! i = r ! i" if "x \<le> i" "i < length r" for i using cut_left_nth [OF assms(1,2), of i] that by auto
  have w: "c_width (?l ! i) \<in> {0, 1, 2}" if "x \<le> i" "i < k" for i
    using that k same [of i] locally_wholeD(1) [OF assms(1), of i] by simp
  have last: "?l ! (k - 1) = r ! (k - 1)" using same [of "k - 1"] k by simp
  have f: "fold (cut_right b k) [x..<k] ?l ! i = (if c_width (r ! (k - 1)) = 2 \<and> i = k then b else ?l ! i)" if "i < length r" for i
    using fold_cut_right [of x k ?l i b] w k that last by simp
  show ?thesis
    using assms(3,4) k f [of n] cut_left_nth [OF assms(1-3), of b]
    by (auto simp: prepare_slow_def Let_def k_def [symmetric])
qed

lemma prepare_slow_whole:
  assumes "locally_whole r" "x < length r" "c_width b = 1"
  shows "locally_whole (prepare_slow b r x w) \<and> (\<forall>n. x \<le> n \<longrightarrow> n < cell_end r x w \<longrightarrow> c_width (prepare_slow b r x w ! n) = 1)"
proof
  let ?k = "cell_end r x w" and ?p = "prepare_slow b r x w"
  have k: "x < ?k" "?k \<le> length r" using assms(2) by (auto simp: cell_end_def)
  note nth = prepare_slow_nth [OF assms(1,2) _ assms(3) refl, of _ w]
  show mid: "\<forall>n. x \<le> n \<longrightarrow> n < ?k \<longrightarrow> c_width (?p ! n) = 1"
    using nth assms(3) k by auto
  show "locally_whole ?p"
    unfolding locally_whole_def
  proof (intro allI impI)
    fix i
    assume "i < length ?p"
    then have i: "i < length r" by simp
    note d = locally_wholeD [OF assms(1) i]
    note pi = nth [OF i]
    have one: "c_width (?p ! i) = 1 \<or> ?p ! i = r ! i" using pi assms(3) by auto
    have nxt: "Suc i < length r \<and> c_width (?p ! Suc i) = 0" if t: "c_width (?p ! i) = 2"
    proof -
      have r: "c_width (r ! i) = 2" "?p ! i = r ! i" using one t by auto
      then have s: "Suc i < length r" "c_width (r ! Suc i) = 0" using d(2) by auto
      have out: "\<not> (x \<le> i \<and> i < ?k)" using mid t by auto
      have "\<not> (c_width (r ! x) = 0 \<and> Suc i = x)" using pi assms(3) t by auto
      then have "Suc i \<noteq> x" using s(2) by auto
      moreover have "\<not> (x \<le> Suc i \<and> Suc i < ?k)" using out \<open>Suc i \<noteq> x\<close> by auto
      moreover have "Suc i \<noteq> ?k" using out \<open>Suc i \<noteq> x\<close> k by auto
      moreover have "Suc (Suc i) \<noteq> x \<or> c_width (r ! x) \<noteq> 0"
      proof (rule ccontr)
        assume "\<not> ?thesis"
        then have "Suc (Suc i) = x" "c_width (r ! x) = 0" by auto
        then have "c_width (r ! Suc i) = 2" using locally_wholeD(3) [OF assms(1,2)] by auto
        with s(2) show False by simp
      qed
      ultimately have "?p ! Suc i = r ! Suc i" using nth [OF s(1)] by auto
      with s show ?thesis by simp
    qed
    have prv: "0 < i \<and> c_width (?p ! (i - 1)) = 2" if z: "c_width (?p ! i) = 0"
    proof -
      have r: "c_width (r ! i) = 0" "?p ! i = r ! i" using one z by auto
      then obtain m where m: "i = Suc m" "c_width (r ! m) = 2" using d(3) by (cases i) auto
      have out: "\<not> (x \<le> i \<and> i < ?k)" using mid z by auto
      have "\<not> (c_width (r ! (?k - 1)) = 2 \<and> i = ?k)" using pi assms(3) z by auto
      then have "i \<noteq> ?k" using m by (metis diff_Suc_1)
      then have "\<not> (x \<le> m \<and> m < ?k)" using out m k by auto
      moreover have "\<not> (c_width (r ! x) = 0 \<and> Suc m = x)" using out m k by auto
      moreover have "\<not> (c_width (r ! (?k - 1)) = 2 \<and> m = ?k)"
      proof
        assume a: "c_width (r ! (?k - 1)) = 2 \<and> m = ?k"
        then have "c_width (r ! Suc (?k - 1)) = 0" using locally_wholeD(2) [OF assms(1), of "?k - 1"] k by simp
        with a m(2) k show False by simp
      qed
      moreover have "m < length r" using i m by simp
      ultimately have "?p ! m = r ! m" using nth by auto
      with m show ?thesis by simp
    qed
    show "c_width (?p ! i) \<in> {0, 1, 2} \<and> (c_width (?p ! i) = 2 \<longrightarrow> Suc i < length ?p \<and> c_width (?p ! Suc i) = 0) \<and>
        (c_width (?p ! i) = 0 \<longrightarrow> 0 < i \<and> c_width (?p ! (i - 1)) = 2)"
      using one d(1) nxt prv by auto
  qed
qed

end
