(* ===== verification/VtScreen.thy ===== *)
theory VtScreen
  imports VtCells ScrollbackInv
begin

text \<open>
  The screen of the virtual terminal (\<^verbatim>\<open>internal/vt/screen.go\<close>): a grid of cells, the cursor, the
  scroll region, how each row ends, and the scrollback. The cell buffer is a library type; the model
  reads and writes its rows where the code does, and the buffer's own operations are the parameter
  \<open>ops\<close>, whose documented laws are stated where they are used (\<open>buf_dims\<close>, \<open>buf_sets\<close>). Callbacks and the record of touched cells, which only
  serve drawing, are left out.
\<close>

subsection \<open>Rectangles and clamping\<close>

record vrect =
  vr_x0 :: int
  vr_y0 :: int
  vr_x1 :: int
  vr_y1 :: int

definition vt_rect :: "int \<Rightarrow> int \<Rightarrow> int \<Rightarrow> int \<Rightarrow> vrect" where
  "vt_rect x y w h = \<lparr>vr_x0 = min x (x + w), vr_y0 = min y (y + h), vr_x1 = max x (x + w), vr_y1 = max y (y + h)\<rparr>"

definition vr_empty :: "vrect \<Rightarrow> bool" where "vr_empty r \<longleftrightarrow> vr_x0 r \<ge> vr_x1 r \<or> vr_y0 r \<ge> vr_y1 r"

definition vr_zero :: vrect where "vr_zero = \<lparr>vr_x0 = 0, vr_y0 = 0, vr_x1 = 0, vr_y1 = 0\<rparr>"

text \<open>\<^verbatim>\<open>image.Rectangle.Intersect\<close> and \<^verbatim>\<open>Point.In\<close>.\<close>

definition vr_intersect :: "vrect \<Rightarrow> vrect \<Rightarrow> vrect" where
  "vr_intersect a b =
     (let r = \<lparr>vr_x0 = max (vr_x0 a) (vr_x0 b), vr_y0 = max (vr_y0 a) (vr_y0 b),
               vr_x1 = min (vr_x1 a) (vr_x1 b), vr_y1 = min (vr_y1 a) (vr_y1 b)\<rparr>
      in if vr_empty r then vr_zero else r)"

definition vr_in :: "int \<Rightarrow> int \<Rightarrow> vrect \<Rightarrow> bool" where
  "vr_in x y r \<longleftrightarrow> vr_x0 r \<le> x \<and> x < vr_x1 r \<and> vr_y0 r \<le> y \<and> y < vr_y1 r"

definition vt_clamp :: "int \<Rightarrow> int \<Rightarrow> int \<Rightarrow> int" where
  "vt_clamp v low high = (let (l, h) = (if high < low then (high, low) else (low, high)) in min h (max l v))"

lemma vt_clamp_range: "low \<le> high \<Longrightarrow> low \<le> vt_clamp v low high \<and> vt_clamp v low high \<le> high"
  by (simp add: vt_clamp_def)

lemma vt_clamp_id: "low \<le> v \<Longrightarrow> v \<le> high \<Longrightarrow> vt_clamp v low high = v"
  by (simp add: vt_clamp_def)

subsection \<open>State\<close>

record cursor =
  cu_x :: int
  cu_y :: int
  cu_pen :: style
  cu_link :: string
  cu_style :: int
  cu_steady :: bool
  cu_hidden :: bool

definition home_cursor :: cursor where
  "home_cursor = \<lparr>cu_x = 0, cu_y = 0, cu_pen = plain_style, cu_link = [], cu_style = 0, cu_steady = False, cu_hidden = False\<rparr>"

text \<open>A character set, by the table that is selected.\<close>

datatype charset = US_ASCII | UK_Set | Special_Drawing

record saved_state =
  sv_valid :: bool
  sv_phantom :: bool
  sv_origin :: bool
  sv_charsets :: "charset list"
  sv_gl :: int
  sv_gr :: int
  sv_gsingle :: int

definition nothing_saved :: saved_state where
  "nothing_saved = \<lparr>sv_valid = False, sv_phantom = False, sv_origin = False, sv_charsets = replicate 4 US_ASCII,
     sv_gl = 0, sv_gr = 0, sv_gsingle = 0\<rparr>"

type_synonym grid = "cell list list"

record screen =
  sc_rows :: grid
  sc_cur :: cursor
  sc_saved :: cursor
  sc_state :: saved_state
  sc_phantom :: bool
  sc_scroll :: vrect
  sc_back :: "cell ring option"
  sc_wraps :: "line_wrap list"

record buf_ops =
  bo_new :: "int \<Rightarrow> int \<Rightarrow> grid"
  bo_resize :: "int \<Rightarrow> int \<Rightarrow> grid \<Rightarrow> grid"
  bo_set :: "int \<Rightarrow> int \<Rightarrow> cell option \<Rightarrow> grid \<Rightarrow> grid"
  bo_fill :: "cell option \<Rightarrow> vrect \<Rightarrow> grid \<Rightarrow> grid"
  bo_insert :: "int \<Rightarrow> int \<Rightarrow> cell option \<Rightarrow> vrect \<Rightarrow> grid \<Rightarrow> grid"
  bo_delete :: "int \<Rightarrow> int \<Rightarrow> cell option \<Rightarrow> vrect \<Rightarrow> grid \<Rightarrow> grid"
  bo_empty :: "cell \<Rightarrow> cell"

definition grid_dims :: "int \<Rightarrow> int \<Rightarrow> grid \<Rightarrow> bool" where
  "grid_dims w h g \<longleftrightarrow> int (length g) = h \<and> (\<forall>r\<in>set g. int (length r) = w)"

definition scr_height :: "screen \<Rightarrow> int" where "scr_height s = int (length (sc_rows s))"

definition scr_width :: "screen \<Rightarrow> int" where
  "scr_width s = (case sc_rows s of [] \<Rightarrow> 0 | r # rs \<Rightarrow> int (length r))"

definition bounds :: "screen \<Rightarrow> vrect" where "bounds s = vt_rect 0 0 (scr_width s) (scr_height s)"

definition new_screen :: "buf_ops \<Rightarrow> int \<Rightarrow> int \<Rightarrow> screen" where
  "new_screen ops w h =
     (let g = bo_new ops w h
      in \<lparr>sc_rows = g, sc_cur = home_cursor, sc_saved = home_cursor, sc_state = nothing_saved, sc_phantom = False,
          sc_scroll = vt_rect 0 0 w h, sc_back = Some (new_scrollback 0), sc_wraps = replicate (length g) hard_break\<rparr>)"

definition reset_screen :: "buf_ops \<Rightarrow> screen \<Rightarrow> screen" where
  "reset_screen ops s =
     s\<lparr>sc_rows := bo_fill ops None (bounds s) (sc_rows s), sc_wraps := map (\<lambda>_. hard_break) (sc_wraps s),
       sc_cur := home_cursor, sc_saved := home_cursor, sc_state := nothing_saved, sc_phantom := False, sc_scroll := bounds s\<rparr>"

definition disable_scrollback :: "screen \<Rightarrow> screen" where
  "disable_scrollback s = s\<lparr>sc_back := None\<rparr>"

definition clear_scrollback :: "screen \<Rightarrow> screen" where
  "clear_scrollback s = s\<lparr>sc_back := map_option clear_ring (sc_back s)\<rparr>"

definition scr_cell :: "int \<Rightarrow> int \<Rightarrow> screen \<Rightarrow> cell option" where
  "scr_cell x y s =
     (if 0 \<le> y \<and> y < scr_height s \<and> 0 \<le> x \<and> x < int (length (sc_rows s ! nat y)) then Some (sc_rows s ! nat y ! nat x) else None)"

definition blank_pen :: "screen \<Rightarrow> cell option" where
  "blank_pen s = blank_cell (cu_pen (sc_cur s))"

definition erase_pen :: "screen \<Rightarrow> cell" where
  "erase_pen s = erase_cell (cu_pen (sc_cur s))"

subsection \<open>How rows end\<close>

definition line_wrap_at :: "int \<Rightarrow> screen \<Rightarrow> line_wrap" where
  "line_wrap_at y s = (if y < 0 \<or> y \<ge> int (length (sc_wraps s)) then hard_break else sc_wraps s ! nat y)"

definition set_line_wrap :: "int \<Rightarrow> line_wrap \<Rightarrow> screen \<Rightarrow> screen" where
  "set_line_wrap y w s =
     (if 0 \<le> y \<and> y < int (length (sc_wraps s)) then s\<lparr>sc_wraps := (sc_wraps s)[nat y := w]\<rparr> else s)"

definition resize_wraps :: "int \<Rightarrow> line_wrap list \<Rightarrow> line_wrap list" where
  "resize_wraps h ws =
     (if int (length ws) \<ge> h then take (nat h) ws else ws @ replicate (nat h - length ws) hard_break)"

definition unwrap_area :: "vrect \<Rightarrow> screen \<Rightarrow> screen" where
  "unwrap_area area0 s =
     (let area = vr_intersect area0 (bounds s)
      in if vr_empty area \<or> vr_x1 area < scr_width s then s
         else s\<lparr>sc_wraps := map (\<lambda>y. if vr_y0 area \<le> int y \<and> int y < vr_y1 area then hard_break else sc_wraps s ! y)
                  [0..<length (sc_wraps s)]\<rparr>)"

definition shift_wraps :: "int \<Rightarrow> int \<Rightarrow> vrect \<Rightarrow> bool \<Rightarrow> screen \<Rightarrow> screen" where
  "shift_wraps y n0 area ins s =
     (let ws = sc_wraps s; b = nat (min (vr_y1 area) (int (length ws))); t = nat y; n = nat (min n0 (int b - y));
          part = take (b - t) (drop t ws)
      in if n0 \<le> 0 \<or> y < vr_y0 area \<or> y \<ge> vr_y1 area \<or> vr_x1 area < scr_width s \<or> y \<ge> int b then s
         else s\<lparr>sc_wraps := take t ws @
           (if vr_x0 area > 0 then replicate (b - t) hard_break
            else if ins then replicate n hard_break @ take (b - t - n) part
            else drop n part @ replicate n hard_break) @ drop b ws\<rparr>)"

subsection \<open>Cells\<close>

definition on_row :: "int \<Rightarrow> (cell list \<Rightarrow> cell list) \<Rightarrow> screen \<Rightarrow> screen" where
  "on_row y f s = (if y < 0 \<or> y \<ge> scr_height s then s else s\<lparr>sc_rows := (sc_rows s)[nat y := f (sc_rows s ! nat y)]\<rparr>)"

definition set_cell :: "buf_ops \<Rightarrow> int \<Rightarrow> int \<Rightarrow> cell option \<Rightarrow> screen \<Rightarrow> screen" where
  "set_cell ops x y c s = s\<lparr>sc_rows := bo_set ops x y c (sc_rows s)\<rparr>"

definition prepare_cell :: "int \<Rightarrow> int \<Rightarrow> int \<Rightarrow> screen \<Rightarrow> screen" where
  "prepare_cell x y w s = on_row y (\<lambda>r. prepare_row (erase_pen s) r x w) s"

definition narrow_at :: "int \<Rightarrow> int \<Rightarrow> screen \<Rightarrow> bool" where
  "narrow_at x y s \<longleftrightarrow> (case scr_cell x y s of None \<Rightarrow> False | Some c \<Rightarrow> c_width c = 1)"

definition blank_cells :: "int \<Rightarrow> int \<Rightarrow> int \<Rightarrow> screen \<Rightarrow> screen" where
  "blank_cells x y n s = (if n \<le> 0 then s else on_row y (\<lambda>r. blank_cells_row (erase_pen s) r x n) s)"

definition fill_area :: "buf_ops \<Rightarrow> cell option \<Rightarrow> vrect \<Rightarrow> screen \<Rightarrow> screen" where
  "fill_area ops c area s = unwrap_area area (s\<lparr>sc_rows := bo_fill ops c area (sc_rows s)\<rparr>)"

definition clear_screen :: "buf_ops \<Rightarrow> screen \<Rightarrow> screen" where
  "clear_screen ops s = fill_area ops None (bounds s) s"

subsection \<open>The cursor\<close>

definition region :: "screen \<Rightarrow> vrect" where
  "region s = vr_intersect (sc_scroll s) (bounds s)"

definition set_horizontal_margins :: "int \<Rightarrow> int \<Rightarrow> screen \<Rightarrow> screen" where
  "set_horizontal_margins l r s =
     (let w = scr_width s; a = vt_clamp l 0 w; b = vt_clamp r a w
      in s\<lparr>sc_scroll := (sc_scroll s)\<lparr>vr_x0 := a, vr_x1 := b\<rparr>\<rparr>)"

definition set_vertical_margins :: "int \<Rightarrow> int \<Rightarrow> screen \<Rightarrow> screen" where
  "set_vertical_margins t u s =
     (let h = scr_height s; a = vt_clamp t 0 h; b = vt_clamp u a h
      in s\<lparr>sc_scroll := (sc_scroll s)\<lparr>vr_y0 := a, vr_y1 := b\<rparr>\<rparr>)"

definition put_cursor :: "int \<Rightarrow> int \<Rightarrow> screen \<Rightarrow> screen" where
  "put_cursor x y s = s\<lparr>sc_cur := (sc_cur s)\<lparr>cu_x := x, cu_y := y\<rparr>\<rparr>"

definition set_cursor :: "int \<Rightarrow> int \<Rightarrow> bool \<Rightarrow> screen \<Rightarrow> screen" where
  "set_cursor x y margins s =
     (let m = sc_scroll s
      in if \<not> margins then put_cursor (vt_clamp x 0 (scr_width s - 1)) (vt_clamp y 0 (scr_height s - 1)) s
         else put_cursor (vt_clamp (vr_x0 m + x) (vr_x0 m) (vr_x1 m - 1)) (vt_clamp (vr_y0 m + y) (vr_y0 m) (vr_y1 m - 1)) s)"

definition move_within :: "int \<Rightarrow> int \<Rightarrow> int \<Rightarrow> int \<Rightarrow> int \<Rightarrow> int" where
  "move_within pos delta low high edge =
     (let target = pos + delta
      in if delta < 0 then vt_clamp (max target (if pos \<ge> low then low else 0)) 0 edge
         else vt_clamp (min target (if pos \<le> high then high else edge)) 0 edge)"

definition move_cursor :: "int \<Rightarrow> int \<Rightarrow> screen \<Rightarrow> screen" where
  "move_cursor dx dy s =
     (let m = region s; c = sc_cur s
      in put_cursor (move_within (cu_x c) dx (vr_x0 m) (vr_x1 m - 1) (scr_width s - 1))
           (move_within (cu_y c) dy (vr_y0 m) (vr_y1 m - 1) (scr_height s - 1)) s)"

definition clamp_position :: "screen \<Rightarrow> cursor \<Rightarrow> cursor" where
  "clamp_position s c =
     c\<lparr>cu_x := vt_clamp (cu_x c) 0 (max (scr_width s - 1) 0), cu_y := vt_clamp (cu_y c) 0 (max (scr_height s - 1) 0)\<rparr>"

definition save_cursor :: "screen \<Rightarrow> screen" where "save_cursor s = s\<lparr>sc_saved := sc_cur s\<rparr>"

definition restore_cursor :: "screen \<Rightarrow> screen" where
  "restore_cursor s =
     (let c = sc_cur s
      in s\<lparr>sc_cur := clamp_position s ((sc_saved s)\<lparr>cu_hidden := cu_hidden c, cu_style := cu_style c, cu_steady := cu_steady c\<rparr>)\<rparr>)"

definition set_hidden :: "bool \<Rightarrow> screen \<Rightarrow> screen" where
  "set_hidden b s = s\<lparr>sc_cur := (sc_cur s)\<lparr>cu_hidden := b\<rparr>\<rparr>"

definition set_cursor_style :: "int \<Rightarrow> bool \<Rightarrow> screen \<Rightarrow> screen" where
  "set_cursor_style st blink s = s\<lparr>sc_cur := (sc_cur s)\<lparr>cu_style := st, cu_steady := \<not> blink\<rparr>\<rparr>"

subsection \<open>Shifting cells and lines\<close>

text \<open>The count a shift at the cursor works with; \<open>None\<close> when it does nothing.\<close>

definition shift_bounds :: "int \<Rightarrow> int \<Rightarrow> int \<Rightarrow> screen \<Rightarrow> int option" where
  "shift_bounds x y n s =
     (let a = region s
      in if n \<le> 0 \<or> y < vr_y0 a \<or> y \<ge> vr_y1 a \<or> y \<ge> scr_height s \<or> x < vr_x0 a \<or> x \<ge> vr_x1 a \<or> x \<ge> scr_width s then None
         else Some (if x + n > vr_x1 a then vr_x1 a - x else n))"

definition insert_row :: "(cell \<Rightarrow> cell) \<Rightarrow> cell \<Rightarrow> nat \<Rightarrow> nat \<Rightarrow> nat \<Rightarrow> cell list \<Rightarrow> cell list" where
  "insert_row e b x n right r =
     repair_wide e (take x r @ replicate n b @ drop x (take (right - n) r) @ drop right r)"

definition delete_row :: "(cell \<Rightarrow> cell) \<Rightarrow> cell \<Rightarrow> nat \<Rightarrow> nat \<Rightarrow> nat \<Rightarrow> cell list \<Rightarrow> cell list" where
  "delete_row e b x n right r =
     repair_wide e (take x r @ drop (x + n) (take right r) @ replicate n b @ drop right r)"

definition insert_cells :: "buf_ops \<Rightarrow> int \<Rightarrow> screen \<Rightarrow> screen" where
  "insert_cells ops n s =
     (let x = cu_x (sc_cur s); y = cu_y (sc_cur s)
      in case shift_bounds x y n s of None \<Rightarrow> s
         | Some k \<Rightarrow> on_row y (insert_row (bo_empty ops) (erase_pen s) (nat x) (nat k) (nat (vr_x1 (region s)))) s)"

definition delete_cells :: "buf_ops \<Rightarrow> int \<Rightarrow> screen \<Rightarrow> screen" where
  "delete_cells ops n s =
     (let x = cu_x (sc_cur s); y = cu_y (sc_cur s)
      in case shift_bounds x y n s of None \<Rightarrow> s
         | Some k \<Rightarrow> on_row y (delete_row (bo_empty ops) (erase_pen s) (nat x) (nat k) (nat (vr_x1 (region s)))) s)"

definition in_margins :: "screen \<Rightarrow> bool" where
  "in_margins s \<longleftrightarrow> vr_in (cu_x (sc_cur s)) (cu_y (sc_cur s)) (region s)"

definition insert_line :: "buf_ops \<Rightarrow> int \<Rightarrow> screen \<Rightarrow> bool \<times> screen" where
  "insert_line ops n s =
     (let y = cu_y (sc_cur s)
      in if n \<le> 0 \<or> \<not> in_margins s then (False, s)
         else (True, shift_wraps y n (region s) True (s\<lparr>sc_rows := bo_insert ops y n (blank_pen s) (region s) (sc_rows s)\<rparr>)))"

definition delete_line :: "buf_ops \<Rightarrow> int \<Rightarrow> screen \<Rightarrow> bool \<times> screen" where
  "delete_line ops n s =
     (let y = cu_y (sc_cur s)
      in if n \<le> 0 \<or> \<not> in_margins s then (False, s)
         else (True, shift_wraps y n (region s) False (s\<lparr>sc_rows := bo_delete ops y n (blank_pen s) (region s) (sc_rows s)\<rparr>)))"

subsection \<open>Scrolling\<close>

definition push_rows :: "cell slot list \<Rightarrow> cell ring option \<Rightarrow> cell ring option" where
  "push_rows ss = map_option (fold (\<lambda>(line, w) r. snd (push_owned line w r)) ss)"

text \<open>
  \<^verbatim>\<open>rotateWholeScreenUp\<close>: the rows that leave go to the scrollback, the storage that comes back is blanked
  at the bottom. \<open>None\<close> when it does not apply.
\<close>

definition rotate_up :: "int \<Rightarrow> bool \<Rightarrow> screen \<Rightarrow> screen option" where
  "rotate_up n0 save s =
     (let rows = sc_rows s; h = length rows; a = sc_scroll s; n = nat (min n0 (int h));
          leaving = map (\<lambda>i. (rows ! i, line_wrap_at (int i) s)) [0..<n]
      in if h = 0 \<or> vr_x0 a \<noteq> 0 \<or> vr_y0 a \<noteq> 0 \<or> vr_y1 a \<noteq> int h \<or> vr_x1 a - vr_x0 a \<noteq> scr_width s then None
         else Some (s\<lparr>sc_rows := drop n rows @ map (\<lambda>r. replicate (length r) (erase_pen s)) (take n rows),
           sc_back := (if save then push_rows leaving (sc_back s) else sc_back s),
           sc_wraps := (if length (sc_wraps s) = h then drop n (sc_wraps s) @ replicate n hard_break else sc_wraps s)\<rparr>))"

definition extract_line :: "grid \<Rightarrow> nat \<Rightarrow> int \<Rightarrow> cell list" where
  "extract_line g y w = map (\<lambda>x. if y < length g \<and> x < length (g ! y) then g ! y ! x else empty_cell) [0..<nat w]"

definition scroll_up :: "buf_ops \<Rightarrow> int \<Rightarrow> screen \<Rightarrow> screen" where
  "scroll_up ops n s0 =
     (if n \<le> 0 then s0
      else let a = sc_scroll s0; w = scr_width s0; x = cu_x (sc_cur s0); y = cu_y (sc_cur s0);
               save = (sc_back s0 \<noteq> None \<and> vr_y0 a = 0 \<and> vr_x0 a = 0 \<and> vr_x1 a - vr_x0 a = w);
               s = set_cursor x 0 True s0;
               s1 = (case rotate_up n save s of Some s' \<Rightarrow> s'
                 | None \<Rightarrow>
                   let leaving = map (\<lambda>i. (extract_line (sc_rows s) (nat (vr_y0 a) + i) w, line_wrap_at (vr_y0 a + int i) s))
                         [0..<nat (min n (vr_y1 a - vr_y0 a))];
                       s' = (if save then s\<lparr>sc_back := push_rows leaving (sc_back s)\<rparr> else s)
                   in snd (delete_line ops n s'))
           in set_cursor x y False s1)"

definition scroll_down :: "buf_ops \<Rightarrow> int \<Rightarrow> screen \<Rightarrow> screen" where
  "scroll_down ops n s0 =
     (let x = cu_x (sc_cur s0); y = cu_y (sc_cur s0)
      in set_cursor x y False (snd (insert_line ops n (set_cursor x 0 True s0))))"

subsection \<open>Resizing\<close>

definition cut_edge :: "buf_ops \<Rightarrow> screen \<Rightarrow> screen" where
  "cut_edge ops s =
     (let x = scr_width s - 1
      in if x < 0 then s
         else fold (\<lambda>y s. case scr_cell x (int y) s of
             Some c \<Rightarrow> if c_width c > 1 then set_cell ops x (int y) None s else s | None \<Rightarrow> s) [0..<nat (scr_height s)] s)"

definition resize_screen :: "buf_ops \<Rightarrow> int \<Rightarrow> int \<Rightarrow> screen \<Rightarrow> screen" where
  "resize_screen ops w h s =
     (let g = bo_resize ops w h (sc_rows s); ws = resize_wraps (int (length g)) (sc_wraps s);
          s1 = s\<lparr>sc_rows := g, sc_wraps := (if w \<noteq> scr_width s then map (\<lambda>_. hard_break) ws else ws)\<rparr>;
          s2 = cut_edge ops s1
      in s2\<lparr>sc_scroll := bounds s2\<rparr>)"

definition resize_keeping_cursor :: "buf_ops \<Rightarrow> int \<Rightarrow> int \<Rightarrow> screen \<Rightarrow> screen" where
  "resize_keeping_cursor ops w h s0 =
     (let n = cu_y (sc_cur s0) - (h - 1);
          s1 = (if n > 0 \<and> h > 0 \<and> scr_height s0 > h
            then let s = s0\<lparr>sc_scroll := bounds s0\<rparr>;
                     r = (case rotate_up n (sc_back s \<noteq> None) s of Some s' \<Rightarrow> s' | None \<Rightarrow> s)
                 in r\<lparr>sc_cur := (sc_cur r)\<lparr>cu_y := cu_y (sc_cur r) - n\<rparr>, sc_saved := (sc_saved r)\<lparr>cu_y := cu_y (sc_saved r) - n\<rparr>\<rparr>
            else s0);
          s2 = resize_screen ops w h s1
      in s2\<lparr>sc_cur := clamp_position s2 (sc_cur s2), sc_saved := clamp_position s2 (sc_saved s2)\<rparr>)"

end
