(* ===== verification/VtReflow.thy ===== *)
theory VtReflow
  imports VtScreen Reflow
begin

text \<open>
  A screen at a new width (\<^verbatim>\<open>reflowResize\<close>, \<^verbatim>\<open>settleReflow\<close> and \<^verbatim>\<open>laidOutScrollbackLen\<close> of
  \<^verbatim>\<open>internal/vt/reflow.go\<close>): the end of the scrollback and the screen are laid out as one text, the
  screen is cut out of it around the cursor, and what is above goes back to the scrollback. Markers on
  the lines, which other code keeps, are left out.
\<close>

definition tail_of :: "int \<Rightarrow> int \<Rightarrow> cell ring option \<Rightarrow> nat" where
  "tail_of w h back = (case back of None \<Rightarrow> 0 | Some sb \<Rightarrow> reflow_tail_start w h sb)"

definition lines_from :: "nat \<Rightarrow> cell ring option \<Rightarrow> rows" where
  "lines_from n back = (case back of None \<Rightarrow> [] | Some sb \<Rightarrow> drop n (contents sb))"

text \<open>The first output row that stays on the screen, and the first one the scrollback has room for.\<close>

definition screen_top :: "int \<Rightarrow> nat \<Rightarrow> nat \<Rightarrow> int \<Rightarrow> nat" where
  "screen_top h cy tp cur_y = nat (max (max (int cy - (h - 1)) (min (int tp) (int cy - cur_y))) 0)"

definition keep_from :: "nat \<Rightarrow> cell ring option \<Rightarrow> nat" where
  "keep_from tp back = (case back of None \<Rightarrow> tp | Some sb \<Rightarrow> tp - rg_max sb)"

definition store_kept :: "int \<Rightarrow> nat \<Rightarrow> nat \<Rightarrow> rows \<Rightarrow> cell ring \<Rightarrow> cell ring" where
  "store_kept w tail dropped kept sb =
     (snd (replace_tail (int tail) kept sb))\<lparr>rg_pending := tail - dropped, rg_width := w\<rparr>"

definition dropped_lines :: "nat \<Rightarrow> nat \<Rightarrow> nat \<Rightarrow> cell ring option \<Rightarrow> nat" where
  "dropped_lines tail tp from back = (case back of None \<Rightarrow> 0 | Some sb \<Rightarrow> tail + tp - from - rg_max sb)"

definition fill_rows :: "int \<Rightarrow> int \<Rightarrow> rows \<Rightarrow> rows" where
  "fill_rows w h rs = rs @ replicate (nat h - length rs) (replicate (nat w) empty_cell, hard_break)"

text \<open>The result says whether the cursor sits after text that ends at the edge.\<close>

definition reflow_resize :: "int \<Rightarrow> int \<Rightarrow> screen \<Rightarrow> bool \<times> screen" where
  "reflow_resize w h s =
     (let back = sc_back s; tail = tail_of w h back; hist = lines_from tail back; base = int (length hist);
          rs = hist @ zip (sc_rows s) (sc_wraps s); n = length rs; last_row = scr_height s - 1;
          cur_y = vt_clamp (cu_y (sc_cur s)) 0 last_row; saved_y = vt_clamp (cu_y (sc_saved s)) 0 last_row;
          r = new_reflower rs w (base + cur_y) (nat (cu_x (sc_cur s)));
          (tp, _, _) = locate r n base 0;
          (cy, cx, at_end) = locate r n (base + cur_y) (cu_x (sc_cur s));
          (sy, sx, _) = locate r n (base + saved_y) (cu_x (sc_saved s));
          st = screen_top h cy tp cur_y; from = keep_from st back; to = min (st + nat h) (rf_total r);
          dropped = dropped_lines tail st from back;
          out = build from to st r; kept = st - from; shown = fill_rows w h (drop kept out);
          s1 = s\<lparr>sc_rows := map fst shown, sc_wraps := map snd shown,
                 sc_back := map_option (store_kept w tail dropped (take kept out)) back,
                 sc_cur := (sc_cur s)\<lparr>cu_x := cx, cu_y := int cy - int st\<rparr>\<rparr>
      in (at_end, s1\<lparr>sc_scroll := bounds s1,
            sc_saved := clamp_position s1 ((sc_saved s)\<lparr>cu_x := sx, cu_y := int sy - int st\<rparr>)\<rparr>))"

text \<open>The lines a resize left for later, laid out at the screen's width.\<close>

definition settle_ring :: "int \<Rightarrow> cell ring \<Rightarrow> cell ring" where
  "settle_ring w sb =
     (if rg_pending sb = 0 then sb
      else let p = rg_pending sb; n = ring_len sb; r = new_reflower (take p (contents sb)) w (- 1) 0; t = rf_total r;
               from = min (t + n - p - rg_max sb) t
           in (replace_all (build from t t r @ drop p (contents sb)) sb)\<lparr>rg_pending := 0\<rparr>)"

definition settle_reflow :: "screen \<Rightarrow> screen" where
  "settle_reflow s = s\<lparr>sc_back := map_option (settle_ring (scr_width s)) (sc_back s)\<rparr>"

definition laid_out_len :: "screen \<Rightarrow> nat" where
  "laid_out_len s =
     (case sc_back s of None \<Rightarrow> 0
      | Some sb \<Rightarrow>
        if rg_pending sb = 0 then ring_len sb
        else min (rg_max sb)
          (rf_total (new_reflower (take (rg_pending sb) (contents sb)) (scr_width s) (- 1) 0) + ring_len sb - rg_pending sb))"

end
