(* ===== verification/VtEmulator.thy ===== *)
theory VtEmulator
  imports VtReflow
begin

text \<open>
  The emulator around its two screens (\<^verbatim>\<open>internal/vt/emulator.go\<close>, \<^verbatim>\<open>csi_cursor.go\<close>, \<^verbatim>\<open>cc.go\<close>,
  \<^verbatim>\<open>csi_screen.go\<close>, \<^verbatim>\<open>csi_mode.go\<close>, \<^verbatim>\<open>esc.go\<close>, \<^verbatim>\<open>handlers.go\<close>): printing, control characters and
  the control sequences that move, erase, shift, scroll and switch. The split of bytes into sequences
  and of runes into clusters is the library's; a guest's output is here a sequence of clusters with
  their widths and of commands with their parameters. Tab stops are the parameter \<open>tb\<close>.
\<close>

record 't tab_ops =
  tb_default :: "int \<Rightarrow> 't"
  tb_next :: "int \<Rightarrow> 't \<Rightarrow> int"
  tb_prev :: "int \<Rightarrow> 't \<Rightarrow> int"
  tb_set :: "int \<Rightarrow> 't \<Rightarrow> 't"
  tb_reset :: "int \<Rightarrow> 't \<Rightarrow> 't"
  tb_clear :: "'t \<Rightarrow> 't"
  tb_resize :: "int \<Rightarrow> 't \<Rightarrow> 't"

text \<open>The modes with an effect here; the others only change a table entry.\<close>

datatype mode = Origin | Auto_Wrap | Insert_Replace | Line_Feed_New_Line | Left_Right_Margin | Cursor_Enable
  | Alt_47 | Alt_1047 | Save_1048 | Alt_1049 | Other_Mode nat

record 't emulator =
  em_main :: screen
  em_alt :: screen
  em_on_alt :: bool
  em_modes :: "mode \<Rightarrow> bool"
  em_phantom :: bool
  em_charsets :: "charset list"
  em_gl :: int
  em_gr :: int
  em_gsingle :: int
  em_tabs :: 't
  em_last_char :: bool
  em_last_grapheme :: string
  em_last_width :: int
  em_cell_x :: int
  em_cell_y :: int
  em_cell_w :: int
  em_cell_alt :: bool

definition scr :: "'t emulator \<Rightarrow> screen" where
  "scr e = (if em_on_alt e then em_alt e else em_main e)"

definition on_scr :: "(screen \<Rightarrow> screen) \<Rightarrow> 't emulator \<Rightarrow> 't emulator" where
  "on_scr f e = (if em_on_alt e then e\<lparr>em_alt := f (em_alt e)\<rparr> else e\<lparr>em_main := f (em_main e)\<rparr>)"

definition set_phantom :: "bool \<Rightarrow> 't emulator \<Rightarrow> 't emulator" where
  "set_phantom b e = e\<lparr>em_phantom := b\<rparr>"

definition em_width :: "'t emulator \<Rightarrow> int" where "em_width e = scr_width (scr e)"
definition em_height :: "'t emulator \<Rightarrow> int" where "em_height e = scr_height (scr e)"
definition cur_x :: "'t emulator \<Rightarrow> int" where "cur_x e = cu_x (sc_cur (scr e))"
definition cur_y :: "'t emulator \<Rightarrow> int" where "cur_y e = cu_y (sc_cur (scr e))"
definition mode_set :: "mode \<Rightarrow> 't emulator \<Rightarrow> bool" where "mode_set m e = em_modes e m"

definition default_modes :: "mode \<Rightarrow> bool" where
  "default_modes m \<longleftrightarrow> m = Auto_Wrap \<or> m = Cursor_Enable"

definition new_emulator :: "buf_ops \<Rightarrow> 't tab_ops \<Rightarrow> int \<Rightarrow> int \<Rightarrow> 't emulator" where
  "new_emulator ops tb w h =
     \<lparr>em_main = new_screen ops w h, em_alt = disable_scrollback (new_screen ops w h), em_on_alt = False,
      em_modes = default_modes, em_phantom = False, em_charsets = replicate 4 US_ASCII, em_gl = 0, em_gr = 1, em_gsingle = 0,
      em_tabs = tb_default tb w, em_last_char = False, em_last_grapheme = [], em_last_width = 0,
      em_cell_x = 0, em_cell_y = 0, em_cell_w = 0, em_cell_alt = False\<rparr>"

subsection \<open>Cursor commands\<close>

fun tab_run :: "(int \<Rightarrow> int) \<Rightarrow> (int \<Rightarrow> int \<Rightarrow> bool) \<Rightarrow> nat \<Rightarrow> int \<Rightarrow> int" where
  "tab_run stop worse 0 x = x"
| "tab_run stop worse (Suc n) x = (let t = stop x in if worse t x then x else tab_run stop worse n t)"

definition next_tab :: "'t tab_ops \<Rightarrow> int \<Rightarrow> 't emulator \<Rightarrow> 't emulator" where
  "next_tab tb n e =
     (let x = tab_run (\<lambda>x. tb_next tb x (em_tabs e)) (<) (nat (min n (em_width e))) (cur_x e); m = sc_scroll (scr e);
          x' = (if x \<ge> vr_x1 m then min (vr_x1 m - 1) (em_width e - 1) else x)
      in on_scr (set_cursor x' (cur_y e) False) e)"

definition prev_tab :: "'t tab_ops \<Rightarrow> int \<Rightarrow> 't emulator \<Rightarrow> 't emulator" where
  "prev_tab tb n e =
     (let x = tab_run (\<lambda>x. tb_prev tb x (em_tabs e)) (>) (nat (min n (em_width e))) (cur_x e);
          left = (if mode_set Origin e then vr_x0 (sc_scroll (scr e)) else 0)
      in on_scr (set_cursor (if x < left then left else x) (cur_y e) False) e)"

definition em_move :: "int \<Rightarrow> int \<Rightarrow> 't emulator \<Rightarrow> 't emulator" where
  "em_move dx dy e = set_phantom False (on_scr (move_cursor dx dy) e)"

definition em_set_cursor :: "int \<Rightarrow> int \<Rightarrow> 't emulator \<Rightarrow> 't emulator" where
  "em_set_cursor x y e = set_phantom False (on_scr (set_cursor x y False) e)"

definition set_cursor_position :: "int \<Rightarrow> int \<Rightarrow> 't emulator \<Rightarrow> 't emulator" where
  "set_cursor_position x y e = set_phantom False (on_scr (set_cursor x y (mode_set Origin e)) e)"

definition carriage_return :: "'t emulator \<Rightarrow> 't emulator" where
  "carriage_return e =
     (let m = sc_scroll (scr e); x = cur_x e; y = cur_y e
      in set_phantom False (on_scr (set_cursor (if mode_set Origin e \<or> vr_in x y m then vr_x0 m else 0) y False) e))"

text \<open>Parameters of \<^verbatim>\<open>CUP\<close> and \<^verbatim>\<open>HVP\<close>, 1-based.\<close>

definition cursor_position_params :: "int \<Rightarrow> int \<Rightarrow> 't emulator \<Rightarrow> 't emulator" where
  "cursor_position_params row col e = set_cursor_position (max col 1 - 1) (max row 1 - 1) e"

definition origin_position :: "'t emulator \<Rightarrow> int \<times> int" where
  "origin_position e =
     (if mode_set Origin e then (cur_x e - vr_x0 (sc_scroll (scr e)), cur_y e - vr_y0 (sc_scroll (scr e))) else (cur_x e, cur_y e))"

definition index_down :: "buf_ops \<Rightarrow> 't emulator \<Rightarrow> 't emulator" where
  "index_down ops e =
     (let x = cur_x e; y = cur_y e; m = sc_scroll (scr e)
      in set_phantom False
        (if y = vr_y1 m - 1 \<and> vr_x0 m \<le> x \<and> x < vr_x1 m then on_scr (scroll_up ops 1) e
         else if y < vr_y1 m - 1 \<or> \<not> vr_in x y m then on_scr (move_cursor 0 1) e
         else e))"

definition linefeed :: "buf_ops \<Rightarrow> 't emulator \<Rightarrow> 't emulator" where
  "linefeed ops e = (let e1 = index_down ops e in if mode_set Line_Feed_New_Line e1 then carriage_return e1 else e1)"

definition reverse_index :: "buf_ops \<Rightarrow> 't emulator \<Rightarrow> 't emulator" where
  "reverse_index ops e =
     (let x = cur_x e; y = cur_y e; m = sc_scroll (scr e)
      in set_phantom False
        (if y = vr_y0 m \<and> vr_x0 m \<le> x \<and> x < vr_x1 m then on_scr (scroll_down ops 1) e else on_scr (move_cursor 0 (- 1)) e))"

subsection \<open>Printing\<close>

text \<open>The tables of \<^verbatim>\<open>charset.go\<close>, the replacements as UTF-8 bytes.\<close>

definition box_chars :: "(char \<times> string) list" where
  "box_chars =
     (let u = (\<lambda>b c. [CHR 0xE2, b, c])
      in [(CHR 0x60, u (CHR 0x97) (CHR 0x86)), (CHR ''a'', u (CHR 0x96) (CHR 0x92)), (CHR ''b'', u (CHR 0x90) (CHR 0x89)),
          (CHR ''c'', u (CHR 0x90) (CHR 0x8C)), (CHR ''d'', u (CHR 0x90) (CHR 0x8D)), (CHR ''e'', u (CHR 0x90) (CHR 0x8A)),
          (CHR ''f'', [CHR 0xC2, CHR 0xB0]), (CHR ''g'', [CHR 0xC2, CHR 0xB1]), (CHR ''h'', u (CHR 0x90) (CHR 0xA4)),
          (CHR ''i'', u (CHR 0x90) (CHR 0x8B)), (CHR ''j'', u (CHR 0x94) (CHR 0x98)), (CHR ''k'', u (CHR 0x94) (CHR 0x90)),
          (CHR ''l'', u (CHR 0x94) (CHR 0x8C)), (CHR ''m'', u (CHR 0x94) (CHR 0x94)), (CHR ''n'', u (CHR 0x94) (CHR 0xBC)),
          (CHR ''o'', u (CHR 0x8E) (CHR 0xBA)), (CHR ''p'', u (CHR 0x8E) (CHR 0xBB)), (CHR ''q'', u (CHR 0x94) (CHR 0x80)),
          (CHR ''r'', u (CHR 0x8E) (CHR 0xBC)), (CHR ''s'', u (CHR 0x8E) (CHR 0xBD)), (CHR ''t'', u (CHR 0x94) (CHR 0x9C)),
          (CHR ''u'', u (CHR 0x94) (CHR 0xA4)), (CHR ''v'', u (CHR 0x94) (CHR 0xB4)), (CHR ''w'', u (CHR 0x94) (CHR 0xAC)),
          (CHR ''x'', u (CHR 0x94) (CHR 0x82)), (CHR ''y'', u (CHR 0xA9) (CHR 0xBD)), (CHR ''z'', u (CHR 0xA9) (CHR 0xBE)),
          (CHR 0x7B, [CHR 0xCF, CHR 0x80]), (CHR 0x7C, u (CHR 0x89) (CHR 0xA0)), (CHR 0x7D, [CHR 0xC2, CHR 0xA3]),
          (CHR 0x7E, [CHR 0xC2, CHR 0xB7])])"

definition charset_char :: "charset \<Rightarrow> char \<Rightarrow> string option" where
  "charset_char cs c =
     (case cs of US_ASCII \<Rightarrow> None
      | UK_Set \<Rightarrow> if c = CHR ''$'' then Some [CHR 0xC2, CHR 0xA3] else None
      | Special_Drawing \<Rightarrow> map_of box_chars c)"

text \<open>The set a character goes through, and the state after it.\<close>

definition pick_charset :: "char \<Rightarrow> 't emulator \<Rightarrow> charset \<times> 't emulator" where
  "pick_charset c e =
     (if em_gsingle e > 1 \<and> em_gsingle e < 4 then (em_charsets e ! nat (em_gsingle e), e\<lparr>em_gsingle := 0\<rparr>)
      else if (of_char c :: nat) < 128 then (em_charsets e ! nat (em_gl e), e)
      else (em_charsets e ! nat (em_gr e), e))"

definition map_charset :: "cell \<Rightarrow> 't emulator \<Rightarrow> cell \<times> 't emulator" where
  "map_charset cell e =
     (case c_content cell of
        [c] \<Rightarrow> (let (cs, e') = pick_charset c e
                in case charset_char cs c of Some s \<Rightarrow> (cell\<lparr>c_content := s, c_width := 1\<rparr>, e') | None \<Rightarrow> (cell, e'))
      | _ \<Rightarrow> (cell, e))"

definition record_last :: "string \<Rightarrow> int \<Rightarrow> 't emulator \<Rightarrow> 't emulator" where
  "record_last content w e = e\<lparr>em_last_char := (content \<noteq> [] \<or> em_last_char e), em_last_grapheme := content, em_last_width := w\<rparr>"

definition advance_after_print :: "int \<Rightarrow> int \<Rightarrow> int \<Rightarrow> bool \<Rightarrow> 't emulator \<Rightarrow> 't emulator" where
  "advance_after_print x y w awm e =
     (let right = em_width e
      in if x + w \<ge> right then on_scr (set_cursor (right - 1) y False) (set_phantom awm e)
         else on_scr (set_cursor (x + w) y False) (set_phantom False e))"

text \<open>Leaving a row that wraps: the way it ends is recorded, and the cursor goes to the next row.\<close>

definition wrap_row :: "buf_ops \<Rightarrow> int \<Rightarrow> int \<Rightarrow> 't emulator \<Rightarrow> 't emulator" where
  "wrap_row ops y spacer e = index_down ops (on_scr (set_line_wrap y (soft_wrap spacer)) e)"

definition write_cell :: "buf_ops \<Rightarrow> int \<Rightarrow> int \<Rightarrow> cell \<Rightarrow> string \<Rightarrow> int \<Rightarrow> 't emulator \<Rightarrow> 't emulator" where
  "write_cell ops x y cell content width e0 =
     (let w = c_width cell; awm = mode_set Auto_Wrap e0;
          e1 = (if mode_set Insert_Replace e0 then on_scr (insert_cells ops w) (on_scr (set_cursor x y False) e0) else e0);
          e2 = (record_last content width e1)\<lparr>em_cell_x := x, em_cell_y := y, em_cell_w := w, em_cell_alt := em_on_alt e1\<rparr>;
          e3 = (if w \<noteq> 1 \<or> \<not> narrow_at x y (scr e2) then on_scr (prepare_cell x y w) e2 else e2);
          e4 = on_scr (set_cell ops x y (Some cell)) e3
      in advance_after_print x y w awm e4)"

definition handle_grapheme :: "buf_ops \<Rightarrow> string \<Rightarrow> int \<Rightarrow> 't emulator \<Rightarrow> 't emulator" where
  "handle_grapheme ops content width e0 =
     (let awm = mode_set Auto_Wrap e0; c = sc_cur (scr e0);
          cell0 = \<lparr>c_content = content, c_width = width, c_style = cu_pen c, c_url = cu_link c\<rparr>;
          wrap = (em_phantom e0 \<and> awm);
          e1 = (if wrap then wrap_row ops (cur_y e0) 0 e0 else e0);
          x1 = (if wrap then 0 else cur_x e0); y1 = (if wrap then cur_y e1 else cur_y e0);
          (cell, e2) = map_charset cell0 e1; w = c_width cell; right = em_width e2
      in if w \<le> 0 then e2\<lparr>em_cell_w := 0\<rparr>
         else if x1 + w > right
         then if \<not> awm \<or> w > right then e2\<lparr>em_cell_w := 0\<rparr>
              else let e3 = on_scr (blank_cells x1 y1 (right - x1)) e2;
                       e4 = on_scr (set_line_wrap y1 (soft_wrap (right - x1))) e3;
                       e5 = index_down ops (on_scr (set_cursor x1 y1 False) e4)
                   in write_cell ops 0 (cur_y e5) cell content width e5
         else write_cell ops x1 y1 cell content width e2)"

fun repeat_grapheme :: "buf_ops \<Rightarrow> nat \<Rightarrow> 't emulator \<Rightarrow> 't emulator" where
  "repeat_grapheme ops 0 e = e"
| "repeat_grapheme ops (Suc n) e = repeat_grapheme ops n (handle_grapheme ops (em_last_grapheme e) (em_last_width e) e)"

definition repeat_previous :: "buf_ops \<Rightarrow> int \<Rightarrow> 't emulator \<Rightarrow> 't emulator" where
  "repeat_previous ops n e =
     (if \<not> em_last_char e then e
      else let m = em_width e * em_height e in repeat_grapheme ops (nat (if m > 0 \<and> n > m then m else n)) e)"

text \<open>
  A rune that can only continue a cluster joins the cell drawn last, which is drawn again, perhaps at
  another width. \<open>seg\<close> is \<^verbatim>\<open>ansi.FirstGraphemeCluster\<close>.
\<close>

definition redraw_at :: "buf_ops \<Rightarrow> int \<Rightarrow> int \<Rightarrow> cell \<Rightarrow> bool \<Rightarrow> 't emulator \<Rightarrow> 't emulator" where
  "redraw_at ops x y cell awm e =
     (let v = c_width cell; e1 = on_scr (set_cell ops x y (Some cell)) (on_scr (prepare_cell x y v) e)
      in advance_after_print x y v awm (record_last (c_content cell) v (e1\<lparr>em_cell_x := x, em_cell_y := y, em_cell_w := v\<rparr>)))"

definition redraw_last :: "buf_ops \<Rightarrow> cell \<Rightarrow> 't emulator \<Rightarrow> 't emulator" where
  "redraw_last ops cell e =
     (let x = em_cell_x e; y = em_cell_y e; old = em_cell_w e; v = c_width cell; awm = mode_set Auto_Wrap e; right = em_width e
      in if v \<le> 0 then e
         else if v = old then record_last (c_content cell) v (on_scr (set_cell ops x y (Some cell)) e)
         else if x + v > right
         then if \<not> awm \<or> v > right then e
              else let e1 = on_scr (blank_cells x y (right - x)) e;
                       e2 = on_scr (set_line_wrap y (soft_wrap (right - x))) e1;
                       e3 = index_down ops (on_scr (set_cursor x y False) e2)
                   in redraw_at ops 0 (cur_y e3) cell awm e3
         else redraw_at ops x y cell awm (if v < old then on_scr (blank_cells (x + v) y (old - v)) e else e))"

definition attach_to_last :: "buf_ops \<Rightarrow> (string \<Rightarrow> string \<times> int) \<Rightarrow> string \<Rightarrow> 't emulator \<Rightarrow> bool \<times> 't emulator" where
  "attach_to_last ops seg r e =
     (let x = em_cell_x e; y = em_cell_y e; v = em_cell_w e
      in if v \<le> 0 \<or> em_cell_alt e \<noteq> em_on_alt e \<or> cur_y e \<noteq> y \<or> cur_x e \<noteq> min (x + v) (em_width e - 1) then (False, e)
         else case scr_cell x y (scr e) of
           None \<Rightarrow> (False, e)
         | Some prev \<Rightarrow>
             if c_width prev \<noteq> v \<or> c_content prev = [] then (False, e)
             else let s = c_content prev @ r; (cluster, n) = seg s
                  in if length cluster \<noteq> length s then (False, e)
                     else (True, redraw_last ops (prev\<lparr>c_content := cluster, c_width := n\<rparr>) e))"

subsection \<open>Erasing\<close>

definition em_fill :: "buf_ops \<Rightarrow> vrect \<Rightarrow> 't emulator \<Rightarrow> 't emulator" where
  "em_fill ops area e = on_scr (\<lambda>s. fill_area ops (blank_pen s) area s) e"

definition erase_character :: "buf_ops \<Rightarrow> int \<Rightarrow> 't emulator \<Rightarrow> 't emulator" where
  "erase_character ops n0 e =
     (let n = min (if n0 \<le> 0 then 1 else n0) (em_width e - cur_x e)
      in set_phantom False (if n \<le> 0 then e else em_fill ops (vt_rect (cur_x e) (cur_y e) n 1) e))"

definition erase_display :: "buf_ops \<Rightarrow> int \<Rightarrow> 't emulator \<Rightarrow> 't emulator" where
  "erase_display ops n e =
     (let w = em_width e; h = em_height e; x = cur_x e; y = cur_y e
      in if n = 0 then set_phantom False (em_fill ops (vt_rect 0 (y + 1) w (h - y - 1)) (em_fill ops (vt_rect x y w 1) e))
         else if n = 1 then set_phantom False (em_fill ops (vt_rect 0 y (x + 1) 1) (em_fill ops (vt_rect 0 0 w y) e))
         else if n = 2 then set_phantom False (em_fill ops (bounds (scr e)) e)
         else if n = 3 then set_phantom False (on_scr clear_scrollback e)
         else e)"

definition erase_line :: "buf_ops \<Rightarrow> int \<Rightarrow> 't emulator \<Rightarrow> 't emulator" where
  "erase_line ops n e =
     (let w = em_width e; x = cur_x e; y = cur_y e
      in if n = 0 then erase_character ops (w - x) e
         else if n = 1 then set_phantom False (em_fill ops (vt_rect 0 y (x + 1) 1) e)
         else if n = 2 then set_phantom False (em_fill ops (vt_rect 0 y w 1) e)
         else e)"

definition screen_alignment :: "buf_ops \<Rightarrow> 't emulator \<Rightarrow> 't emulator" where
  "screen_alignment ops e =
     (let e1 = on_scr (\<lambda>s. s\<lparr>sc_scroll := bounds s\<rparr>) e
      in em_set_cursor 0 0 (on_scr (\<lambda>s. fill_area ops (Some (empty_cell\<lparr>c_content := ''E''\<rparr>)) (bounds s) s) e1))"

subsection \<open>Modes\<close>

definition em_save :: "'t emulator \<Rightarrow> 't emulator" where
  "em_save e = on_scr (\<lambda>s. (save_cursor s)\<lparr>sc_state := \<lparr>sv_valid = True, sv_phantom = em_phantom e,
     sv_origin = mode_set Origin e, sv_charsets = em_charsets e, sv_gl = em_gl e, sv_gr = em_gr e, sv_gsingle = em_gsingle e\<rparr>\<rparr>) e"

definition em_restore :: "'t emulator \<Rightarrow> 't emulator" where
  "em_restore e0 =
     (let e = on_scr restore_cursor e0; st0 = sc_state (scr e);
          st = (if sv_valid st0 then st0 else nothing_saved\<lparr>sv_gr := 1\<rparr>)
      in e\<lparr>em_charsets := sv_charsets st, em_gl := sv_gl st, em_gr := sv_gr st, em_gsingle := sv_gsingle st,
           em_modes := (em_modes e)(Origin := sv_origin st), em_phantom := sv_phantom st\<rparr>)"

definition set_alt_screen :: "buf_ops \<Rightarrow> bool \<Rightarrow> bool \<Rightarrow> 't emulator \<Rightarrow> bool \<times> 't emulator" where
  "set_alt_screen ops on clear e0 =
     (if on = em_on_alt e0 then (False, e0)
      else let e = on_scr (\<lambda>s. s\<lparr>sc_phantom := em_phantom e0\<rparr>) e0
           in if on
              then let e1 = e\<lparr>em_on_alt := True, em_alt := (em_alt e)\<lparr>sc_cur := sc_cur (em_main e)\<rparr>\<rparr>
                   in (True, if clear then em_set_cursor 0 0 (on_scr (clear_screen ops) e1) else e1)
              else let e1 = (if clear then e\<lparr>em_alt := clear_screen ops (em_alt e)\<rparr> else e); c = sc_cur (em_alt e1);
                       e2 = on_scr (\<lambda>s. set_cursor_style (cu_style c) (\<not> cu_steady c) (set_hidden (cu_hidden c) s)) (e1\<lparr>em_on_alt := False\<rparr>)
                   in (True, set_phantom (sc_phantom (em_main e2)) e2))"

definition set_mode :: "buf_ops \<Rightarrow> mode \<Rightarrow> bool \<Rightarrow> 't emulator \<Rightarrow> 't emulator" where
  "set_mode ops m on e0 =
     (let e = e0\<lparr>em_modes := (em_modes e0)(m := on)\<rparr>
      in case m of
        Cursor_Enable \<Rightarrow> on_scr (set_hidden (\<not> on)) e
      | Alt_47 \<Rightarrow> snd (set_alt_screen ops on False e)
      | Alt_1047 \<Rightarrow> snd (set_alt_screen ops on (\<not> on) e)
      | Save_1048 \<Rightarrow> if on then em_save e else em_restore e
      | Alt_1049 \<Rightarrow>
          (if on then snd (set_alt_screen ops True True (if em_on_alt e then e else em_save e))
           else case set_alt_screen ops False False e of (True, e') \<Rightarrow> em_restore e' | (False, e') \<Rightarrow> e')
      | _ \<Rightarrow> e)"

definition soft_reset :: "buf_ops \<Rightarrow> 't emulator \<Rightarrow> 't emulator" where
  "soft_reset ops e0 =
     (let e = set_mode ops Auto_Wrap True (set_mode ops Origin False (set_mode ops Insert_Replace False (set_mode ops Cursor_Enable True e0)));
          e1 = on_scr (\<lambda>s. s\<lparr>sc_scroll := bounds s, sc_cur := (sc_cur s)\<lparr>cu_pen := plain_style, cu_link := []\<rparr>,
            sc_saved := home_cursor, sc_state := nothing_saved\<rparr>) e
      in e1\<lparr>em_charsets := replicate 4 US_ASCII, em_gl := 0, em_gr := 1, em_gsingle := 0, em_phantom := False\<rparr>)"

text \<open>
  \<^verbatim>\<open>resetModes\<close> walks over a Go map, in an order that is not fixed: the order is an argument, a list of the
  modes the emulator starts with.
\<close>

definition full_reset :: "buf_ops \<Rightarrow> 't tab_ops \<Rightarrow> mode list \<Rightarrow> 't emulator \<Rightarrow> 't emulator" where
  "full_reset ops tb order e0 =
     (let e = e0\<lparr>em_main := reset_screen ops (em_main e0), em_alt := reset_screen ops (em_alt e0)\<rparr>;
          e1 = e\<lparr>em_tabs := tb_default tb (em_width e), em_modes := default_modes\<rparr>;
          e2 = fold (\<lambda>m. set_mode ops m (default_modes m)) order e1
      in e2\<lparr>em_gl := 0, em_gr := 1, em_gsingle := 0, em_charsets := replicate 4 US_ASCII, em_phantom := False, em_last_char := False\<rparr>)"

subsection \<open>Margins and lines\<close>

definition set_top_bottom :: "int \<Rightarrow> int \<Rightarrow> 't emulator \<Rightarrow> 't emulator" where
  "set_top_bottom t0 b0 e =
     (let t = max t0 1; h = em_height e; b = (if b0 < 1 \<or> b0 > h then h else b0)
      in if t \<ge> b then e else set_cursor_position 0 0 (on_scr (set_vertical_margins (t - 1) b) e))"

definition set_left_right :: "int \<Rightarrow> int \<Rightarrow> 't emulator \<Rightarrow> 't emulator" where
  "set_left_right l0 r0 e =
     (if mode_set Left_Right_Margin e
      then let l = max l0 1; w = em_width e; r = (if r0 < 1 \<or> r0 > w then w else r0)
           in if l \<ge> r then e else set_cursor_position 0 0 (on_scr (set_horizontal_margins (l - 1) r) e)
      else em_save e)"

definition edit_lines :: "(int \<Rightarrow> screen \<Rightarrow> bool \<times> screen) \<Rightarrow> int \<Rightarrow> 't emulator \<Rightarrow> 't emulator" where
  "edit_lines f n e0 =
     (let e = set_phantom False e0; (done, s) = f n (scr e); e1 = on_scr (\<lambda>_. s) e
      in if done then on_scr (set_cursor (vr_x0 (sc_scroll s)) (cu_y (sc_cur s)) False) e1 else e1)"

text \<open>
  \<^verbatim>\<open>Resize\<close>: a new width reflows the main screen, the alternate screen is only cut or filled. A pending
  wrap survives on the last column only.
\<close>

definition resize_main :: "buf_ops \<Rightarrow> int \<Rightarrow> int \<Rightarrow> 't emulator \<Rightarrow> 't emulator" where
  "resize_main ops w h e =
     (if w > 0 \<and> h > 0 \<and> w \<noteq> scr_width (em_main e)
      then let (at_end, m) = reflow_resize w h (em_main e); e1 = e\<lparr>em_main := m\<rparr>
           in if \<not> at_end then e1
              else if em_on_alt e then e1\<lparr>em_main := m\<lparr>sc_phantom := True\<rparr>\<rparr> else set_phantom True e1
      else e\<lparr>em_main := resize_keeping_cursor ops w h (em_main e)\<rparr>)"

definition em_resize :: "buf_ops \<Rightarrow> 't tab_ops \<Rightarrow> int \<Rightarrow> int \<Rightarrow> 't emulator \<Rightarrow> 't emulator" where
  "em_resize ops tb w h e =
     (let e1 = resize_main ops w h e;
          e2 = e1\<lparr>em_alt := resize_keeping_cursor ops w h (em_alt e1), em_cell_w := 0, em_tabs := tb_resize tb w (em_tabs e1)\<rparr>
      in if em_phantom e2 \<and> cur_x e2 < w - 1 then set_phantom False (on_scr (put_cursor (cur_x e2 + 1) (cur_y e2)) e2) else e2)"

text \<open>What a reader of the history does first.\<close>

definition em_settle :: "'t emulator \<Rightarrow> 't emulator" where
  "em_settle e = e\<lparr>em_main := settle_reflow (em_main e)\<rparr>"

subsection \<open>What a guest can send, and what its window asks for\<close>

text \<open>Control characters, 7-bit or 8-bit.\<close>

datatype control = BS | HT | LF | CR | Shift_Out | Shift_In | HTS | RI | IND | Single_Shift int

fun control_step :: "buf_ops \<Rightarrow> 't tab_ops \<Rightarrow> control \<Rightarrow> 't emulator \<Rightarrow> 't emulator" where
  "control_step ops tb BS e = em_move (- 1) 0 e"
| "control_step ops tb HT e = next_tab tb 1 e"
| "control_step ops tb LF e = linefeed ops e"
| "control_step ops tb CR e = carriage_return e"
| "control_step ops tb Shift_Out e = e\<lparr>em_gl := 1\<rparr>"
| "control_step ops tb Shift_In e = e\<lparr>em_gl := 0\<rparr>"
| "control_step ops tb HTS e = e\<lparr>em_tabs := tb_set tb (cur_x e) (em_tabs e)\<rparr>"
| "control_step ops tb RI e = reverse_index ops e"
| "control_step ops tb IND e = index_down ops e"
| "control_step ops tb (Single_Shift k) e = (if k = 2 \<or> k = 3 then e\<lparr>em_gsingle := k\<rparr> else e)"

text \<open>Escape sequences; \<open>Seven_Bit\<close> are those that stand for a control character.\<close>

datatype escape =
    Keypad bool | DECSC | DECRC | Select_Charset nat charset | Seven_Bit control | DECALN | RIS "mode list"
  | Lock_Left int | Lock_Right int

fun escape_step :: "buf_ops \<Rightarrow> 't tab_ops \<Rightarrow> escape \<Rightarrow> 't emulator \<Rightarrow> 't emulator" where
  "escape_step ops tb (Keypad on) e = set_mode ops (Other_Mode 66) on e"
| "escape_step ops tb DECSC e = em_save e"
| "escape_step ops tb DECRC e = em_restore e"
| "escape_step ops tb (Select_Charset i cs) e = (if i < 4 then e\<lparr>em_charsets := (em_charsets e)[i := cs]\<rparr> else e)"
| "escape_step ops tb (Seven_Bit c) e = control_step ops tb c e"
| "escape_step ops tb DECALN e = screen_alignment ops e"
| "escape_step ops tb (RIS order) e = full_reset ops tb order e"
| "escape_step ops tb (Lock_Left k) e = (if k = 2 \<or> k = 3 then e\<lparr>em_gl := k\<rparr> else e)"
| "escape_step ops tb (Lock_Right k) e = (if 1 \<le> k \<and> k \<le> 3 then e\<lparr>em_gr := k\<rparr> else e)"

text \<open>Control sequences, with their parameters; \<open>SGR\<close> carries the pen it leads to.\<close>

datatype csi =
    ICH int | CUU int | CUD int | CUF int | CUB int | CNL int | CPL int | CHA int | CUP int int | CHT int
  | ED int | EL int | IL int | DL int | DCH int | SU int | SD int | DECST8C | ECH int | CBT int
  | HPA int | HPR int | REP int | VPA int | VPR int | TBC int
  | SM mode bool | SGR style | DECSCUSR int | DECSTBM int int | DECSLRM int int | DECSTR | SCORC

definition count :: "int \<Rightarrow> int" where "count n = max n 1"

definition cursor_style_param :: "int \<Rightarrow> 't emulator \<Rightarrow> 't emulator" where
  "cursor_style_param p e =
     (let n = max p 1; blink = (n mod 2 = 1); st = n div 2 - (if blink then 0 else 1)
      in on_scr (set_cursor_style st blink) e)"

definition tab_clear :: "'t tab_ops \<Rightarrow> int \<Rightarrow> 't emulator \<Rightarrow> 't emulator" where
  "tab_clear tb n e =
     (if n = 0 then e\<lparr>em_tabs := tb_reset tb (cur_x e) (em_tabs e)\<rparr> else if n = 3 then e\<lparr>em_tabs := tb_clear tb (em_tabs e)\<rparr> else e)"

fun csi_step :: "buf_ops \<Rightarrow> 't tab_ops \<Rightarrow> csi \<Rightarrow> 't emulator \<Rightarrow> 't emulator" where
  "csi_step ops tb (ICH n) e = set_phantom False (on_scr (insert_cells ops (count n)) e)"
| "csi_step ops tb (CUU n) e = em_move 0 (- count n) e"
| "csi_step ops tb (CUD n) e = em_move 0 (count n) e"
| "csi_step ops tb (CUF n) e = em_move (count n) 0 e"
| "csi_step ops tb (CUB n) e = em_move (- count n) 0 e"
| "csi_step ops tb (CNL n) e = carriage_return (em_move 0 (count n) e)"
| "csi_step ops tb (CPL n) e = carriage_return (em_move 0 (- count n) e)"
| "csi_step ops tb (CHA n) e = em_set_cursor (n - 1) (cur_y e) e"
| "csi_step ops tb (CUP row col) e = cursor_position_params row col e"
| "csi_step ops tb (CHT n) e = next_tab tb (count n) e"
| "csi_step ops tb (ED n) e = erase_display ops n e"
| "csi_step ops tb (EL n) e = erase_line ops n e"
| "csi_step ops tb (IL n) e = edit_lines (insert_line ops) (count n) e"
| "csi_step ops tb (DL n) e = edit_lines (delete_line ops) (count n) e"
| "csi_step ops tb (DCH n) e = set_phantom False (on_scr (delete_cells ops (count n)) e)"
| "csi_step ops tb (SU n) e = on_scr (scroll_up ops (count n)) e"
| "csi_step ops tb (SD n) e = on_scr (scroll_down ops (count n)) e"
| "csi_step ops tb DECST8C e = e\<lparr>em_tabs := tb_default tb (em_width e)\<rparr>"
| "csi_step ops tb (ECH n) e = erase_character ops n e"
| "csi_step ops tb (CBT n) e = prev_tab tb (count n) e"
| "csi_step ops tb (HPA n) e = set_cursor_position (count n - 1) (snd (origin_position e)) e"
| "csi_step ops tb (HPR n) e = set_cursor_position (fst (origin_position e) + count n) (snd (origin_position e)) e"
| "csi_step ops tb (REP n) e = repeat_previous ops (count n) e"
| "csi_step ops tb (VPA n) e = set_cursor_position (fst (origin_position e)) (count n - 1) e"
| "csi_step ops tb (VPR n) e = set_cursor_position (fst (origin_position e)) (snd (origin_position e) + count n) e"
| "csi_step ops tb (TBC n) e = tab_clear tb n e"
| "csi_step ops tb (SM m on) e = set_mode ops m on e"
| "csi_step ops tb (SGR p) e = on_scr (\<lambda>s. s\<lparr>sc_cur := (sc_cur s)\<lparr>cu_pen := p\<rparr>\<rparr>) e"
| "csi_step ops tb (DECSCUSR p) e = cursor_style_param p e"
| "csi_step ops tb (DECSTBM t b) e = set_top_bottom t b e"
| "csi_step ops tb (DECSLRM l r) e = set_left_right l r e"
| "csi_step ops tb DECSTR e = soft_reset ops e"
| "csi_step ops tb SCORC e = em_restore e"

datatype guest = Cluster string int | Extend string "string \<Rightarrow> string \<times> int" | Control control | Escape escape | Csi csi | Hyperlink string | Resize int int | Read_History

fun guest_step :: "buf_ops \<Rightarrow> 't tab_ops \<Rightarrow> guest \<Rightarrow> 't emulator \<Rightarrow> 't emulator" where
  "guest_step ops tb (Cluster s w) e = handle_grapheme ops s w e"
| "guest_step ops tb (Extend r seg) e = snd (attach_to_last ops seg r e)"
| "guest_step ops tb (Control c) e = control_step ops tb c e"
| "guest_step ops tb (Escape c) e = escape_step ops tb c e"
| "guest_step ops tb (Csi c) e = csi_step ops tb c e"
| "guest_step ops tb (Hyperlink u) e = on_scr (\<lambda>s. s\<lparr>sc_cur := (sc_cur s)\<lparr>cu_link := u\<rparr>\<rparr>) e"
| "guest_step ops tb (Resize w h) e = em_resize ops tb w h e"
| "guest_step ops tb Read_History e = em_settle e"

definition guest_run :: "buf_ops \<Rightarrow> 't tab_ops \<Rightarrow> guest list \<Rightarrow> 't emulator \<Rightarrow> 't emulator" where
  "guest_run ops tb = fold (guest_step ops tb)"

end
