(* ===== verification/VtSafety.thy ===== *)
theory VtSafety
  imports VtScreen
begin

text \<open>
  The invariant of a screen, kept by every operation: the grid keeps its size, the cursor and the
  margins stay on it, the wrap flags match the rows, and the scrollback ring stays a ring.
\<close>

subsection \<open>The invariant of a screen\<close>

text \<open>What the cell buffer's operations keep: the size of the grid.\<close>

definition buf_dims :: "buf_ops \<Rightarrow> bool" where
  "buf_dims ops \<longleftrightarrow>
     (\<forall>w h. 1 \<le> w \<longrightarrow> 1 \<le> h \<longrightarrow> grid_dims w h (bo_new ops w h)) \<and>
     (\<forall>w h w' h' g. 1 \<le> w \<longrightarrow> 1 \<le> h \<longrightarrow> grid_dims w' h' g \<longrightarrow> grid_dims w h (bo_resize ops w h g)) \<and>
     (\<forall>w h g x y c. grid_dims w h g \<longrightarrow> grid_dims w h (bo_set ops x y c g)) \<and>
     (\<forall>w h g c a. grid_dims w h g \<longrightarrow> grid_dims w h (bo_fill ops c a g)) \<and>
     (\<forall>w h g y n c a. grid_dims w h g \<longrightarrow> grid_dims w h (bo_insert ops y n c a g)) \<and>
     (\<forall>w h g y n c a. grid_dims w h g \<longrightarrow> grid_dims w h (bo_delete ops y n c a g))"

definition in_bounds :: "int \<Rightarrow> int \<Rightarrow> cursor \<Rightarrow> bool" where
  "in_bounds w h c \<longleftrightarrow> 0 \<le> cu_x c \<and> cu_x c < w \<and> 0 \<le> cu_y c \<and> cu_y c < h"

definition margins_ok :: "int \<Rightarrow> int \<Rightarrow> vrect \<Rightarrow> bool" where
  "margins_ok w h m \<longleftrightarrow> 0 \<le> vr_x0 m \<and> vr_x0 m < vr_x1 m \<and> vr_x1 m \<le> w \<and> 0 \<le> vr_y0 m \<and> vr_y0 m < vr_y1 m \<and> vr_y1 m \<le> h"

definition sets_ok :: "charset list \<Rightarrow> int \<Rightarrow> int \<Rightarrow> int \<Rightarrow> bool" where
  "sets_ok cs gl gr gs \<longleftrightarrow> length cs = 4 \<and> gl \<in> {0..3} \<and> gr \<in> {0..3} \<and> gs \<in> {0..3}"

definition state_ok :: "saved_state \<Rightarrow> bool" where
  "state_ok st \<longleftrightarrow> sets_ok (sv_charsets st) (sv_gl st) (sv_gr st) (sv_gsingle st)"

definition back_ok :: "cell ring option \<Rightarrow> bool" where
  "back_ok b \<longleftrightarrow> (case b of None \<Rightarrow> True | Some r \<Rightarrow> ring_inv r)"

definition screen_ok :: "int \<Rightarrow> int \<Rightarrow> screen \<Rightarrow> bool" where
  "screen_ok w h s \<longleftrightarrow> 1 \<le> w \<and> 1 \<le> h \<and> grid_dims w h (sc_rows s) \<and> int (length (sc_wraps s)) = h \<and>
     in_bounds w h (sc_cur s) \<and> margins_ok w h (sc_scroll s) \<and> back_ok (sc_back s) \<and> state_ok (sc_state s)"

lemma screen_okD:
  assumes "screen_ok w h s"
  shows "1 \<le> w" "1 \<le> h" "grid_dims w h (sc_rows s)" "int (length (sc_wraps s)) = h" "in_bounds w h (sc_cur s)"
    "margins_ok w h (sc_scroll s)" "back_ok (sc_back s)" "state_ok (sc_state s)"
  using assms by (simp_all add: screen_ok_def)

lemma grid_size:
  assumes "grid_dims w h g" "1 \<le> h"
  shows "int (length g) = h" "(case g of [] \<Rightarrow> 0 | r # rs \<Rightarrow> int (length r)) = w"
  using assms by (cases g; auto simp: grid_dims_def)+

lemma screen_size:
  assumes "screen_ok w h s"
  shows "scr_width s = w" "scr_height s = h" "bounds s = \<lparr>vr_x0 = 0, vr_y0 = 0, vr_x1 = w, vr_y1 = h\<rparr>" "region s = sc_scroll s"
proof -
  show wh: "scr_width s = w" "scr_height s = h"
    using grid_size [OF screen_okD(3) [OF assms] screen_okD(2) [OF assms]] by (simp_all add: scr_width_def scr_height_def)
  show b: "bounds s = \<lparr>vr_x0 = 0, vr_y0 = 0, vr_x1 = w, vr_y1 = h\<rparr>"
    using screen_okD(1,2) [OF assms] by (simp add: bounds_def vt_rect_def wh)
  show "region s = sc_scroll s"
    using screen_okD(6) [OF assms] by (cases "sc_scroll s") (simp add: region_def vr_intersect_def b margins_ok_def vr_empty_def Let_def)
qed

lemma clear_ring_inv: "ring_inv r \<Longrightarrow> ring_inv (clear_ring r)"
  using clear_spec by blast

lemma screen_ok_simps [simp]:
  "screen_ok w h (s\<lparr>sc_saved := c\<rparr>) = screen_ok w h s"
  "screen_ok w h (s\<lparr>sc_phantom := b\<rparr>) = screen_ok w h s"
  by (simp_all add: screen_ok_def)

text \<open>The updates the operations are made of.\<close>

lemma ok_rows: "screen_ok w h s \<Longrightarrow> grid_dims w h g \<Longrightarrow> screen_ok w h (s\<lparr>sc_rows := g\<rparr>)"
  by (simp add: screen_ok_def)

lemma ok_wraps: "screen_ok w h s \<Longrightarrow> int (length ws) = h \<Longrightarrow> screen_ok w h (s\<lparr>sc_wraps := ws\<rparr>)"
  by (simp add: screen_ok_def)

lemma ok_cursor: "screen_ok w h s \<Longrightarrow> 0 \<le> x \<Longrightarrow> x < w \<Longrightarrow> 0 \<le> y \<Longrightarrow> y < h \<Longrightarrow> screen_ok w h (put_cursor x y s)"
  by (simp add: screen_ok_def put_cursor_def in_bounds_def)

lemma ok_back: "screen_ok w h s \<Longrightarrow> back_ok b \<Longrightarrow> screen_ok w h (s\<lparr>sc_back := b\<rparr>)"
  by (simp add: screen_ok_def)

lemma ok_margins: "screen_ok w h s \<Longrightarrow> margins_ok w h m \<Longrightarrow> screen_ok w h (s\<lparr>sc_scroll := m\<rparr>)"
  by (simp add: screen_ok_def)

lemma ok_same_place: "screen_ok w h s \<Longrightarrow> cu_x c = cu_x (sc_cur s) \<Longrightarrow> cu_y c = cu_y (sc_cur s) \<Longrightarrow> screen_ok w h (s\<lparr>sc_cur := c\<rparr>)"
  by (simp add: screen_ok_def in_bounds_def)

lemma bounds_margins: "screen_ok w h s \<Longrightarrow> margins_ok w h (bounds s)"
  using screen_okD(1,2) [of w h s] by (simp add: screen_size margins_ok_def)

lemma set_line_wrap_ok: "screen_ok w h s \<Longrightarrow> screen_ok w h (set_line_wrap y v s)"
  by (auto simp: set_line_wrap_def intro!: ok_wraps dest: screen_okD)

lemma unwrap_ok: "screen_ok w h s \<Longrightarrow> screen_ok w h (unwrap_area a s)"
  by (auto simp: unwrap_area_def Let_def intro!: ok_wraps dest: screen_okD)

lemma shift_wraps_ok: "screen_ok w h s \<Longrightarrow> 0 \<le> y \<Longrightarrow> screen_ok w h (shift_wraps y n a ins s)"
proof -
  assume s: "screen_ok w h s" and y0: "0 \<le> y"
  show ?thesis
  proof (cases "n \<le> 0 \<or> y < vr_y0 a \<or> y \<ge> vr_y1 a \<or> vr_x1 a < scr_width s \<or> y \<ge> int (nat (min (vr_y1 a) (int (length (sc_wraps s)))))")
    case True
    then have "shift_wraps y n a ins s = s" by (simp add: shift_wraps_def Let_def)
    with s show ?thesis by simp
  next
    case False
    define ws where "ws = sc_wraps s"
    define b where "b = nat (min (vr_y1 a) (int (length ws)))"
    define t where "t = nat y"
    define k where "k = nat (min n (int b - y))"
    define mid where "mid = (if vr_x0 a > 0 then replicate (b - t) hard_break
      else if ins then replicate k hard_break @ take (b - t - k) (take (b - t) (drop t ws))
      else drop k (take (b - t) (drop t ws)) @ replicate k hard_break)"
    have b: "b \<le> length ws" by (simp add: b_def)
    have "y < int b" using False by (simp add: b_def ws_def)
    then have t: "t < b" "k \<le> b - t" using y0 unfolding t_def k_def by linarith+
    have "length mid = b - t" using b t by (auto simp: mid_def)
    then have l: "length (take t ws @ mid @ drop b ws) = length ws" using b t by simp
    have "shift_wraps y n a ins s = s\<lparr>sc_wraps := take t ws @ mid @ drop b ws\<rparr>"
      unfolding shift_wraps_def Let_def mid_def k_def t_def b_def ws_def by (rule if_not_P [OF False])
    then show ?thesis using ok_wraps [OF s, of "take t ws @ mid @ drop b ws"] screen_okD(4) [OF s] l by (simp add: ws_def)
  qed
qed

lemma on_row_ok:
  assumes "screen_ok w h s" "\<And>r. length r = nat w \<Longrightarrow> length (f r) = nat w"
  shows "screen_ok w h (on_row y f s)"
proof -
  have g: "grid_dims w h (sc_rows s)" "1 \<le> w" using screen_okD [OF assms(1)] by auto
  then have r: "length r = nat w" if "r \<in> set (sc_rows s)" for r using that by (force simp: grid_dims_def)
  have "grid_dims w h ((sc_rows s)[nat y := f (sc_rows s ! nat y)])" if "0 \<le> y" "y < h"
  proof -
    have "sc_rows s ! nat y \<in> set (sc_rows s)" using that g by (auto simp: grid_dims_def)
    then have "int (length (f (sc_rows s ! nat y))) = w" using assms(2) r g(2) by simp
    then show ?thesis using g by (auto simp: grid_dims_def dest!: set_update_subset_insert [THEN subsetD])
  qed
  then show ?thesis using assms(1) by (simp add: on_row_def screen_size ok_rows)
qed

lemma set_cursor_ok: "screen_ok w h s \<Longrightarrow> screen_ok w h (set_cursor x y m s)"
proof -
  assume s: "screen_ok w h s"
  have r: "vt_clamp x 0 (w - 1) \<in> {0..w - 1}" "vt_clamp y 0 (h - 1) \<in> {0..h - 1}"
    using vt_clamp_range [of 0 "w - 1"] vt_clamp_range [of 0 "h - 1"] screen_okD(1,2) [OF s] by auto
  let ?m = "sc_scroll s"
  have "margins_ok w h ?m" by (rule screen_okD(6) [OF s])
  then have m: "0 \<le> vr_x0 ?m" "vr_x0 ?m \<le> vr_x1 ?m - 1" "vr_x1 ?m \<le> w" "0 \<le> vr_y0 ?m" "vr_y0 ?m \<le> vr_y1 ?m - 1" "vr_y1 ?m \<le> h"
    by (auto simp: margins_ok_def)
  have q: "vt_clamp (vr_x0 ?m + x) (vr_x0 ?m) (vr_x1 ?m - 1) \<in> {vr_x0 ?m..vr_x1 ?m - 1}"
    "vt_clamp (vr_y0 ?m + y) (vr_y0 ?m) (vr_y1 ?m - 1) \<in> {vr_y0 ?m..vr_y1 ?m - 1}"
    using vt_clamp_range [OF m(2)] vt_clamp_range [OF m(5)] by auto
  have a: "screen_ok w h (put_cursor (vt_clamp x 0 (w - 1)) (vt_clamp y 0 (h - 1)) s)"
    by (rule ok_cursor [OF s]) (use r in auto)
  have b: "screen_ok w h (put_cursor (vt_clamp (vr_x0 ?m + x) (vr_x0 ?m) (vr_x1 ?m - 1)) (vt_clamp (vr_y0 ?m + y) (vr_y0 ?m) (vr_y1 ?m - 1)) s)"
    by (rule ok_cursor [OF s]) (use q m in auto)
  show ?thesis using a b by (simp add: set_cursor_def Let_def screen_size [OF s])
qed

lemma move_within_range: "0 \<le> edge \<Longrightarrow> 0 \<le> move_within p d l u edge \<and> move_within p d l u edge \<le> edge"
  using vt_clamp_range [of 0 edge] by (simp add: move_within_def Let_def)

lemma move_cursor_ok: "screen_ok w h s \<Longrightarrow> screen_ok w h (move_cursor dx dy s)"
proof -
  assume s: "screen_ok w h s"
  have "0 \<le> w - 1" "0 \<le> h - 1" using screen_okD(1,2) [OF s] by auto
  note range = move_within_range [OF this(1)] move_within_range [OF this(2)]
  show ?thesis unfolding move_cursor_def Let_def screen_size [OF s]
    by (intro ok_cursor [OF s])
      (use range(1) [of "cu_x (sc_cur s)" dx "vr_x0 (sc_scroll s)" "vr_x1 (sc_scroll s) - 1"]
        range(2) [of "cu_y (sc_cur s)" dy "vr_y0 (sc_scroll s)" "vr_y1 (sc_scroll s) - 1"] in linarith)+
qed

lemma clamp_position_ok:
  assumes "1 \<le> scr_width s" "1 \<le> scr_height s"
  shows "in_bounds (scr_width s) (scr_height s) (clamp_position s c)"
proof -
  have "0 \<le> max (scr_width s - 1) 0" "0 \<le> max (scr_height s - 1) 0" by simp_all
  note r = vt_clamp_range [OF this(1)] vt_clamp_range [OF this(2)]
  show ?thesis
    using r(1) [of "cu_x c"] r(2) [of "cu_y c"] assms by (simp add: clamp_position_def in_bounds_def)
qed

lemma restore_cursor_ok: "screen_ok w h s \<Longrightarrow> screen_ok w h (restore_cursor s)"
proof -
  assume s: "screen_ok w h s"
  have "in_bounds w h (clamp_position s c)" for c
    using clamp_position_ok [of s c] screen_okD(1,2) [OF s] by (simp add: screen_size [OF s])
  with s show ?thesis by (simp add: restore_cursor_def screen_ok_def Let_def)
qed

lemma horizontal_ok:
  assumes "screen_ok w h s" "0 \<le> l" "l < r" "r \<le> w"
  shows "screen_ok w h (set_horizontal_margins l r s)"
  using assms screen_okD(6) [OF assms(1)]
  by (auto simp: set_horizontal_margins_def Let_def screen_size [OF assms(1)] vt_clamp_id margins_ok_def intro!: ok_margins)

lemma vertical_ok:
  assumes "screen_ok w h s" "0 \<le> t" "t < b" "b \<le> h"
  shows "screen_ok w h (set_vertical_margins t b s)"
  using assms screen_okD(6) [OF assms(1)]
  by (auto simp: set_vertical_margins_def Let_def screen_size [OF assms(1)] vt_clamp_id margins_ok_def intro!: ok_margins)

subsection \<open>Every operation of a screen keeps it\<close>

lemma push_rows_inv: "back_ok b \<Longrightarrow> back_ok (push_rows ss b)"
proof -
  have "(\<lambda>(line, w) r. snd (push_owned line w r)) = (push_line_slot :: cell slot \<Rightarrow> cell ring \<Rightarrow> cell ring)"
    by (auto simp: push_line_slot_def push_line_wrap_def push_owned_def fun_eq_iff)
  then show "back_ok b \<Longrightarrow> back_ok (push_rows ss b)"
    using ring_log.run_inv [of _ ss] by (cases b) (auto simp: back_ok_def push_rows_def)
qed

lemma buf_dimsD:
  assumes "buf_dims ops"
  shows "1 \<le> w \<Longrightarrow> 1 \<le> h \<Longrightarrow> grid_dims w h (bo_new ops w h)"
    "1 \<le> w \<Longrightarrow> 1 \<le> h \<Longrightarrow> grid_dims w' h' g \<Longrightarrow> grid_dims w h (bo_resize ops w h g)"
    "grid_dims w h g \<Longrightarrow> grid_dims w h (bo_set ops x y c g)"
    "grid_dims w h g \<Longrightarrow> grid_dims w h (bo_fill ops c a g)"
    "grid_dims w h g \<Longrightarrow> grid_dims w h (bo_insert ops y n c a g)"
    "grid_dims w h g \<Longrightarrow> grid_dims w h (bo_delete ops y n c a g)"
  using assms by (auto simp: buf_dims_def)

lemma nothing_saved_ok: "state_ok nothing_saved"
  by (simp add: state_ok_def nothing_saved_def sets_ok_def)

lemma new_screen_ok:
  assumes "buf_dims ops" "1 \<le> w" "1 \<le> h"
  shows "screen_ok w h (new_screen ops w h)"
  using buf_dimsD(1) [OF assms] assms(2,3) nothing_saved_ok
  by (simp add: new_screen_def Let_def screen_ok_def in_bounds_def home_cursor_def margins_ok_def vt_rect_def back_ok_def
      new_scrollback_inv grid_dims_def)

lemma reset_screen_ok:
  assumes "buf_dims ops" "screen_ok w h s"
  shows "screen_ok w h (reset_screen ops s)"
  using screen_okD [OF assms(2)] buf_dimsD(4) [OF assms(1)] nothing_saved_ok bounds_margins [OF assms(2)]
  by (simp add: reset_screen_def screen_ok_def in_bounds_def home_cursor_def)

lemma disable_scrollback_ok: "screen_ok w h s \<Longrightarrow> screen_ok w h (disable_scrollback s)"
  by (simp add: disable_scrollback_def ok_back back_ok_def)

lemma clear_scrollback_ok:
  assumes "screen_ok w h s"
  shows "screen_ok w h (clear_scrollback s)"
  using screen_okD(7) [OF assms] clear_ring_inv
  by (auto simp: clear_scrollback_def back_ok_def intro!: ok_back [OF assms] split: option.splits)

lemma set_cell_ok: "buf_dims ops \<Longrightarrow> screen_ok w h s \<Longrightarrow> screen_ok w h (set_cell ops x y c s)"
  unfolding set_cell_def by (blast intro: ok_rows buf_dimsD(3) screen_okD(3))

lemma fill_area_ok: "buf_dims ops \<Longrightarrow> screen_ok w h s \<Longrightarrow> screen_ok w h (fill_area ops c a s)"
  unfolding fill_area_def by (blast intro: unwrap_ok ok_rows buf_dimsD(4) screen_okD(3))

lemma clear_screen_ok: "buf_dims ops \<Longrightarrow> screen_ok w h s \<Longrightarrow> screen_ok w h (clear_screen ops s)"
  unfolding clear_screen_def by (rule fill_area_ok)

lemma prepare_cell_ok: "screen_ok w h s \<Longrightarrow> screen_ok w h (prepare_cell x y v s)"
  unfolding prepare_cell_def by (rule on_row_ok) simp_all

lemma length_blank_cells [simp]: "length (blank_cells_row b r x n) = length r"
  by (simp add: blank_cells_row_def blank_range_def)

lemma blank_cells_ok: "screen_ok w h s \<Longrightarrow> screen_ok w h (blank_cells x y n s)"
  by (auto simp: blank_cells_def intro: on_row_ok)

lemma shift_boundsD:
  assumes "shift_bounds x y n s = Some k" "screen_ok w h s"
  shows "0 \<le> x" "0 < k" "x + k \<le> vr_x1 (region s)" "vr_x1 (region s) \<le> w"
  using assms screen_okD(6) [OF assms(2)]
  by (auto simp: shift_bounds_def Let_def screen_size [OF assms(2)] margins_ok_def split: if_splits)

lemma insert_cells_ok: "screen_ok w h s \<Longrightarrow> screen_ok w h (insert_cells ops n s)"
proof -
  assume s: "screen_ok w h s"
  show ?thesis
  proof (cases "shift_bounds (cu_x (sc_cur s)) (cu_y (sc_cur s)) n s")
    case (Some k)
    note d = shift_boundsD [OF Some s]
    show ?thesis unfolding insert_cells_def Let_def Some option.case
      by (rule on_row_ok [OF s]) (use d in \<open>simp add: insert_row_def\<close>)
  qed (use s in \<open>simp add: insert_cells_def\<close>)
qed

lemma delete_cells_ok: "screen_ok w h s \<Longrightarrow> screen_ok w h (delete_cells ops n s)"
proof -
  assume s: "screen_ok w h s"
  show ?thesis
  proof (cases "shift_bounds (cu_x (sc_cur s)) (cu_y (sc_cur s)) n s")
    case (Some k)
    note d = shift_boundsD [OF Some s]
    show ?thesis unfolding delete_cells_def Let_def Some option.case
      by (rule on_row_ok [OF s]) (use d in \<open>simp add: delete_row_def\<close>)
  qed (use s in \<open>simp add: delete_cells_def\<close>)
qed

lemma cursor_row: "screen_ok w h s \<Longrightarrow> 0 \<le> cu_y (sc_cur s)"
  using screen_okD(5) by (auto simp: in_bounds_def)

lemma insert_line_ok: "buf_dims ops \<Longrightarrow> screen_ok w h s \<Longrightarrow> screen_ok w h (snd (insert_line ops n s))"
  by (auto simp: insert_line_def Let_def intro!: shift_wraps_ok ok_rows buf_dimsD(5) dest: screen_okD cursor_row)

lemma delete_line_ok: "buf_dims ops \<Longrightarrow> screen_ok w h s \<Longrightarrow> screen_ok w h (snd (delete_line ops n s))"
  by (auto simp: delete_line_def Let_def intro!: shift_wraps_ok ok_rows buf_dimsD(6) dest: screen_okD cursor_row)

lemma rotate_up_ok:
  assumes "screen_ok w h s" "rotate_up n save s = Some s'"
  shows "screen_ok w h s'"
proof -
  note d = screen_okD [OF assms(1)]
  define k where "k = nat (min n (int (length (sc_rows s))))"
  have k: "k \<le> length (sc_rows s)" by (simp add: k_def)
  have rows: "int (length (sc_rows s)) = h" "\<And>r. r \<in> set (sc_rows s) \<Longrightarrow> int (length r) = w"
    using d(3) by (simp_all add: grid_dims_def)
  have g: "grid_dims w h (drop k (sc_rows s) @ map (\<lambda>r. replicate (length r) (erase_pen s)) (take k (sc_rows s)))"
    unfolding grid_dims_def using k rows by (auto dest: in_set_dropD in_set_takeD)
  have wr: "int (length (if length (sc_wraps s) = length (sc_rows s) then drop k (sc_wraps s) @ replicate k hard_break else sc_wraps s)) = h"
    using k d(4) rows(1) by auto
  show ?thesis using assms(2) d g wr push_rows_inv [OF d(7)]
    unfolding rotate_up_def Let_def k_def [symmetric] by (auto simp: screen_ok_def split: if_splits)
qed

lemma scroll_up_ok:
  assumes "buf_dims ops" "screen_ok w h s0"
  shows "screen_ok w h (scroll_up ops n s0)"
proof (cases "n \<le> 0")
  case False
  define s where "s = set_cursor (cu_x (sc_cur s0)) 0 True s0"
  have s: "screen_ok w h s" unfolding s_def by (rule set_cursor_ok [OF assms(2)])
  have b: "screen_ok w h (s\<lparr>sc_back := push_rows ls (sc_back s)\<rparr>)" for ls
    by (rule ok_back [OF s push_rows_inv [OF screen_okD(7) [OF s]]])
  show ?thesis
    using False unfolding scroll_up_def Let_def s_def [symmetric]
    by (auto intro!: set_cursor_ok delete_line_ok [OF assms(1)] s b dest: rotate_up_ok [OF s] split: option.split)
qed (simp add: scroll_up_def assms)

lemma scroll_down_ok: "buf_dims ops \<Longrightarrow> screen_ok w h s \<Longrightarrow> screen_ok w h (scroll_down ops n s)"
  unfolding scroll_down_def Let_def by (intro set_cursor_ok insert_line_ok)

subsection \<open>Resizing\<close>

lemma cut_edge_rows:
  assumes "buf_dims ops" "grid_dims w h (sc_rows s)"
  shows "\<exists>g. cut_edge ops s = s\<lparr>sc_rows := g\<rparr> \<and> grid_dims w h g"
proof -
  define x where "x = scr_width s - 1"
  define step where "step = (\<lambda>y s. case scr_cell x (int y) s of
    Some c \<Rightarrow> if c_width c > 1 then set_cell ops x (int y) None s else s | None \<Rightarrow> s)"
  have one: "\<exists>g'. step y (s\<lparr>sc_rows := g\<rparr>) = s\<lparr>sc_rows := g'\<rparr> \<and> grid_dims w h g'" if "grid_dims w h g" for y g
    using that buf_dimsD(3) [OF assms(1) that] by (auto simp: step_def set_cell_def split: option.split)
  have all: "\<exists>g'. fold step ys (s\<lparr>sc_rows := g\<rparr>) = s\<lparr>sc_rows := g'\<rparr> \<and> grid_dims w h g'" if "grid_dims w h g" for ys g
    using that
  proof (induction ys arbitrary: g)
    case (Cons y ys)
    obtain g' where "step y (s\<lparr>sc_rows := g\<rparr>) = s\<lparr>sc_rows := g'\<rparr>" "grid_dims w h g'" using one [OF Cons.prems] by blast
    with Cons.IH [of g'] show ?case by simp
  qed auto
  have "cut_edge ops s = (if x < 0 then s else fold step [0..<nat (scr_height s)] s)"
    unfolding cut_edge_def Let_def step_def x_def ..
  then show ?thesis
  proof (cases "x < 0")
    case True
    then have "cut_edge ops s = s\<lparr>sc_rows := sc_rows s\<rparr>" by (simp add: cut_edge_def x_def)
    with assms(2) show ?thesis by blast
  next
    case False
    then show ?thesis using all [OF assms(2), of "[0..<nat (scr_height s)]"] \<open>cut_edge ops s = _\<close> by simp
  qed
qed

lemma length_resize_wraps: "0 \<le> h \<Longrightarrow> int (length (resize_wraps h ws)) = h"
  by (auto simp: resize_wraps_def)

lemma resize_screen_ok:
  assumes "buf_dims ops" "screen_ok w' h' s" "1 \<le> w" "1 \<le> h" "s2 = resize_screen ops w h s"
  shows "screen_ok w h (s2\<lparr>sc_cur := clamp_position s2 (sc_cur s2), sc_saved := clamp_position s2 (sc_saved s2)\<rparr>)"
proof -
  note d = screen_okD [OF assms(2)]
  define g where "g = bo_resize ops w h (sc_rows s)"
  define ws where "ws = resize_wraps (int (length g)) (sc_wraps s)"
  define s1 where "s1 = s\<lparr>sc_rows := g, sc_wraps := (if w \<noteq> scr_width s then map (\<lambda>_. hard_break) ws else ws)\<rparr>"
  have g: "grid_dims w h g" unfolding g_def by (rule buf_dimsD(2) [OF assms(1,3,4) d(3)])
  then have lg: "int (length g) = h" by (simp add: grid_dims_def)
  have lw: "int (length (sc_wraps s1)) = h" using assms(4) lg by (simp add: s1_def ws_def length_resize_wraps)
  obtain g' where c: "cut_edge ops s1 = s1\<lparr>sc_rows := g'\<rparr>" "grid_dims w h g'"
    using cut_edge_rows [OF assms(1), of w h s1] g by (auto simp: s1_def)
  have s2: "s2 = s1\<lparr>sc_rows := g', sc_scroll := bounds (s1\<lparr>sc_rows := g'\<rparr>)\<rparr>"
  proof -
    have "s2 = (cut_edge ops s1)\<lparr>sc_scroll := bounds (cut_edge ops s1)\<rparr>"
      unfolding assms(5) resize_screen_def Let_def s1_def ws_def g_def ..
    then show ?thesis unfolding c(1) .
  qed
  have size: "scr_width s2 = w" "scr_height s2 = h"
    using grid_size [OF c(2) assms(4)] by (simp_all add: s2 scr_width_def scr_height_def)
  have m: "sc_scroll s2 = \<lparr>vr_x0 = 0, vr_y0 = 0, vr_x1 = w, vr_y1 = h\<rparr>"
    using grid_size [OF c(2) assms(4)] assms(3,4) by (simp add: s2 bounds_def vt_rect_def scr_width_def scr_height_def)
  have cur: "in_bounds w h (clamp_position s2 p)" for p
    using clamp_position_ok [of s2 p] size assms(3,4) by simp
  have "sc_rows s2 = g'" "sc_wraps s2 = sc_wraps s1" "sc_back s2 = sc_back s" "sc_state s2 = sc_state s"
    by (simp_all add: s2 s1_def)
  then show ?thesis using cur m c(2) lw d(7,8) assms(3,4) by (simp add: screen_ok_def margins_ok_def)
qed

lemma resize_keeping_cursor_ok:
  assumes "buf_dims ops" "screen_ok w' h' s0" "1 \<le> w" "1 \<le> h"
  shows "screen_ok w h (resize_keeping_cursor ops w h s0)"
proof (cases "cu_y (sc_cur s0) - (h - 1) > 0 \<and> h > 0 \<and> scr_height s0 > h")
  case False
  have "resize_keeping_cursor ops w h s0 = (let s2 = resize_screen ops w h s0
      in s2\<lparr>sc_cur := clamp_position s2 (sc_cur s2), sc_saved := clamp_position s2 (sc_saved s2)\<rparr>)"
    unfolding resize_keeping_cursor_def Let_def if_not_P [OF False] ..
  then show ?thesis using resize_screen_ok [OF assms refl] by (simp add: Let_def)
next
  case True
  define n where "n = cu_y (sc_cur s0) - (h - 1)"
  define s where "s = s0\<lparr>sc_scroll := bounds s0\<rparr>"
  define r where "r = (case rotate_up n (sc_back s \<noteq> None) s of Some s' \<Rightarrow> s' | None \<Rightarrow> s)"
  define s1 where "s1 = r\<lparr>sc_cur := (sc_cur r)\<lparr>cu_y := cu_y (sc_cur r) - n\<rparr>, sc_saved := (sc_saved r)\<lparr>cu_y := cu_y (sc_saved r) - n\<rparr>\<rparr>"
  have s: "screen_ok w' h' s" unfolding s_def by (rule ok_margins [OF assms(2) bounds_margins [OF assms(2)]])
  have r: "screen_ok w' h' r" using rotate_up_ok [OF s] s by (auto simp: r_def split: option.split)
  have "sc_cur r = sc_cur s0"
    by (auto simp: r_def rotate_up_def Let_def s_def split: option.split if_splits)
  then have y: "cu_y (sc_cur s1) = h - 1" "cu_x (sc_cur s1) = cu_x (sc_cur s0)" by (simp_all add: s1_def n_def)
  have h: "h < h'" using True screen_size(2) [OF assms(2)] by simp
  have s1: "screen_ok w' h' s1"
    using r screen_okD(5) [OF assms(2)] y h assms(4) by (simp add: screen_ok_def s1_def in_bounds_def)
  have "resize_keeping_cursor ops w h s0 = (let s2 = resize_screen ops w h s1
      in s2\<lparr>sc_cur := clamp_position s2 (sc_cur s2), sc_saved := clamp_position s2 (sc_saved s2)\<rparr>)"
    unfolding resize_keeping_cursor_def Let_def if_P [OF True] s1_def r_def s_def n_def ..
  then show ?thesis using resize_screen_ok [OF assms(1) s1 assms(3,4) refl] by (simp add: Let_def)
qed

end
