(* ===== verification/ReflowShape.thy ===== *)
theory ReflowShape
  imports ReflowSpec
begin

text \<open>
  The shape of what a reflow builds, for any rows at all: one row per output row of the range, and each
  row from the exact part on as wide as the new width.
\<close>

subsection \<open>One logical line\<close>

lemma spot_cells_length:
  assumes "k_pw k = (if k_gw k > w then 1 else k_gw k)" "0 < k_gw k" "k_x k + k_gw k \<le> length (fst (fst (l ! k_row k)))"
    and "k_gw k = 1 \<or> c_width (fst (fst (l ! k_row k)) ! k_x k) = int (k_gw k)"
  shows "length (spot_cells l k) = k_pw k"
  using assms by (auto simp: spot_cells_def Let_def split: if_splits)

text \<open>Groups as \<open>line_groups\<close> makes them.\<close>

definition proper_group :: "src_row list \<Rightarrow> nat \<times> nat \<times> nat \<Rightarrow> bool" where
  "proper_group l g \<longleftrightarrow> (case g of (i, x, gw) \<Rightarrow> 0 < gw \<and> x + gw \<le> length (fst (fst (l ! i))) \<and>
     (gw = 1 \<or> c_width (fst (fst (l ! i)) ! x) = int gw))"

lemma row_groups_proper:
  "(y, gw) \<in> set (row_groups r n x) \<Longrightarrow> 0 < gw \<and> y + gw \<le> n \<and> (gw = 1 \<or> c_width (r ! y) = int gw)"
proof (induction r n x rule: row_groups.induct)
  case (1 r n x)
  have x: "x < n" using "1.prems" by (subst (asm) row_groups.simps) (auto split: if_splits)
  moreover have "(y, gw) = (x, group_width r x n) \<or> (y, gw) \<in> set (row_groups r n (x + group_width r x n))"
    using "1.prems" calculation by (subst (asm) row_groups.simps) auto
  moreover have "0 < group_width r x n \<and> x + group_width r x n \<le> n \<and>
      (group_width r x n = 1 \<or> c_width (r ! x) = int (group_width r x n))"
    using calculation(1) by (auto simp: group_width_def Let_def)
  ultimately show ?case using "1.IH" [OF x] by blast
qed

lemma line_groups_proper:
  assumes "\<forall>s\<in>set l. snd s \<le> length (fst (fst s))" "g \<in> set (line_groups l)"
  shows "proper_group l g"
proof -
  obtain i x gw where g: "g = (i, x, gw)" by (rule prod_cases3)
  then have "i < length l" "(x, gw) \<in> set (row_groups (fst (fst (l ! i))) (snd (l ! i)) 0)"
    using assms(2) by (auto simp: line_groups_def)
  moreover from this(1) have "snd (l ! i) \<le> length (fst (fst (l ! i)))" using assms(1) by simp
  ultimately show ?thesis using row_groups_proper by (fastforce simp: proper_group_def g)
qed

text \<open>
  Where emitting stands: on row \<open>row\<close> of the line up to column \<open>col\<close>, with the rows before it that are
  wanted already out.
\<close>

definition at_place :: "nat \<Rightarrow> nat \<Rightarrow> nat \<Rightarrow> emitting \<Rightarrow> nat \<Rightarrow> nat \<Rightarrow> bool" where
  "at_place w from start st row col \<longleftrightarrow>
     em_row st = int row \<and> em_end st = col \<and> col \<le> w \<and> length (em_out st) = row - (from - start) \<and>
     (\<forall>s\<in>set (em_out st). length (fst s) = w) \<and>
     (if from \<le> start + row then \<exists>c. em_cur st = Some c \<and> length c = col else em_cur st = None)"

lemma flush_row_place:
  assumes "at_place w from start st row col" "in_range = (\<lambda>rel. from \<le> start + rel \<and> start + rel < to)" "start + Suc row < to"
  shows "at_place w from start ((flush_row w wr st)\<lparr>em_row := int (Suc row), em_end := 0,
    em_cur := (if in_range (Suc row) then Some [] else None)\<rparr>) (Suc row) 0"
proof (cases "from \<le> start + row")
  case True
  then obtain c where c: "em_cur st = Some c" "length c = col" using assms(1) by (auto simp: at_place_def)
  then have "flush_row w wr st = st\<lparr>em_out := em_out st @ [(pad_row w c, wr)], em_cur := None\<rparr>" by (simp add: flush_row_def)
  moreover have "length (pad_row w c) = w" using c assms(1) by (simp add: pad_row_def at_place_def)
  ultimately show ?thesis using assms True by (auto simp: at_place_def)
next
  case False
  then have "flush_row w wr st = st" using assms(1) by (simp add: flush_row_def at_place_def)
  then show ?thesis using assms False by (auto simp: at_place_def)
qed

lemma emit_spot_place:
  assumes "at_place w from start st row col" "in_range = (\<lambda>rel. from \<le> start + rel \<and> start + rel < to)"
    and "proper_group l (i, x, gw)" "pw = (if gw > w then 1 else gw)" "(row', col') = (if col + pw > w then (row + 1, 0) else (row, col))"
    and "start + row' < to" "0 < w"
  shows "at_place w from start (emit_spot w l in_range
    \<lparr>k_row = i, k_x = x, k_gw = gw, k_orow = row', k_ocol = col', k_pw = pw\<rparr> st) row' (col' + pw)"
proof -
  let ?k = "\<lparr>k_row = i, k_x = x, k_gw = gw, k_orow = row', k_ocol = col', k_pw = pw\<rparr>"
  have len: "length (spot_cells l ?k) = pw"
  proof -
    have "length (spot_cells l ?k) = k_pw ?k"
      by (rule spot_cells_length [where w = w]) (use assms(3,4) in \<open>simp_all add: proper_group_def\<close>)
    then show ?thesis by simp
  qed
  have pw: "pw \<le> w" using assms(4,7) by auto
  define st1 where "st1 = (if int row' \<noteq> em_row st
    then (flush_row w (soft_wrap (int w - int (em_end st))) st)\<lparr>em_row := int row', em_end := 0,
      em_cur := (if in_range row' then Some [] else None)\<rparr> else st)"
  have st1: "at_place w from start st1 row' col'"
  proof (cases "col + pw > w")
    case True
    then have r: "row' = Suc row" "col' = 0" using assms(5) by auto
    then have "int row' \<noteq> em_row st" using assms(1) by (simp add: at_place_def)
    then have "st1 = (flush_row w (soft_wrap (int w - int (em_end st))) st)\<lparr>em_row := int (Suc row), em_end := 0,
        em_cur := (if in_range (Suc row) then Some [] else None)\<rparr>" by (simp add: st1_def r)
    with flush_row_place [OF assms(1,2)] assms(6) show ?thesis by (simp add: r)
  next
    case False
    then show ?thesis using assms(1,5) by (simp add: st1_def at_place_def)
  qed
  have fit: "col' + pw \<le> w" using assms(5) pw by (auto split: if_splits)
  have "emit_spot w l in_range ?k st = st1\<lparr>em_cur := map_option (\<lambda>c. c @ spot_cells l ?k) (em_cur st1), em_end := col' + pw\<rparr>"
    by (simp add: emit_spot_def Let_def st1_def)
  then show ?thesis using st1 len fit by (auto simp: at_place_def split: if_splits)
qed

text \<open>Emitting the spots of a line up to the end of the range.\<close>

lemma emit_spots_place:
  assumes "at_place w from start st row col" "in_range = (\<lambda>rel. from \<le> start + rel \<and> start + rel < to)" "0 < w"
    and "\<forall>g\<in>set gs. proper_group l g" "place w row col gs = (ks, row', col')" "start + row < to"
  shows "\<exists>r c. at_place w from start (fold (emit_spot w l in_range) (takeWhile (\<lambda>k. start + k_orow k < to) ks) st) r c \<and>
    r = min row' (to - start - 1)"
  using assms
proof (induction gs arbitrary: st row col ks)
  case Nil
  then show ?case by auto
next
  case (Cons g gs)
  obtain i x gw where g: "g = (i, x, gw)" by (rule prod_cases3)
  define pw where "pw = (if gw > w then 1 else gw)"
  obtain r1 c1 where rc: "(r1, c1) = (if col + pw > w then (row + 1, 0) else (row, col))" by (metis surj_pair)
  obtain ks1 where ks: "place w r1 (c1 + pw) gs = (ks1, row', col')"
    "ks = \<lparr>k_row = i, k_x = x, k_gw = gw, k_orow = r1, k_ocol = c1, k_pw = pw\<rparr> # ks1"
    using Cons.prems(5) unfolding g place.simps Let_def pw_def [symmetric] rc [symmetric] by (auto split: prod.splits)
  have mono: "r1 \<le> row'" using place_rows [OF ks(1)] by simp
  have low: "row \<le> r1" "r1 \<le> Suc row" using rc by (auto split: if_splits)
  show ?case
  proof (cases "start + r1 < to")
    case True
    have p: "proper_group l (i, x, gw)" using Cons.prems(4) g by simp
    note st1 = emit_spot_place [OF Cons.prems(1,2) p pw_def rc True Cons.prems(3)]
    show ?thesis
      using Cons.IH [OF st1 Cons.prems(2,3) _ ks(1) True] Cons.prems(4) True by (simp add: ks(2))
  next
    case False
    then have "row = to - start - 1" "to - start - 1 \<le> row'" using Cons.prems(6) low mono by auto
    then show ?thesis using Cons.prems(1) False by (auto simp: ks(2) intro!: exI [of _ row] exI [of _ col])
  qed
qed

text \<open>The rows a line becomes, and how many of them the range holds.\<close>

lemma place_first: "place w row 0 (g # gs) = (ks, e) \<Longrightarrow> 0 < w \<Longrightarrow> \<exists>k ks'. ks = k # ks' \<and> k_orow k = row"
proof -
  assume p: "place w row 0 (g # gs) = (ks, e)" and w: "0 < w"
  obtain i x gw where g: "g = (i, x, gw)" by (rule prod_cases3)
  have "\<not> 0 + (if gw > w then 1 else gw) > w" using w by auto
  with p show ?thesis by (auto simp: g Let_def split: prod.splits)
qed

lemma emit_line_shape:
  assumes "\<forall>s\<in>set (ln_rows g). snd s \<le> length (fst (fst s))" "0 < w" "ln_count g = fst (snd (walk w (ln_rows g))) + 1"
    and "ln_start g < to" "from < ln_start g + ln_count g" "from < to"
  shows "length (emit_line w from to g) = min to (ln_start g + ln_count g) - max from (ln_start g) \<and>
    (\<forall>s\<in>set (emit_line w from to g). length (fst s) = w)"
proof -
  let ?l = "ln_rows g" and ?start = "ln_start g"
  define in_range where "in_range = (\<lambda>rel. from \<le> ?start + rel \<and> ?start + rel < to)"
  obtain ks row' col' where walk: "place w 0 0 (line_groups ?l) = (ks, row', col')" by (metis prod_cases3)
  then have count: "ln_count g = row' + 1" using assms(3) by (simp add: walk_def)
  define st00 where "st00 = \<lparr>em_out = [], em_cur = None, em_row = - 1, em_end = 0\<rparr>"
  define st0 where "st0 = \<lparr>em_out = [], em_cur = (if in_range 0 then Some [] else None), em_row = 0, em_end = 0\<rparr>"
  let ?spots = "takeWhile (\<lambda>k. ?start + k_orow k < to) ks"
  define st where "st = fold (emit_spot w ?l in_range) ?spots st0"
  have p0: "at_place w from ?start st0 0 0" using assms(4) by (simp add: at_place_def st0_def in_range_def)
  have groups: "\<forall>g\<in>set (line_groups ?l). proper_group ?l g" using line_groups_proper [OF assms(1)] by blast
  obtain r c where r: "at_place w from ?start st r c" "r = min row' (to - ?start - 1)"
    using emit_spots_place [OF p0 in_range_def assms(2) groups walk] assms(4) unfolding st_def by auto
  define stE where "stE = fold (emit_spot w ?l in_range) ?spots st00"
  have st_eq: "(if em_row stE < 0 then stE\<lparr>em_row := 0, em_cur := (if in_range 0 then Some [] else None)\<rparr> else stE) = st"
  proof (cases ?spots)
    case Nil
    then show ?thesis unfolding stE_def st_def Nil by (simp add: st00_def st0_def)
  next
    case (Cons k ks')
    then obtain ks0 where ks0: "ks = k # ks0" by (cases ks) (auto split: if_splits)
    have "line_groups ?l \<noteq> []" using walk ks0 by (cases "line_groups ?l") auto
    then obtain g0 gs0 where "line_groups ?l = g0 # gs0" by (cases "line_groups ?l") auto
    then have "k_orow k = 0" using place_first [of w 0 g0 gs0 ks "(row', col')"] walk ks0 assms(2) by auto
    then have "emit_spot w ?l in_range k st00 = emit_spot w ?l in_range k st0"
      by (simp add: emit_spot_def Let_def st00_def st0_def flush_row_def)
    then have "stE = st" unfolding stE_def st_def Cons by simp
    moreover have "\<not> em_row st < 0" using r(1) by (simp add: at_place_def)
    ultimately show ?thesis by simp
  qed
  have reach: "from \<le> ?start + r" using r(2) count assms(5,6) by auto
  then obtain cur where cur: "em_cur st = Some cur" "length cur = c" "c \<le> w" "em_end st = c" using r(1) by (auto simp: at_place_def)
  have out: "length (em_out st) = r - (from - ?start)" "\<forall>s\<in>set (em_out st). length (fst s) = w"
    using r(1) by (auto simp: at_place_def)
  define fin where "fin = (if em_row st \<noteq> int (ln_count g) - 1 \<or> wrapped (line_wrap_of ?l)
    then em_out (flush_row w (soft_wrap (int w - int (em_end st))) st)
    else em_out (flush_row w hard_break (st\<lparr>em_cur := Some (cur @ take (w - em_end st) (drop (snd (last ?l)) (fst (fst (last ?l)))))\<rparr>)))"
  have e: "emit_line w from to g = fin"
    unfolding emit_line_def Let_def walk_def walk fst_conv in_range_def [symmetric] stE_def [symmetric] st00_def [symmetric]
      st_eq cur(1) option.case fin_def ..
  have one: "\<exists>x wr. fin = em_out st @ [(x, wr)] \<and> length x = w"
    using cur by (auto simp: fin_def flush_row_def pad_row_def)
  then have "length fin = length (em_out st) + 1" "\<forall>s\<in>set fin. length (fst s) = w" using out(2) by auto
  moreover have "r - (from - ?start) + 1 = min to (?start + ln_count g) - max from ?start"
    using r(2) count assms(4-6) reach by linarith
  ultimately show ?thesis using out(1) e by simp
qed

subsection \<open>All lines\<close>

text \<open>Lines as they follow each other.\<close>

fun consecutive :: "nat \<Rightarrow> nat \<Rightarrow> reflow_line list \<Rightarrow> nat \<Rightarrow> bool" where
  "consecutive w t [] t' \<longleftrightarrow> t = t'"
| "consecutive w t (g # gs) t' \<longleftrightarrow> ln_start g = t \<and> ln_count g = count_rows w (ln_rows g) \<and>
     (\<forall>s\<in>set (ln_rows g). snd s \<le> length (fst (fst s))) \<and> consecutive w (t + ln_count g) gs t'"

lemma consecutive_le: "consecutive w t gs t' \<Longrightarrow> t \<le> t'"
  by (induction gs arbitrary: t) fastforce+

lemma lay_lines_consecutive:
  "lay_lines w f t ls = (gs, t') \<Longrightarrow> \<forall>l\<in>set ls. \<forall>s\<in>set l. snd s \<le> length (fst (fst s)) \<Longrightarrow> consecutive w t gs t'"
proof (induction ls arbitrary: f t gs)
  case (Cons l ls)
  then obtain gs1 where "lay_lines w (f + length l) (t + count_rows w l) ls = (gs1, t')"
    "gs = \<lparr>ln_first = f, ln_rows = l, ln_start = t, ln_count = count_rows w l\<rparr> # gs1"
    by (auto simp: Let_def split: prod.splits)
  with Cons show ?case by simp
qed simp

lemma line_out_shape:
  assumes "consecutive w t (g # gs) t'" "0 < w" "t < to" "from < t + ln_count g" "from < to"
  shows "length (line_out w from to ef g) = min to (t + ln_count g) - max from t \<and>
    (\<forall>j<length (line_out w from to ef g). ef \<le> max from t + j \<longrightarrow> length (fst (line_out w from to ef g ! j)) = w)"
proof (cases "fits_line w (ln_rows g)")
  case True
  then have "ln_count g = 1" "ln_start g = t" using assms(1) by (simp_all add: count_rows_def)
  then show ?thesis using True assms(3,4) by (auto simp: line_out_def fit_width_def)
next
  case False
  have c: "ln_count g = fst (snd (walk w (ln_rows g))) + 1" "ln_start g = t" "\<forall>s\<in>set (ln_rows g). snd s \<le> length (fst (fst s))"
    using False assms(1) by (simp_all add: count_rows_def)
  from emit_line_shape [OF c(3) assms(2) c(1), of to "from"] assms(3-5)
  show ?thesis unfolding c(2) line_out_def if_not_P [OF False] by (auto simp: c(2))
qed

lemma lines_shape:
  assumes "consecutive w t gs t'" "0 < w" "from \<le> t" "from < to"
    "out = concat (map (line_out w from to ef) (takeWhile (\<lambda>l. ln_start l < to) gs))"
  shows "length out = min to t' - t \<and> (\<forall>j<length out. ef \<le> t + j \<longrightarrow> length (fst (out ! j)) = w)"
  using assms
proof (induction gs arbitrary: t out)
  case (Cons g gs)
  show ?case
  proof (cases "t < to")
    case True
    define rest where "rest = concat (map (line_out w from to ef) (takeWhile (\<lambda>l. ln_start l < to) gs))"
    have c: "consecutive w (t + ln_count g) gs t'" using Cons.prems(1) unfolding consecutive.simps by blast
    have pos: "0 < ln_count g" using Cons.prems(1) count_rows_pos by simp
    note ih = Cons.IH [OF c Cons.prems(2) _ Cons.prems(4) rest_def]
    define o1 where "o1 = line_out w from to ef g"
    have g: "length o1 = min to (t + ln_count g) - t" "\<forall>j<length o1. ef \<le> t + j \<longrightarrow> length (fst (o1 ! j)) = w"
      using line_out_shape [OF Cons.prems(1,2) True, of "from" ef] Cons.prems(3,4) pos by (simp_all add: o1_def max_def)
    have out: "out = o1 @ rest" using Cons.prems(1,5) True by (simp add: rest_def o1_def)
    have le: "t + ln_count g \<le> t'" by (rule consecutive_le [OF c])
    have r: "length rest = min to t' - (t + ln_count g)" "\<forall>j<length rest. ef \<le> t + ln_count g + j \<longrightarrow> length (fst (rest ! j)) = w"
      using ih Cons.prems(3) by simp_all
    show ?thesis
    proof
      show "length out = min to t' - t" using g(1) r(1) le True by (cases "t + ln_count g \<le> to") (simp_all add: out)
      have "rest = [] \<or> length o1 = ln_count g" using g(1) r(1) le by auto
      then show "\<forall>j<length out. ef \<le> t + j \<longrightarrow> length (fst (out ! j)) = w"
        using g(2) r(2) by (auto simp: out nth_append)
    qed
  next
    case False
    then have "out = []" using Cons.prems(1,5) by simp
    with False show ?thesis by simp
  qed
qed simp

lemma ranges_shape:
  assumes "consecutive w t gs t'" "0 < w" "t \<le> from" "from < to" "to \<le> t'"
    "out = concat (map (line_out w from to ef) (takeWhile (\<lambda>l. ln_start l < to)
      (dropWhile (\<lambda>l. \<not> ln_start l + ln_count l > from) gs)))"
  shows "length out = to - from \<and> (\<forall>j<length out. ef \<le> from + j \<longrightarrow> length (fst (out ! j)) = w)"
  using assms
proof (induction gs arbitrary: t out)
  case (Cons g gs)
  have c: "consecutive w (t + ln_count g) gs t'" "ln_start g = t" using Cons.prems(1) unfolding consecutive.simps by blast+
  show ?case
  proof (cases "t + ln_count g > from")
    case False
    then show ?thesis using Cons.IH [OF c(1) Cons.prems(2) _ Cons.prems(4,5)] Cons.prems(6) c(2) by simp
  next
    case True
    define o1 where "o1 = line_out w from to ef g"
    define rest where "rest = concat (map (line_out w from to ef) (takeWhile (\<lambda>l. ln_start l < to) gs))"
    have t: "t < to" using Cons.prems(3,4) by simp
    have g: "length o1 = min to (t + ln_count g) - from" "\<forall>j<length o1. ef \<le> from + j \<longrightarrow> length (fst (o1 ! j)) = w"
      using line_out_shape [OF Cons.prems(1,2) t True Cons.prems(4), of ef] Cons.prems(3) by (simp_all add: o1_def max_def)
    have r: "length rest = min to t' - (t + ln_count g)" "\<forall>j<length rest. ef \<le> t + ln_count g + j \<longrightarrow> length (fst (rest ! j)) = w"
      using lines_shape [OF c(1) Cons.prems(2) _ Cons.prems(4) rest_def] True by simp_all
    have out: "out = o1 @ rest" using Cons.prems(6) True t c(2) by (simp add: o1_def rest_def)
    have le: "t + ln_count g \<le> t'" by (rule consecutive_le [OF c(1)])
    show ?thesis
    proof
      show "length out = to - from" using g(1) r(1) le True Cons.prems(4,5) by (simp add: out)
      have "rest = [] \<or> from + length o1 = t + ln_count g" using g(1) r(1) le True by auto
      then show "\<forall>j<length out. ef \<le> from + j \<longrightarrow> length (fst (out ! j)) = w"
        using g(2) r(2) by (auto simp: out nth_append)
    qed
  qed
qed simp

lemma spacer_nonneg: "0 \<le> spacer_of v"
proof (cases "v = hard_break")
  case False
  then have "0 < uint v" by (simp add: hard_break_def uint_0_iff order_less_le)
  with False show ?thesis by (simp add: spacer_of_def)
qed (simp add: spacer_of_def)

lemma build_shape:
  assumes "r = new_reflower rs width ext extlen" "from < to" "to \<le> rf_total r" "out = build from to ef r"
  shows "length out = to - from \<and> (\<forall>j<length out. ef \<le> from + j \<longrightarrow> length (fst (out ! j)) = nat (max width 1))"
proof -
  define w where "w = nat (max width 1)"
  have w: "0 < w" by (simp add: w_def)
  define ls where "ls = group_rows (zip rs (content_lens rs ext extlen))"
  obtain gs t where gs: "lay_lines w 0 0 ls = (gs, t)" by fastforce
  have r: "r = \<lparr>rf_width = w, rf_lines = gs, rf_total = t\<rparr>"
    unfolding assms(1) new_reflower_def w_def [symmetric] ls_def [symmetric] Let_def gs by simp
  have len: "content_lens rs ext extlen ! i \<le> length (fst (rs ! i))" if "i < length rs" for i
  proof -
    have base: "content_len s \<le> length (fst s)" for s :: "cell slot"
      using trimmed_len_le [of "fst s"] spacer_nonneg [of "snd s"] by (auto simp: content_len_def)
    have "content_len (rs ! i) \<le> length (fst (rs ! i))" by (rule base)
    then show ?thesis using that by (auto simp: content_lens_def Let_def nth_list_update)
  qed
  have "snd s \<le> length (fst (fst s))" if "s \<in> set (zip rs (content_lens rs ext extlen))" for s
    using that len by (auto simp: in_set_zip) metis
  moreover have "set l \<subseteq> set (zip rs (content_lens rs ext extlen))" if "l \<in> set ls" for l
    using that group_rows_subset [of l] concat_group_rows by (simp add: ls_def)
  ultimately have "\<forall>l\<in>set ls. \<forall>s\<in>set l. snd s \<le> length (fst (fst s))" by blast
  then have c: "consecutive w 0 gs t" by (rule lay_lines_consecutive [OF gs])
  have "out = concat (map (line_out w from to ef) (takeWhile (\<lambda>l. ln_start l < to) (dropWhile (\<lambda>l. \<not> ln_start l + ln_count l > from) gs)))"
    using assms(2) unfolding assms(4) r by (simp add: build_def Let_def line_out_def [abs_def] cong: if_cong)
  from ranges_shape [OF c w _ assms(2) _ this] assms(3) show ?thesis by (simp add: r w_def)
qed

end
