(* ===== verification/VtReflowInv.thy ===== *)
theory VtReflowInv
  imports VtSafety VtReflow ReflowShape
begin

text \<open>
  A reflow keeps the invariant of a screen: the new grid has the new size, the cursor is on it, and the
  scrollback with what was pushed into it is a ring whose pending lines are in range.
\<close>

lemma screen_top_le: "1 \<le> h \<Longrightarrow> 0 \<le> y \<Longrightarrow> screen_top h cy tp y \<le> cy \<and> int cy - int (screen_top h cy tp y) < h"
  by (auto simp: screen_top_def)

lemma store_kept_inv:
  assumes "ring_inv sb" "tail \<le> ring_len sb" "rg_pending sb \<le> tail"
    "length kept \<le> rg_max sb" "dropped = tail + length kept - rg_max sb"
  shows "ring_inv (store_kept w tail dropped kept sb)"
proof -
  obtain d sb' where r: "replace_tail (int tail) kept sb = (d, sb')" by fastforce
  have f: "tail = nat (min (max (int tail) 0) (int (ring_len sb)))" using assms(2) by simp
  note spec = replace_tail_result [OF assms(1) r f assms(3)]
  have "length (contents sb') = min (rg_max sb) (tail + length kept)"
    using spec assms(2) by (simp add: lastn_def)
  then have len: "ring_len sb' = min (rg_max sb) (tail + length kept)" by simp
  have "ring_at sb' (ring_len sb')" using spec by (simp add: ring_inv_def)
  then have "ring_at (store_kept w tail dropped kept sb) (ring_len sb')"
    by (simp add: store_kept_def r ring_at_def ring_size_def)
  then show ?thesis by (rule ring_invI) (use len assms(4,5) in \<open>auto simp: store_kept_def r\<close>)
qed

lemma settle_ring_inv:
  assumes "ring_inv sb"
  shows "ring_inv (settle_ring w sb)"
proof -
  have size: "0 < ring_size sb" "ring_size sb \<le> rg_max sb" using assms by (auto simp: ring_inv_def ring_at_def)
  show ?thesis using assms by (simp add: settle_ring_def Let_def conjunct1 [OF replace_all_spec [OF size]])
qed

lemma settle_reflow_ok: "screen_ok w h s \<Longrightarrow> screen_ok w h (settle_reflow s)"
  using settle_ring_inv screen_okD(7) [of w h s]
  by (auto simp: settle_reflow_def back_ok_def split: option.splits intro!: ok_back)

lemma fill_rows_shape:
  assumes "\<forall>s\<in>set rs. length (fst s) = nat w" "length rs \<le> nat h" "1 \<le> w" "1 \<le> h"
  shows "grid_dims w h (map fst (fill_rows w h rs)) \<and> length (map snd (fill_rows w h rs)) = nat h"
  using assms by (auto simp: fill_rows_def grid_dims_def)

lemma reflow_resize_ok:
  assumes "screen_ok w' h' s" "1 \<le> w" "1 \<le> h" "(at_end, s2) = reflow_resize w h s"
  shows "screen_ok w h s2"
proof -
  note d = screen_okD [OF assms(1)]
  define hb where "hb = sc_back s"
  define tail where "tail = tail_of w h hb"
  define hist where "hist = lines_from tail hb"
  define rs where "rs = hist @ zip (sc_rows s) (sc_wraps s)"
  define cy0 where "cy0 = vt_clamp (cu_y (sc_cur s)) 0 (scr_height s - 1)"
  define sy0 where "sy0 = vt_clamp (cu_y (sc_saved s)) 0 (scr_height s - 1)"
  define r where "r = new_reflower rs w (int (length hist) + cy0) (nat (cu_x (sc_cur s)))"
  obtain tp t2 t3 where tp: "locate r (length rs) (int (length hist)) 0 = (tp, t2, t3)" by (metis prod_cases3)
  obtain cy cx ae where cy: "locate r (length rs) (int (length hist) + cy0) (cu_x (sc_cur s)) = (cy, cx, ae)" by (metis prod_cases3)
  obtain sy sx s3 where sy: "locate r (length rs) (int (length hist) + sy0) (cu_x (sc_saved s)) = (sy, sx, s3)" by (metis prod_cases3)
  define st where "st = screen_top h cy tp cy0"
  define fr where "fr = keep_from st hb"
  define upto where "upto = min (st + nat h) (rf_total r)"
  define dropped where "dropped = dropped_lines tail st fr hb"
  define out where "out = build fr upto st r"
  define kept where "kept = st - fr"
  define shown where "shown = fill_rows w h (drop kept out)"
  define s1 where "s1 = s\<lparr>sc_rows := map fst shown, sc_wraps := map snd shown,
    sc_back := map_option (store_kept w tail dropped (take kept out)) hb, sc_cur := (sc_cur s)\<lparr>cu_x := cx, cu_y := int cy - int st\<rparr>\<rparr>"
  have s2: "s2 = s1\<lparr>sc_scroll := bounds s1, sc_saved := clamp_position s1 ((sc_saved s)\<lparr>cu_x := sx, cu_y := int sy - int st\<rparr>)\<rparr>"
    using assms(4) unfolding reflow_resize_def Let_def hb_def [symmetric] tail_def [symmetric] hist_def [symmetric] rs_def [symmetric]
      cy0_def [symmetric] sy0_def [symmetric] r_def [symmetric] tp cy sy case_prod_conv st_def [symmetric] fr_def [symmetric]
      upto_def [symmetric] dropped_def [symmetric] out_def [symmetric] kept_def [symmetric] shown_def [symmetric] s1_def [symmetric]
    by simp
  have ne: "rs \<noteq> []" using d(2-4) by (cases "sc_rows s"; cases "sc_wraps s") (auto simp: rs_def grid_dims_def)
  have y0: "0 \<le> cy0" using vt_clamp_range [of 0 "scr_height s - 1"] d(2) screen_size(2) [OF assms(1)] by (simp add: cy0_def)
  have x0: "0 \<le> cu_x (sc_cur s)" using d(5) by (simp add: in_bounds_def)
  have rw: "rf_width r = nat w" using assms(2) by (simp add: r_def new_reflower_def Let_def split_beta)
  have c: "cy < rf_total r" "0 \<le> cx" "cx < w" using locate_range [OF ne x0 r_def cy] rw assms(2) by auto
  have st: "st \<le> cy" "int cy - int st < h" using screen_top_le [OF assms(3) y0] by (simp_all add: st_def)
  have fr: "fr \<le> st" by (simp add: fr_def keep_from_def split: option.split)
  have upto: "fr < upto" "upto \<le> rf_total r" using fr st c assms(3) by (auto simp: upto_def)
  have out: "length out = upto - fr" "\<And>j. j < length out \<Longrightarrow> st \<le> fr + j \<Longrightarrow> length (fst (out ! j)) = nat w"
    using build_shape [OF r_def upto out_def] assms(2) by auto
  have "\<forall>x\<in>set (drop kept out). length (fst x) = nat w"
  proof
    fix x
    assume "x \<in> set (drop kept out)"
    then obtain i where "i < length (drop kept out)" "x = drop kept out ! i" by (auto simp: in_set_conv_nth)
    then have "kept + i < length out" "x = out ! (kept + i)" by simp_all
    then show "length (fst x) = nat w" using out(2) [of "kept + i"] fr by (simp add: kept_def)
  qed
  moreover have "length (drop kept out) \<le> nat h" using out(1) fr by (auto simp: kept_def upto_def)
  ultimately have shape: "grid_dims w h (map fst shown)" "length (map snd shown) = nat h"
    using fill_rows_shape assms(2,3) unfolding shown_def by blast+
  have size: "scr_width s1 = w" "scr_height s1 = h"
    using grid_size [OF shape(1) assms(3)] by (simp_all add: s1_def scr_width_def scr_height_def)
  have bk: "back_ok (map_option (store_kept w tail dropped (take kept out)) hb)"
  proof (cases hb)
    case (Some sb)
    have inv: "ring_inv sb" using d(7) Some by (simp add: back_ok_def hb_def)
    have t: "rg_pending sb \<le> tail" "tail \<le> ring_len sb"
      using tail_starts_a_line [OF inv _ refl, of h w] assms(3) by (simp_all add: tail_def tail_of_def Some)
    have lk: "length (take kept out) = kept" using out(1) fr st c(1) by (simp add: kept_def upto_def)
    have k: "kept \<le> rg_max sb" "dropped = tail + kept - rg_max sb"
      using fr by (auto simp: kept_def fr_def keep_from_def dropped_def dropped_lines_def Some)
    show ?thesis using store_kept_inv [OF inv t(2,1), of "take kept out" dropped w] lk k by (simp add: Some back_ok_def)
  qed (simp add: back_ok_def)
  have "bounds s1 = \<lparr>vr_x0 = 0, vr_y0 = 0, vr_x1 = w, vr_y1 = h\<rparr>" using size assms(2,3) by (simp add: bounds_def vt_rect_def)
  then show ?thesis
    using shape bk c st d(8) assms(2,3) by (simp add: s2 s1_def screen_ok_def in_bounds_def margins_ok_def)
qed

end
