(* ===== verification/VtGuest.thy ===== *)
theory VtGuest
  imports VtEmulator VtReflowInv
begin

text \<open>
  The invariant of the emulator, kept by every event: whatever a guest sends and however its window is
  resized, both screens keep the invariant of \<open>VtSafety\<close> at the same size.
\<close>

subsection \<open>The invariant of the emulator\<close>

definition emulator_ok :: "int \<Rightarrow> int \<Rightarrow> 't emulator \<Rightarrow> bool" where
  "emulator_ok w h e \<longleftrightarrow> screen_ok w h (em_main e) \<and> screen_ok w h (em_alt e) \<and>
     sets_ok (em_charsets e) (em_gl e) (em_gr e) (em_gsingle e)"

lemma emulator_ok_simps [simp]:
  "emulator_ok w h (e\<lparr>em_modes := ms\<rparr>) = emulator_ok w h e"
  "emulator_ok w h (e\<lparr>em_tabs := ts\<rparr>) = emulator_ok w h e"
  "emulator_ok w h (e\<lparr>em_cell_w := n\<rparr>) = emulator_ok w h e"
  "emulator_ok w h (e\<lparr>em_last_char := b\<rparr>) = emulator_ok w h e"
  "emulator_ok w h (e\<lparr>em_on_alt := b\<rparr>) = emulator_ok w h e"
  "emulator_ok w h (e\<lparr>em_phantom := b\<rparr>) = emulator_ok w h e"
  "emulator_ok w h (set_phantom b e) = emulator_ok w h e"
  "emulator_ok w h (record_last c v e) = emulator_ok w h e"
  "emulator_ok w h (e\<lparr>em_cell_x := x, em_cell_y := y, em_cell_w := v, em_cell_alt := b\<rparr>) = emulator_ok w h e"
  by (simp_all add: emulator_ok_def set_phantom_def record_last_def)

lemma scr_ok: "emulator_ok w h e \<Longrightarrow> screen_ok w h (scr e)"
  by (simp add: emulator_ok_def scr_def)

lemma em_size: "emulator_ok w h e \<Longrightarrow> em_width e = w \<and> em_height e = h"
  using scr_ok screen_size by (metis em_width_def em_height_def)

lemma on_scr_ok: "emulator_ok w h e \<Longrightarrow> (\<And>s. screen_ok w h s \<Longrightarrow> screen_ok w h (f s)) \<Longrightarrow> emulator_ok w h (on_scr f e)"
  by (simp add: emulator_ok_def on_scr_def)

lemma on_scr_const: "emulator_ok w h e \<Longrightarrow> screen_ok w h s \<Longrightarrow> emulator_ok w h (on_scr (\<lambda>_. s) e)"
  by (simp add: emulator_ok_def on_scr_def)

lemma new_emulator_ok: "buf_dims ops \<Longrightarrow> 1 \<le> w \<Longrightarrow> 1 \<le> h \<Longrightarrow> emulator_ok w h (new_emulator ops tb w h)"
  by (simp add: new_emulator_def emulator_ok_def new_screen_ok disable_scrollback_ok sets_ok_def)

subsection \<open>Every command keeps it\<close>

lemmas screen_op_ok = set_cursor_ok move_cursor_ok restore_cursor_ok clear_scrollback_ok set_line_wrap_ok blank_cells_ok
  prepare_cell_ok insert_cells_ok delete_cells_ok

lemma next_tab_ok: "emulator_ok w h e \<Longrightarrow> emulator_ok w h (next_tab tb n e)"
  unfolding next_tab_def Let_def by (intro on_scr_ok set_cursor_ok)

lemma prev_tab_ok: "emulator_ok w h e \<Longrightarrow> emulator_ok w h (prev_tab tb n e)"
  unfolding prev_tab_def Let_def by (intro on_scr_ok set_cursor_ok)

lemma em_move_ok: "emulator_ok w h e \<Longrightarrow> emulator_ok w h (em_move dx dy e)"
  by (simp add: em_move_def on_scr_ok move_cursor_ok)

lemma em_set_cursor_ok: "emulator_ok w h e \<Longrightarrow> emulator_ok w h (em_set_cursor x y e)"
  by (simp add: em_set_cursor_def on_scr_ok set_cursor_ok)

lemma set_cursor_position_ok: "emulator_ok w h e \<Longrightarrow> emulator_ok w h (set_cursor_position x y e)"
  by (simp add: set_cursor_position_def on_scr_ok set_cursor_ok)

lemma carriage_return_ok: "emulator_ok w h e \<Longrightarrow> emulator_ok w h (carriage_return e)"
  by (simp add: carriage_return_def Let_def on_scr_ok set_cursor_ok)

lemma index_down_ok: "buf_dims ops \<Longrightarrow> emulator_ok w h e \<Longrightarrow> emulator_ok w h (index_down ops e)"
  by (simp add: index_down_def Let_def on_scr_ok scroll_up_ok move_cursor_ok)

lemma linefeed_ok: "buf_dims ops \<Longrightarrow> emulator_ok w h e \<Longrightarrow> emulator_ok w h (linefeed ops e)"
  by (simp add: linefeed_def Let_def index_down_ok carriage_return_ok)

lemma reverse_index_ok: "buf_dims ops \<Longrightarrow> emulator_ok w h e \<Longrightarrow> emulator_ok w h (reverse_index ops e)"
  by (simp add: reverse_index_def Let_def on_scr_ok scroll_down_ok move_cursor_ok)

lemma map_charset_ok: "emulator_ok w h e \<Longrightarrow> map_charset c e = (c', e') \<Longrightarrow> emulator_ok w h e'"
  by (auto simp: map_charset_def pick_charset_def Let_def emulator_ok_def sets_ok_def split: list.splits option.splits if_splits)

lemma advance_ok: "emulator_ok w h e \<Longrightarrow> emulator_ok w h (advance_after_print x y v awm e)"
  by (simp add: advance_after_print_def Let_def on_scr_ok set_cursor_ok)

lemma write_cell_ok:
  assumes "buf_dims ops" "emulator_ok w h e"
  shows "emulator_ok w h (write_cell ops x y cell content v e)"
  using assms by (simp add: write_cell_def Let_def advance_ok on_scr_ok set_cell_ok prepare_cell_ok insert_cells_ok set_cursor_ok)

lemma handle_grapheme_ok:
  assumes "buf_dims ops" "emulator_ok w h e"
  shows "emulator_ok w h (handle_grapheme ops content v e)"
proof -
  have wrap: "emulator_ok w h (wrap_row ops y 0 e)" for y
    using assms by (simp add: wrap_row_def index_down_ok on_scr_ok set_line_wrap_ok)
  show ?thesis using assms wrap
    unfolding handle_grapheme_def Let_def
    by (auto intro!: write_cell_ok index_down_ok on_scr_ok set_cursor_ok set_line_wrap_ok blank_cells_ok
        dest: map_charset_ok [rotated] split: prod.split)
qed

lemma repeat_grapheme_ok: "buf_dims ops \<Longrightarrow> emulator_ok w h e \<Longrightarrow> emulator_ok w h (repeat_grapheme ops n e)"
  by (induction n arbitrary: e) (simp_all add: handle_grapheme_ok)

lemma repeat_previous_ok: "buf_dims ops \<Longrightarrow> emulator_ok w h e \<Longrightarrow> emulator_ok w h (repeat_previous ops n e)"
  by (simp add: repeat_previous_def Let_def repeat_grapheme_ok)

lemma emulator_ok_cell [simp]:
  "emulator_ok w h (e\<lparr>em_cell_x := x\<rparr>) = emulator_ok w h e" "emulator_ok w h (e\<lparr>em_cell_y := y\<rparr>) = emulator_ok w h e"
  by (simp_all add: emulator_ok_def)

lemma redraw_at_ok: "buf_dims ops \<Longrightarrow> emulator_ok w h e \<Longrightarrow> emulator_ok w h (redraw_at ops x y cell awm e)"
  by (simp add: redraw_at_def Let_def advance_ok on_scr_ok set_cell_ok prepare_cell_ok)

lemma redraw_last_ok: "buf_dims ops \<Longrightarrow> emulator_ok w h e \<Longrightarrow> emulator_ok w h (redraw_last ops cell e)"
  by (simp add: redraw_last_def Let_def redraw_at_ok on_scr_ok set_cell_ok index_down_ok set_cursor_ok set_line_wrap_ok blank_cells_ok)

lemma attach_ok: "buf_dims ops \<Longrightarrow> emulator_ok w h e \<Longrightarrow> emulator_ok w h (snd (attach_to_last ops seg r e))"
  by (auto simp: attach_to_last_def Let_def redraw_last_ok split: option.split prod.split)

lemma em_fill_ok: "buf_dims ops \<Longrightarrow> emulator_ok w h e \<Longrightarrow> emulator_ok w h (em_fill ops a e)"
  by (simp add: em_fill_def on_scr_ok fill_area_ok)

lemma erase_character_ok: "buf_dims ops \<Longrightarrow> emulator_ok w h e \<Longrightarrow> emulator_ok w h (erase_character ops n e)"
  by (simp add: erase_character_def Let_def em_fill_ok)

lemma erase_display_ok: "buf_dims ops \<Longrightarrow> emulator_ok w h e \<Longrightarrow> emulator_ok w h (erase_display ops n e)"
  by (simp add: erase_display_def Let_def em_fill_ok on_scr_ok clear_scrollback_ok)

lemma erase_line_ok: "buf_dims ops \<Longrightarrow> emulator_ok w h e \<Longrightarrow> emulator_ok w h (erase_line ops n e)"
  by (simp add: erase_line_def Let_def em_fill_ok erase_character_ok)

lemma screen_alignment_ok: "buf_dims ops \<Longrightarrow> emulator_ok w h e \<Longrightarrow> emulator_ok w h (screen_alignment ops e)"
  by (simp add: screen_alignment_def Let_def em_set_cursor_ok on_scr_ok fill_area_ok ok_margins bounds_margins)

lemma em_save_ok: "emulator_ok w h e \<Longrightarrow> emulator_ok w h (em_save e)"
  unfolding em_save_def
  by (rule on_scr_ok) (simp_all add: screen_ok_def save_cursor_def emulator_ok_def state_ok_def)

lemma em_restore_ok:
  assumes "emulator_ok w h e"
  shows "emulator_ok w h (em_restore e)"
proof -
  have r: "emulator_ok w h (on_scr restore_cursor e)" by (rule on_scr_ok [OF assms restore_cursor_ok])
  then have "state_ok (sc_state (scr (on_scr restore_cursor e)))" using scr_ok screen_okD(8) by blast
  moreover have "state_ok (nothing_saved\<lparr>sv_gr := 1\<rparr>)" by (simp add: state_ok_def nothing_saved_def sets_ok_def)
  ultimately show ?thesis using r by (simp add: em_restore_def Let_def emulator_ok_def state_ok_def)
qed

lemma set_hidden_ok: "screen_ok w h s \<Longrightarrow> screen_ok w h (set_hidden b s)"
  by (simp add: set_hidden_def ok_same_place)

lemma set_cursor_style_ok: "screen_ok w h s \<Longrightarrow> screen_ok w h (set_cursor_style st b s)"
  by (simp add: set_cursor_style_def ok_same_place)

lemma set_alt_screen_ok:
  assumes "buf_dims ops" "emulator_ok w h e"
  shows "emulator_ok w h (snd (set_alt_screen ops on clear e))"
proof (cases "on = em_on_alt e")
  case False
  define e0 where "e0 = on_scr (\<lambda>s. s\<lparr>sc_phantom := em_phantom e\<rparr>) e"
  have e0: "emulator_ok w h e0" unfolding e0_def using assms(2) by (simp add: on_scr_ok)
  have enter: "emulator_ok w h (e0\<lparr>em_on_alt := True, em_alt := (em_alt e0)\<lparr>sc_cur := sc_cur (em_main e0)\<rparr>\<rparr>)"
    using e0 by (simp add: emulator_ok_def screen_ok_def)
  have leave: "emulator_ok w h (e0\<lparr>em_alt := clear_screen ops (em_alt e0)\<rparr>)"
    using e0 by (simp add: emulator_ok_def clear_screen_ok [OF assms(1)])
  show ?thesis using False enter leave e0
    by (simp add: set_alt_screen_def Let_def e0_def [symmetric] em_set_cursor_ok on_scr_ok clear_screen_ok [OF assms(1)]
        set_hidden_ok set_cursor_style_ok)
qed (use assms in \<open>simp add: set_alt_screen_def\<close>)

lemma set_mode_ok:
  assumes "buf_dims ops" "emulator_ok w h e"
  shows "emulator_ok w h (set_mode ops m on e)"
proof -
  define e1 where "e1 = e\<lparr>em_modes := (em_modes e)(m := on)\<rparr>"
  have e1: "emulator_ok w h e1" using assms(2) by (simp add: e1_def)
  note alt = set_alt_screen_ok [OF assms(1)]
  have leave: "emulator_ok w h e'" if "set_alt_screen ops a b e1 = (r, e')" for a b r e'
    using alt [OF e1, of a b] that by simp
  show ?thesis unfolding set_mode_def Let_def e1_def [symmetric]
    using e1 by (auto simp: on_scr_ok set_hidden_ok alt em_save_ok em_restore_ok leave split: mode.split prod.split bool.split)
qed

lemma soft_reset_ok:
  assumes "buf_dims ops" "emulator_ok w h e"
  shows "emulator_ok w h (soft_reset ops e)"
proof -
  define e1 where "e1 = set_mode ops Auto_Wrap True (set_mode ops Origin False (set_mode ops Insert_Replace False (set_mode ops Cursor_Enable True e)))"
  define f where "f = (\<lambda>s. s\<lparr>sc_scroll := bounds s, sc_cur := (sc_cur s)\<lparr>cu_pen := plain_style, cu_link := []\<rparr>,
    sc_saved := home_cursor, sc_state := nothing_saved\<rparr>)"
  have e1: "emulator_ok w h e1" using assms by (simp add: e1_def set_mode_ok)
  have "screen_ok w h (f s)" if "screen_ok w h s" for s
    using that bounds_margins [OF that] nothing_saved_ok by (simp add: f_def screen_ok_def in_bounds_def)
  then have "emulator_ok w h (on_scr f e1)" by (rule on_scr_ok [OF e1])
  then show ?thesis
    unfolding soft_reset_def Let_def e1_def [symmetric] f_def [symmetric] by (simp add: emulator_ok_def sets_ok_def)
qed

lemma full_reset_ok:
  assumes "buf_dims ops" "emulator_ok w h e"
  shows "emulator_ok w h (full_reset ops tb order e)"
proof -
  define e1 where "e1 = e\<lparr>em_main := reset_screen ops (em_main e), em_alt := reset_screen ops (em_alt e)\<rparr>"
  define e2 where "e2 = e1\<lparr>em_tabs := tb_default tb (em_width e1), em_modes := default_modes\<rparr>"
  define e3 where "e3 = fold (\<lambda>m. set_mode ops m (default_modes m)) order e2"
  have "emulator_ok w h e2"
    using assms(2) by (simp add: e2_def e1_def emulator_ok_def reset_screen_ok [OF assms(1)])
  then have "emulator_ok w h (fold (\<lambda>m. set_mode ops m (default_modes m)) ms e2)" for ms
    by (induction ms rule: rev_induct) (simp_all add: set_mode_ok [OF assms(1)])
  then have "emulator_ok w h e3" by (simp add: e3_def)
  then show ?thesis
    unfolding full_reset_def Let_def e1_def [symmetric] e2_def [symmetric] e3_def [symmetric] by (simp add: emulator_ok_def sets_ok_def)
qed

lemma set_top_bottom_ok:
  assumes "emulator_ok w h e"
  shows "emulator_ok w h (set_top_bottom t b e)"
proof -
  have size: "em_height e = h" "1 \<le> h" using em_size [OF assms] screen_okD(2) [OF scr_ok [OF assms]] by auto
  define b' where "b' = (if b < 1 \<or> b > h then h else b)"
  have "emulator_ok w h (on_scr (set_vertical_margins (max t 1 - 1) b') e)" if "max t 1 < b'"
    by (rule on_scr_ok [OF assms vertical_ok]) (use that size in \<open>auto simp: b'_def\<close>)
  then show ?thesis
    using assms by (auto simp: set_top_bottom_def Let_def size b'_def [symmetric] not_le intro: set_cursor_position_ok)
qed

lemma set_left_right_ok:
  assumes "emulator_ok w h e"
  shows "emulator_ok w h (set_left_right l r e)"
proof -
  have size: "em_width e = w" "1 \<le> w" using em_size [OF assms] screen_okD(1) [OF scr_ok [OF assms]] by auto
  define r' where "r' = (if r < 1 \<or> r > w then w else r)"
  have "emulator_ok w h (on_scr (set_horizontal_margins (max l 1 - 1) r') e)" if "max l 1 < r'"
    by (rule on_scr_ok [OF assms horizontal_ok]) (use that size in \<open>auto simp: r'_def\<close>)
  then show ?thesis
    using assms em_save_ok [OF assms]
    by (auto simp: set_left_right_def Let_def size r'_def [symmetric] not_le intro: set_cursor_position_ok)
qed

lemma edit_lines_ok:
  assumes "emulator_ok w h e" "\<And>s. screen_ok w h s \<Longrightarrow> screen_ok w h (snd (f n s))"
  shows "emulator_ok w h (edit_lines f n e)"
proof -
  have s: "screen_ok w h (snd (f n (scr (set_phantom False e))))" using assms by (simp add: scr_ok)
  then have "emulator_ok w h (on_scr (\<lambda>_. snd (f n (scr (set_phantom False e)))) (set_phantom False e))"
    using assms(1) by (intro on_scr_const) simp_all
  then show ?thesis by (auto simp: edit_lines_def Let_def split_beta on_scr_ok set_cursor_ok)
qed

lemma sets_ok_of: "emulator_ok w h e \<Longrightarrow> sets_ok (em_charsets e) (em_gl e) (em_gr e) (em_gsingle e)"
  by (simp add: emulator_ok_def)

lemma resize_main_ok:
  assumes "buf_dims ops" "emulator_ok w h e" "1 \<le> w'" "1 \<le> h'" "e' = resize_main ops w' h' e"
  shows "screen_ok w' h' (em_main e') \<and> em_alt e' = em_alt e \<and> em_charsets e' = em_charsets e \<and> em_gl e' = em_gl e \<and>
    em_gr e' = em_gr e \<and> em_gsingle e' = em_gsingle e"
proof -
  have m: "screen_ok w h (em_main e)" using assms(2) by (simp add: emulator_ok_def)
  show ?thesis
  proof (cases "w' > 0 \<and> h' > 0 \<and> w' \<noteq> scr_width (em_main e)")
    case True
    obtain b s where r: "reflow_resize w' h' (em_main e) = (b, s)" by fastforce
    then have "screen_ok w' h' s" using reflow_resize_ok [OF m assms(3,4) r [symmetric]] by simp
    with True show ?thesis unfolding assms(5) resize_main_def if_P [OF True] r by (auto simp: Let_def set_phantom_def)
  next
    case False
    then show ?thesis unfolding assms(5) resize_main_def if_not_P [OF False]
      using resize_keeping_cursor_ok [OF assms(1) m assms(3,4)] by simp
  qed
qed

lemma em_resize_ok:
  assumes "buf_dims ops" "emulator_ok w h e" "1 \<le> w'" "1 \<le> h'"
  shows "emulator_ok w' h' (em_resize ops tb w' h' e)"
proof -
  define e0 where "e0 = resize_main ops w' h' e"
  define e1 where "e1 = e0\<lparr>em_alt := resize_keeping_cursor ops w' h' (em_alt e0), em_cell_w := 0, em_tabs := tb_resize tb w' (em_tabs e0)\<rparr>"
  have a: "screen_ok w h (em_alt e)" using assms(2) by (simp add: emulator_ok_def)
  have e1: "emulator_ok w' h' e1"
    using resize_main_ok [OF assms e0_def] resize_keeping_cursor_ok [OF assms(1) a assms(3,4)] sets_ok_of [OF assms(2)]
    by (simp add: e1_def emulator_ok_def)
  have c: "in_bounds w' h' (sc_cur (scr e1))" by (rule screen_okD(5) [OF scr_ok [OF e1]])
  have "emulator_ok w' h' (on_scr (put_cursor (cur_x e1 + 1) (cur_y e1)) e1)" if "cur_x e1 < w' - 1"
    by (rule on_scr_ok [OF e1 ok_cursor]) (use that c in \<open>auto simp: in_bounds_def cur_x_def cur_y_def\<close>)
  then show ?thesis using e1 unfolding em_resize_def Let_def e0_def [symmetric] e1_def [symmetric] by simp
qed

lemma em_settle_ok: "emulator_ok w h e \<Longrightarrow> emulator_ok w h (em_settle e)"
  using settle_reflow_ok by (simp add: em_settle_def emulator_ok_def)

text \<open>The size of the emulator after an event.\<close>

definition size_after :: "guest \<Rightarrow> int \<times> int \<Rightarrow> int \<times> int" where
  "size_after g sz = (case g of Resize w h \<Rightarrow> (w, h) | _ \<Rightarrow> sz)"

definition guest_fits :: "guest \<Rightarrow> bool" where
  "guest_fits g \<longleftrightarrow> (case g of Resize w h \<Rightarrow> 1 \<le> w \<and> 1 \<le> h | _ \<Rightarrow> True)"

lemma ok_unless:
  assumes "emulator_ok w h e" "em_main e' = em_main e" "em_alt e' = em_alt e"
    "sets_ok (em_charsets e') (em_gl e') (em_gr e') (em_gsingle e')"
  shows "emulator_ok w h e'"
  using assms by (simp add: emulator_ok_def)

lemma control_step_ok:
  assumes "buf_dims ops" "emulator_ok w h e"
  shows "emulator_ok w h (control_step ops tb c e)"
  using assms sets_ok_of [OF assms(2)]
  by (cases c) (auto simp: em_move_ok next_tab_ok linefeed_ok carriage_return_ok index_down_ok reverse_index_ok sets_ok_def
      intro!: ok_unless [OF assms(2)])

lemma escape_step_ok:
  assumes "buf_dims ops" "emulator_ok w h e"
  shows "emulator_ok w h (escape_step ops tb c e)"
  using assms sets_ok_of [OF assms(2)]
  by (cases c) (auto simp: set_mode_ok em_save_ok em_restore_ok control_step_ok screen_alignment_ok full_reset_ok sets_ok_def
      intro!: ok_unless [OF assms(2)])

lemma csi_step_ok:
  assumes "buf_dims ops" "emulator_ok w h e"
  shows "emulator_ok w h (csi_step ops tb c e)"
  using assms
  by (cases c) (simp_all add: on_scr_ok insert_cells_ok delete_cells_ok em_move_ok carriage_return_ok em_set_cursor_ok
      cursor_position_params_def set_cursor_position_ok next_tab_ok prev_tab_ok erase_display_ok erase_line_ok erase_character_ok
      edit_lines_ok insert_line_ok delete_line_ok scroll_up_ok scroll_down_ok repeat_previous_ok tab_clear_def set_mode_ok
      cursor_style_param_def Let_def set_cursor_style_ok set_top_bottom_ok set_left_right_ok soft_reset_ok em_restore_ok ok_same_place)

lemma guest_step_ok:
  assumes "buf_dims ops" "emulator_ok w h e" "guest_fits g" "(w', h') = size_after g (w, h)"
  shows "emulator_ok w' h' (guest_step ops tb g e)"
  using assms
  by (cases g) (simp_all add: size_after_def guest_fits_def handle_grapheme_ok attach_ok control_step_ok escape_step_ok
      csi_step_ok on_scr_ok ok_same_place em_resize_ok em_settle_ok)

lemma guest_run_ok:
  "buf_dims ops \<Longrightarrow> emulator_ok w h e \<Longrightarrow> list_all guest_fits gs \<Longrightarrow> (w', h') = fold size_after gs (w, h) \<Longrightarrow>
   emulator_ok w' h' (guest_run ops tb gs e)"
proof (induction gs arbitrary: e w h)
  case (Cons g gs)
  obtain w1 h1 where "(w1, h1) = size_after g (w, h)" by (metis surj_pair)
  with Cons show ?case using guest_step_ok [of ops w h e g w1 h1 tb] by (simp add: guest_run_def)
qed (simp add: guest_run_def)

text \<open>A buffer and tab stops for the witnesses: the documented behaviour of the library's types.\<close>

definition map_grid :: "(int \<Rightarrow> int \<Rightarrow> cell \<Rightarrow> cell) \<Rightarrow> grid \<Rightarrow> grid" where
  "map_grid f g = map (\<lambda>y. map (\<lambda>x. f (int x) (int y) (g ! y ! x)) [0..<length (g ! y)]) [0..<length g]"

definition or_blank :: "cell option \<Rightarrow> cell" where
  "or_blank c = (case c of None \<Rightarrow> empty_cell | Some d \<Rightarrow> d)"

definition cell_or :: "cell \<Rightarrow> grid \<Rightarrow> int \<Rightarrow> int \<Rightarrow> cell" where
  "cell_or d g x y = (if 0 \<le> y \<and> y < int (length g) \<and> 0 \<le> x \<and> x < int (length (g ! nat y)) then g ! nat y ! nat x else d)"

definition row_buffer :: buf_ops where
  "row_buffer =
     \<lparr>bo_new = (\<lambda>w h. replicate (nat h) (replicate (nat w) empty_cell)),
      bo_resize = (\<lambda>w h g. map (\<lambda>y. map (\<lambda>x. cell_or empty_cell g (int x) (int y)) [0..<nat w]) [0..<nat h]),
      bo_set = (\<lambda>x y c. map_grid (\<lambda>i j d. if j \<noteq> y \<or> i < x then d else if i = x then or_blank c
        else if i < x + c_width (or_blank c) then (or_blank c)\<lparr>c_content := [], c_width := 0\<rparr> else d)),
      bo_fill = (\<lambda>c a. map_grid (\<lambda>i j d. if vr_in i j a then or_blank c else d)),
      bo_insert = (\<lambda>y n c a g. map_grid (\<lambda>i j d. if vr_in i j a \<and> y \<le> j
        then (if j - n < y then or_blank c else cell_or d g i (j - n)) else d) g),
      bo_delete = (\<lambda>y n c a g. map_grid (\<lambda>i j d. if vr_in i j a \<and> y \<le> j
        then (if j + n < vr_y1 a then cell_or d g i (j + n) else or_blank c) else d) g),
      bo_empty = (\<lambda>c. c\<lparr>c_content := '' '', c_width := 1\<rparr>)\<rparr>"

definition eight_tabs :: "unit tab_ops" where
  "eight_tabs =
     \<lparr>tb_default = (\<lambda>_. ()), tb_next = (\<lambda>x _. (x div 8 + 1) * 8), tb_prev = (\<lambda>x _. (x - 1) div 8 * 8), tb_set = (\<lambda>_ t. t),
      tb_reset = (\<lambda>_ t. t), tb_clear = (\<lambda>t. t), tb_resize = (\<lambda>_ t. t)\<rparr>"

lemma map_grid_dims: "grid_dims w h g \<Longrightarrow> grid_dims w h (map_grid f g)"
  by (auto simp: grid_dims_def map_grid_def)

lemma row_buffer_dims: "buf_dims row_buffer"
  by (auto simp: buf_dims_def row_buffer_def map_grid_dims) (auto simp: grid_dims_def)



end
