(* ===== verification/VtRows.thy ===== *)
theory VtRows
  imports VtGuest
begin

text \<open>
  What the screen's operations do to its rows: shifting and printing leave no half of a wide rune
  behind, a scroll of the whole screen hands its rows to the scrollback in order, and printing a run of
  text writes it cell by cell.
\<close>

subsection \<open>Shifting cells\<close>

definition rows_whole :: "screen \<Rightarrow> bool" where
  "rows_whole s \<longleftrightarrow> (\<forall>r\<in>set (sc_rows s). whole_row r)"

lemma whole_widths: "whole_row r \<Longrightarrow> c \<in> set r \<Longrightarrow> 0 \<le> c_width c"
proof (induction r rule: whole_row.induct)
  case (2 d cs)
  let ?t = "take (tail_width d) cs" and ?d = "drop (tail_width d) cs"
  have "set cs = set ?t \<union> set ?d" by (metis append_take_drop_id set_append)
  with 2 show ?case by auto
qed simp

text \<open>The row with the cells shifted, before the repair.\<close>

definition shifted :: "bool \<Rightarrow> cell \<Rightarrow> nat \<Rightarrow> nat \<Rightarrow> nat \<Rightarrow> cell list \<Rightarrow> cell list" where
  "shifted ins b x n right r =
     (if ins then take x r @ replicate n b @ drop x (take (right - n) r) @ drop right r
      else take x r @ drop (x + n) (take right r) @ replicate n b @ drop right r)"

definition shift_cells :: "buf_ops \<Rightarrow> bool \<Rightarrow> int \<Rightarrow> screen \<Rightarrow> screen" where
  "shift_cells ops ins n s = (if ins then insert_cells ops n s else delete_cells ops n s)"

lemma shift_cells_row:
  assumes "shift_bounds (cu_x (sc_cur s)) (cu_y (sc_cur s)) n s = Some k"
  shows "shift_cells ops ins n s = on_row (cu_y (sc_cur s)) (\<lambda>r. repair_wide (bo_empty ops)
    (shifted ins (erase_pen s) (nat (cu_x (sc_cur s))) (nat k) (nat (vr_x1 (region s))) r)) s"
  using assms
  by (auto simp: shift_cells_def shifted_def insert_cells_def delete_cells_def insert_row_def delete_row_def Let_def
      intro!: arg_cong [of _ _ "\<lambda>f. on_row _ f s"])

lemma shifted_widths:
  assumes "whole_row r" "c_width b = 1" "c \<in> set (shifted ins b x n right r)"
  shows "0 \<le> c_width c"
  using assms whole_widths [OF assms(1)]
  by (auto simp: shifted_def split: if_splits dest!: in_set_takeD in_set_dropD)

lemma shift_cells_spec:
  assumes "screen_ok w h s" "rows_whole s" "\<And>c. c_width (bo_empty ops c) = 1"
    and "y = nat (cu_y (sc_cur s))" and "row = shifted ins (erase_pen s) (nat (cu_x (sc_cur s))) (nat k) (nat (vr_x1 (region s))) (sc_rows s ! y)"
  shows "rows_whole (shift_cells ops ins n s) \<and>
    (shift_bounds (cu_x (sc_cur s)) (cu_y (sc_cur s)) n s = Some k \<longrightarrow>
       (\<forall>i<length (sc_rows s). sc_rows (shift_cells ops ins n s) ! i = (if i = y then repair_wide (bo_empty ops) row else sc_rows s ! i)) \<and>
       (whole_row row \<longrightarrow> sc_rows (shift_cells ops ins n s) ! y = row))"
proof (cases "shift_bounds (cu_x (sc_cur s)) (cu_y (sc_cur s)) n s")
  case None
  then have "shift_cells ops ins n s = s" by (simp add: shift_cells_def insert_cells_def delete_cells_def)
  with assms(2) None show ?thesis by simp
next
  case (Some j)
  have c: "0 \<le> cu_y (sc_cur s)" "cu_y (sc_cur s) < scr_height s"
    using screen_okD(5) [OF assms(1)] screen_size(2) [OF assms(1)] by (auto simp: in_bounds_def)
  then have y: "y < length (sc_rows s)" using assms(4) by (simp add: scr_height_def)
  define f where "f = (\<lambda>r. repair_wide (bo_empty ops)
    (shifted ins (erase_pen s) (nat (cu_x (sc_cur s))) (nat j) (nat (vr_x1 (region s))) r))"
  have rows: "sc_rows (shift_cells ops ins n s) = (sc_rows s)[y := f (sc_rows s ! y)]"
    using shift_cells_row [OF Some, of ops ins] c assms(4) by (simp add: on_row_def f_def)
  have "whole_row (f r)" if "whole_row r" for r
    unfolding f_def
    by (rule repair_whole [OF assms(3)])
      (use shifted_widths [OF that, of "erase_pen s"] in \<open>simp add: erase_pen_def\<close>)
  then have "rows_whole (shift_cells ops ins n s)"
    using assms(2) y by (auto simp: rows_whole_def rows dest!: set_update_subset_insert [THEN subsetD])
  moreover have "f (sc_rows s ! y) = repair_wide (bo_empty ops) row" if "j = k" using that assms(5) by (simp add: f_def)
  ultimately show ?thesis using Some y rows repair_id by auto
qed


definition wide_cell :: "string \<Rightarrow> cell" where
  "wide_cell c = \<lparr>c_content = c, c_width = 2, c_style = plain_style, c_url = []\<rparr>"

definition half_cell :: cell where
  "half_cell = \<lparr>c_content = [], c_width = 0, c_style = plain_style, c_url = []\<rparr>"

definition wide_screen :: screen where
  "wide_screen = put_cursor 1 0 ((new_screen row_buffer 4 1)\<lparr>sc_rows := [[wide_cell ''A'', half_cell, wide_cell ''B'', half_cell]]\<rparr>)"

lemma wide_screen_ok: "screen_ok 4 1 wide_screen"
  unfolding wide_screen_def
  by (rule ok_cursor [OF ok_rows [OF new_screen_ok [OF row_buffer_dims]]]) (simp_all add: grid_dims_def)


subsection \<open>Printing a cell\<close>

text \<open>
  \<^verbatim>\<open>RenderBuffer.SetCell\<close> over vacated cells: the cell at its place, its continuations after it.
\<close>

definition buf_sets :: "buf_ops \<Rightarrow> bool" where
  "buf_sets ops \<longleftrightarrow> (\<forall>g y x c. y < length g \<longrightarrow> 1 \<le> c_width c \<longrightarrow> x + nat (c_width c) \<le> length (g ! y) \<longrightarrow>
     (\<forall>n. x \<le> n \<longrightarrow> n < x + nat (c_width c) \<longrightarrow> c_width (g ! y ! n) = 1) \<longrightarrow>
     (\<exists>t. length t = nat (c_width c) - 1 \<and> (\<forall>d\<in>set t. c_width d = 0) \<and>
        bo_set ops (int x) (int y) (Some c) g = g[y := take x (g ! y) @ c # t @ drop (x + nat (c_width c)) (g ! y)]))"

lemma placed_locally:
  assumes "locally_whole p" "c_width c \<in> {1, 2}" "v = nat (c_width c)" "x + v \<le> length p"
    and narrow: "\<And>n. x \<le> n \<Longrightarrow> n < x + v \<Longrightarrow> c_width (p ! n) = 1"
    and t: "length t = v - 1" "\<forall>d\<in>set t. c_width d = 0"
  shows "locally_whole (take x p @ c # t @ drop (x + v) p)"
proof -
  let ?q = "take x p @ c # t @ drop (x + v) p"
  have v: "v = 1 \<and> c_width c = 1 \<and> t = [] \<or> v = 2 \<and> c_width c = 2 \<and> length t = 1 \<and> c_width (t ! 0) = 0"
    using assms(2,3) t by (cases t) auto
  have l: "length ?q = length p" using v assms(4) by auto
  have q: "?q ! n = (if n < x then p ! n else if n = x then c else if n < x + v then t ! 0 else p ! n)" if "n < length p" for n
  proof -
    consider "n < x" | "n = x" | "x < n" "n < x + v" | "x + v \<le> n" by linarith
    then show ?thesis
    proof cases
      case 4
      then have "x < n" using v by auto
      then have "?q ! n = (t @ drop (x + v) p) ! (n - x - 1)" using assms(4) v by (simp add: nth_append nth_Cons')
      also have "\<dots> = p ! n" using 4 v assms(4) t(1) that by (auto simp: nth_append numeral_2_eq_2 Suc_diff_Suc)
      finally show ?thesis using 4 v by auto
    qed (use v assms(4) that in \<open>auto simp: nth_append\<close>)
  qed
  show ?thesis
    unfolding locally_whole_def l
  proof (intro allI impI)
    fix i
    assume i: "i < length p"
    note d = locally_wholeD [OF assms(1) i]
    have s: "Suc i < length p \<Longrightarrow> ?q ! Suc i = (if Suc i < x then p ! Suc i else if Suc i = x then c else if Suc i < x + v then t ! 0 else p ! Suc i)"
      using q by blast
    have b: "?q ! (i - 1) = (if i - 1 < x then p ! (i - 1) else if i - 1 = x then c else if i - 1 < x + v then t ! 0 else p ! (i - 1))"
      using q i by simp
    have edge: "Suc i = x \<Longrightarrow> c_width (p ! i) \<noteq> 2" using narrow [of x] d(2) v by fastforce
    have after: "i = x + v \<Longrightarrow> c_width (p ! i) \<noteq> 0" using narrow [of "i - 1"] d(3) v by auto
    have eq: "i = x + v" if "i - 1 < x + v" "\<not> i < x + v" using that v by linarith
    show "c_width (?q ! i) \<in> {0, 1, 2} \<and> (c_width (?q ! i) = 2 \<longrightarrow> Suc i < length p \<and> c_width (?q ! Suc i) = 0) \<and>
        (c_width (?q ! i) = 0 \<longrightarrow> 0 < i \<and> c_width (?q ! (i - 1)) = 2)"
      using eq d q [OF i] s b edge after v assms(4) by (auto split: if_splits)
  qed
qed

definition rows_paired :: "screen \<Rightarrow> bool" where
  "rows_paired s \<longleftrightarrow> (\<forall>r\<in>set (sc_rows s). locally_whole r)"

lemma paired_whole: "rows_paired s \<longleftrightarrow> rows_whole s \<and> (\<forall>r\<in>set (sc_rows s). \<forall>c\<in>set r. c_width c \<le> 2)"
proof -
  have "locally_whole r \<longleftrightarrow> whole_row r \<and> (\<forall>c\<in>set r. c_width c \<le> 2)" for r
  proof
    assume a: "locally_whole r"
    then have "\<forall>c\<in>set r. c_width c \<le> 2" using locally_wholeD(1) by (force simp: in_set_conv_nth)
    with a whole_locally show "whole_row r \<and> (\<forall>c\<in>set r. c_width c \<le> 2)" by blast
  qed (use whole_locally in blast)
  then show ?thesis by (auto simp: rows_paired_def rows_whole_def)
qed

text \<open>The cell as \<^verbatim>\<open>handleGrapheme\<close> writes it.\<close>

definition put_cell :: "buf_ops \<Rightarrow> int \<Rightarrow> int \<Rightarrow> cell \<Rightarrow> screen \<Rightarrow> screen" where
  "put_cell ops x y c s =
     set_cell ops x y (Some c) (if c_width c \<noteq> 1 \<or> \<not> narrow_at x y s then prepare_cell x y (c_width c) s else s)"

lemma put_cell_row:
  assumes "screen_ok w h s" "rows_paired s" "buf_sets ops" "c_width c \<in> {1, 2}" "x + nat (c_width c) \<le> nat w" "y < nat h"
  shows "\<exists>row. sc_rows (put_cell ops (int x) (int y) c s) = (sc_rows s)[y := row] \<and> length row = nat w \<and> locally_whole row \<and> row ! x = c \<and>
    (\<forall>n<length row. c_width (sc_rows s ! y ! n) = 1 \<longrightarrow> \<not> (x \<le> n \<and> n < x + nat (c_width c)) \<longrightarrow> row ! n = sc_rows s ! y ! n)"
proof -
  let ?r = "sc_rows s ! y" and ?v = "nat (c_width c)" and ?b = "erase_pen s"
  have yr: "y < length (sc_rows s)" using assms(6) screen_okD(3) [OF assms(1)] by (auto simp: grid_dims_def)
  then have r: "?r \<in> set (sc_rows s)" by simp
  then have lr: "length ?r = nat w" using screen_okD(3) [OF assms(1)] by (auto simp: grid_dims_def)
  have loc: "locally_whole ?r" using assms(2) r by (simp add: rows_paired_def)
  have x: "x < length ?r" "1 \<le> ?v" using assms(4,5) lr by auto
  have b: "c_width ?b = 1" by (simp add: erase_pen_def)
  define p where "p = prepare_row ?b ?r (int x) (c_width c)"
  have lp: "length p = nat w" using lr by (simp add: p_def)
  have ce: "cell_end ?r x (c_width c) = x + ?v" using assms(4,5) lr by (auto simp: cell_end_def)
  have p: "locally_whole p \<and> (\<forall>n. x \<le> n \<longrightarrow> n < x + ?v \<longrightarrow> c_width (p ! n) = 1)"
  proof (cases "c_width c \<le> 1 \<and> c_width (?r ! x) = 1")
    case True
    then have "p = ?r" "?v = 1" using x assms(4) by (auto simp: p_def prepare_row_def)
    with True loc show ?thesis by (auto simp: le_less_Suc_eq)
  next
    case False
    then have "p = prepare_slow ?b ?r x (c_width c)" using x by (auto simp: p_def prepare_row_def)
    with prepare_slow_whole [OF loc x(1) b, of "c_width c"] ce show ?thesis by simp
  qed
  have same: "p ! n = ?r ! n" if "n < length ?r" "c_width (?r ! n) = 1" "\<not> (x \<le> n \<and> n < x + ?v)" for n
  proof (cases "c_width c \<le> 1 \<and> c_width (?r ! x) = 1")
    case True
    with x show ?thesis by (auto simp: p_def prepare_row_def)
  next
    case False
    then have e: "p = prepare_slow ?b ?r x (c_width c)" using x by (auto simp: p_def prepare_row_def)
    have "\<not> (c_width (?r ! x) = 0 \<and> Suc n = x)" using that(2) locally_wholeD(3) [OF loc x(1)] by auto
    moreover have "Suc (x + ?v - 1) = x + ?v" using x(2) by linarith
    then have "\<not> (c_width (?r ! (x + ?v - 1)) = 2 \<and> n = x + ?v)"
      using that(2) locally_wholeD(2) [OF loc, of "x + ?v - 1"] x(2) lr assms(5) by auto
    ultimately show ?thesis using prepare_slow_nth [OF loc x(1) that(1) b refl, of "c_width c"] that(3) ce by (auto simp: e)
  qed
  define s1 where "s1 = (if c_width c \<noteq> 1 \<or> \<not> narrow_at (int x) (int y) s then prepare_cell (int x) (int y) (c_width c) s else s)"
  have s1: "sc_rows s1 = (sc_rows s)[y := p]"
  proof (cases "c_width c \<noteq> 1 \<or> \<not> narrow_at (int x) (int y) s")
    case True
    then show ?thesis using yr by (simp add: s1_def prepare_cell_def on_row_def scr_height_def p_def)
  next
    case False
    then have "p = ?r" using x yr by (auto simp: p_def prepare_row_def narrow_at_def scr_cell_def scr_height_def split: if_splits)
    with False yr show ?thesis by (simp add: s1_def)
  qed
  have y1: "y < length (sc_rows s1)" "sc_rows s1 ! y = p" using yr by (simp_all add: s1)
  have one: "1 \<le> c_width c" using assms(4) by auto
  have fits: "x + ?v \<le> length (sc_rows s1 ! y)" using assms(5) lp y1 by simp
  have nar: "\<forall>n. x \<le> n \<longrightarrow> n < x + ?v \<longrightarrow> c_width (sc_rows s1 ! y ! n) = 1" using p y1 by simp
  obtain t where t: "length t = ?v - 1" "\<forall>d\<in>set t. c_width d = 0"
    "bo_set ops (int x) (int y) (Some c) (sc_rows s1) = (sc_rows s1)[y := take x p @ c # t @ drop (x + ?v) p]"
    using assms(3)[unfolded buf_sets_def, rule_format, OF y1(1) one fits] nar y1(2) by auto
  let ?q = "take x p @ c # t @ drop (x + ?v) p"
  have "sc_rows (put_cell ops (int x) (int y) c s) = bo_set ops (int x) (int y) (Some c) (sc_rows s1)"
    by (simp add: put_cell_def s1_def set_cell_def)
  also have "\<dots> = (sc_rows s)[y := ?q]" unfolding t(3) by (simp add: s1)
  finally have "sc_rows (put_cell ops (int x) (int y) c s) = (sc_rows s)[y := ?q]" .
  moreover have q: "locally_whole ?q" by (rule placed_locally [OF _ assms(4) refl]) (use p t lp assms(5) in auto)
  moreover have "length ?q = nat w" "?q ! x = c" using lp assms(5) t(1) x by (auto simp: nth_append)
  moreover have "?q ! n = p ! n" if "n < nat w" "\<not> (x \<le> n \<and> n < x + ?v)" for n
    using that lp assms(5) t(1) x by (auto simp: nth_append nth_Cons' Suc_diff_Suc)
  ultimately show ?thesis using same lr by (intro exI [of _ ?q]) auto
qed

lemma set_repair: "c \<in> set (repair_wide e r) \<Longrightarrow> c \<in> set r \<or> (\<exists>d. c = e d)"
proof (induction e r rule: repair_wide.induct)
  case (2 e d cs)
  let ?fits = "tail_width d \<le> length cs \<and> (\<forall>x\<in>set (take (tail_width d) cs). c_width x = 0)"
  consider "c_width d > 1" "?fits" | "c_width d > 1" "\<not> ?fits" | "\<not> c_width d > 1" "c_width d = 0" | "\<not> c_width d > 1" "c_width d \<noteq> 0"
    by blast
  then show ?case
  proof cases
    case 1
    then have "c = d \<or> c \<in> set (take (tail_width d) cs) \<or> c \<in> set (repair_wide e (drop (tail_width d) cs))"
      using "2.prems" by simp
    with "2.IH"(1) [OF 1] show ?thesis by (auto dest: in_set_takeD in_set_dropD)
  next
    case 2
    then have "repair_wide e (d # cs) = e d # repair_wide e cs" by (subst repair_wide.simps) argo
    with "2.prems" "2.IH"(2) [OF 2] show ?thesis by auto
  next
    case 3
    with "2.prems" "2.IH"(3) [OF 3] show ?thesis by auto
  next
    case 4
    with "2.prems" "2.IH"(4) [OF 4] show ?thesis by auto
  qed
qed simp

lemma shift_cells_paired:
  assumes "screen_ok w h s" "rows_paired s" "\<And>c. c_width (bo_empty ops c) = 1"
  shows "rows_paired (shift_cells ops ins n s) \<and>
    (\<forall>i<length (sc_rows s). i \<noteq> nat (cu_y (sc_cur s)) \<longrightarrow> sc_rows (shift_cells ops ins n s) ! i = sc_rows s ! i)"
proof (cases "shift_bounds (cu_x (sc_cur s)) (cu_y (sc_cur s)) n s")
  case None
  then have "shift_cells ops ins n s = s" by (simp add: shift_cells_def insert_cells_def delete_cells_def)
  with assms(2) show ?thesis by simp
next
  case (Some k)
  have w: "rows_whole s" "\<And>r c. r \<in> set (sc_rows s) \<Longrightarrow> c \<in> set r \<Longrightarrow> c_width c \<le> 2"
    using assms(2) by (auto simp: paired_whole)
  note spec = shift_cells_spec [OF assms(1) w(1) assms(3) refl refl, where ins = ins and k = k and n = n]
  define f where "f = (\<lambda>r. repair_wide (bo_empty ops)
    (shifted ins (erase_pen s) (nat (cu_x (sc_cur s))) (nat k) (nat (vr_x1 (region s))) r))"
  have rows: "sc_rows (shift_cells ops ins n s) = (if cu_y (sc_cur s) < 0 \<or> cu_y (sc_cur s) \<ge> scr_height s then sc_rows s
    else (sc_rows s)[nat (cu_y (sc_cur s)) := f (sc_rows s ! nat (cu_y (sc_cur s)))])"
    using shift_cells_row [OF Some, of ops ins] by (simp add: on_row_def f_def)
  have "c_width c \<le> 2" if "c \<in> set (f r)" "r \<in> set (sc_rows s)" for c r
    using set_repair [OF that(1) [unfolded f_def]] w(2) [OF that(2)] assms(3)
    by (auto simp: shifted_def erase_pen_def split: if_splits dest!: in_set_takeD in_set_dropD)
  then have "c_width c \<le> 2" if "r \<in> set (sc_rows (shift_cells ops ins n s))" "c \<in> set r" for r c
    using that w(2) by (auto simp: rows scr_height_def split: if_splits dest!: set_update_subset_insert [THEN subsetD])
  with spec Some show ?thesis by (auto simp: paired_whole)
qed

lemma scr_simps [simp]:
  "scr (on_scr f e) = f (scr e)" "scr (set_phantom b e) = scr e" "scr (record_last c v e) = scr e"
  "scr (e\<lparr>em_cell_x := cx, em_cell_y := cy, em_cell_w := cw, em_cell_alt := ca\<rparr>) = scr e"
  "scr (e\<lparr>em_cell_w := cw\<rparr>) = scr e"
  by (simp_all add: scr_def on_scr_def set_phantom_def record_last_def)

lemma rows_put_cursor [simp]: "sc_rows (put_cursor x y s) = sc_rows s" "sc_rows (set_cursor x y m s) = sc_rows s"
  by (simp_all add: put_cursor_def set_cursor_def Let_def)

lemma write_cell_rows:
  "sc_rows (scr (write_cell ops x y cell content v e)) = sc_rows (put_cell ops x y cell
     (if mode_set Insert_Replace e then shift_cells ops True (c_width cell) (set_cursor x y False (scr e)) else scr e))"
  by (auto simp: write_cell_def Let_def advance_after_print_def put_cell_def set_cell_def shift_cells_def)

text \<open>
  C20. Printing a cell of one or two columns inside the row never leaves half of another rune: when
  every row is a sequence of narrow and double-width runes it still is one afterwards, in insert mode
  too, the cell stands where it was printed, and no other row changes.
\<close>

theorem printing_leaves_no_half_rune:
  assumes "emulator_ok w h e" "rows_paired (scr e)" "buf_sets ops" "\<And>c. c_width (bo_empty ops c) = 1"
    and "c_width cell \<in> {1, 2}" "x + nat (c_width cell) \<le> nat w" "y < nat h"
    and "s' = scr (write_cell ops (int x) (int y) cell content v e)"
  shows "rows_paired s' \<and> sc_rows s' ! y ! x = cell \<and> (\<forall>i<length (sc_rows (scr e)). i \<noteq> y \<longrightarrow> sc_rows s' ! i = sc_rows (scr e) ! i)"
proof -
  define s0 where "s0 = set_cursor (int x) (int y) False (scr e)"
  define s where "s = (if mode_set Insert_Replace e then shift_cells ops True (c_width cell) s0 else scr e)"
  have e: "screen_ok w h (scr e)" by (rule scr_ok [OF assms(1)])
  have s0: "screen_ok w h s0" unfolding s0_def by (rule set_cursor_ok [OF e])
  have p0: "rows_paired s0" using assms(2) by (simp add: s0_def rows_paired_def)
  have cy: "nat (cu_y (sc_cur s0)) = y"
    using assms(7) by (simp add: s0_def set_cursor_def put_cursor_def screen_size [OF e] vt_clamp_id)
  have ok: "screen_ok w h s" using e insert_cells_ok [OF s0] by (simp add: s_def shift_cells_def)
  have p: "rows_paired s \<and> (\<forall>i<length (sc_rows (scr e)). i \<noteq> y \<longrightarrow> sc_rows s ! i = sc_rows (scr e) ! i)"
    using shift_cells_paired [OF s0 p0 assms(4), of True "c_width cell"] assms(2) unfolding cy by (simp add: s_def s0_def)
  obtain row where r: "sc_rows (put_cell ops (int x) (int y) cell s) = (sc_rows s)[y := row]" "locally_whole row" "row ! x = cell"
    using put_cell_row [OF ok conjunct1 [OF p] assms(3,5,6,7)] by blast
  have s': "sc_rows s' = (sc_rows s)[y := row]"
    using r(1) unfolding assms(8) write_cell_rows s_def s0_def .
  have "y < length (sc_rows s)" using assms(7) screen_okD(3) [OF ok] by (auto simp: grid_dims_def)
  then show ?thesis
    using p r(2,3) by (auto simp: s' rows_paired_def dest!: set_update_subset_insert [THEN subsetD])
qed

lemma row_buffer_sets: "buf_sets row_buffer"
  unfolding buf_sets_def
proof (intro allI impI)
  fix g :: grid and y x :: nat and c :: cell
  assume y: "y < length g" and c: "1 \<le> c_width c" and x: "x + nat (c_width c) \<le> length (g ! y)"
  let ?v = "nat (c_width c)"
  let ?z = "c\<lparr>c_content := [], c_width := 0\<rparr>"
  let ?t = "replicate (?v - 1) ?z"
  let ?row = "take x (g ! y) @ c # ?t @ drop (x + ?v) (g ! y)"
  have v: "1 \<le> ?v" "int ?v = c_width c" using c by simp_all
  define f where "f = (\<lambda>i j d. if j \<noteq> int y \<or> i < int x then d else if i = int x then c else if i < int x + c_width c then ?z else d)"
  have set: "bo_set row_buffer (int x) (int y) (Some c) g = map_grid f g"
    by (simp add: row_buffer_def or_blank_def f_def cong: if_cong)
  have l: "length ?row = length (g ! y)" using v x by simp
  have row: "map (\<lambda>i. f (int i) (int y) (g ! y ! i)) [0..<length (g ! y)] = ?row"
  proof (rule nth_equalityI)
    fix i
    assume "i < length (map (\<lambda>i. f (int i) (int y) (g ! y ! i)) [0..<length (g ! y)])"
    then have i: "i < length (g ! y)" by simp
    have "?row ! i = (if i < x then g ! y ! i else if i = x then c else if i < x + ?v then ?z else g ! y ! i)"
    proof -
      consider "i < x" | "i = x" | "x < i" "i < x + ?v" | "x + ?v \<le> i" "x < i" using v(1) by linarith
      then show ?thesis
      proof cases
        case 3
        then have "?row ! i = (?t @ drop (x + ?v) (g ! y)) ! (i - x - 1)" using i by (simp add: nth_append nth_Cons')
        also have "\<dots> = ?z" using 3 by (simp add: nth_append)
        finally show ?thesis using 3 by simp
      next
        case 4
        then have "?row ! i = (?t @ drop (x + ?v) (g ! y)) ! (i - x - 1)" using i by (simp add: nth_append nth_Cons')
        also have "\<dots> = drop (x + ?v) (g ! y) ! (i - x - 1 - (?v - 1))" using 4 v(1) by (simp add: nth_append)
        also have "i - x - 1 - (?v - 1) = i - (x + ?v)" using 4 v(1) by linarith
        finally show ?thesis using 4 x by simp
      qed (use i x in \<open>simp_all add: nth_append\<close>)
    qed
    then show "map (\<lambda>i. f (int i) (int y) (g ! y ! i)) [0..<length (g ! y)] ! i = ?row ! i"
      using i v(2) by (simp add: f_def)
  qed (use l in simp)
  have "map_grid f g = g[y := ?row]"
  proof (rule nth_equalityI)
    fix j
    assume "j < length (map_grid f g)"
    then have j: "j < length g" by (simp add: map_grid_def)
    show "map_grid f g ! j = g[y := ?row] ! j"
    proof (cases "j = y")
      case True
      with j row show ?thesis by (simp add: map_grid_def)
    next
      case False
      then have "map (\<lambda>i. f (int i) (int j) (g ! j ! i)) [0..<length (g ! j)] = g ! j"
        by (intro nth_equalityI) (simp_all add: f_def)
      with False j show ?thesis by (simp add: map_grid_def)
    qed
  qed (simp add: map_grid_def)
  then show "\<exists>t. length t = ?v - 1 \<and> (\<forall>d\<in>set t. c_width d = 0) \<and>
      bo_set row_buffer (int x) (int y) (Some c) g = g[y := take x (g ! y) @ c # t @ drop (x + ?v) (g ! y)]"
    unfolding set by (intro exI [of _ ?t]) (auto simp: set_replicate_conv_if)
qed

definition wide_emulator :: "unit emulator" where
  "wide_emulator = (new_emulator row_buffer eight_tabs 4 1)\<lparr>em_main := wide_screen\<rparr>"

theorem printing_leaves_no_half_rune_witness:
  "rows_paired (scr (write_cell row_buffer 1 0 (wide_cell ''C'') ''C'' 2 wide_emulator))"
proof -
  have e: "emulator_ok 4 1 wide_emulator"
    using wide_screen_ok new_emulator_ok [OF row_buffer_dims, of 4 1 eight_tabs] by (simp add: wide_emulator_def emulator_ok_def)
  have s: "scr wide_emulator = wide_screen" by (simp add: scr_def wide_emulator_def new_emulator_def)
  have p: "rows_paired (scr wide_emulator)"
    unfolding s by (auto simp: paired_whole rows_whole_def wide_screen_def put_cursor_def wide_cell_def half_cell_def tail_width_def)
  have b: "c_width (bo_empty row_buffer c) = 1" for c by (simp add: row_buffer_def)
  show ?thesis
    using printing_leaves_no_half_rune [OF e p row_buffer_sets b, of "wide_cell ''C''" 1 0, OF _ _ _ refl]
    by (simp add: wide_cell_def)
qed

text \<open>
  The repair stops at runes of two columns. A narrow cell printed on the middle of a wider rune cuts
  what is before it, and leaves the rest of the rune standing without a lead.
\<close>

lemma wider_rune_leaves_a_half:
  "map c_width (prepare_slow empty_cell [empty_cell\<lparr>c_width := 3\<rparr>, half_cell, half_cell] 1 1) = [1, 1, 0] \<and>
   whole_row [empty_cell\<lparr>c_width := 3\<rparr>, half_cell, half_cell]"
  by (simp add: prepare_slow_def cell_end_def cut_left_def cut_right_def vacate_def blank_range_def empty_cell_def half_cell_def
      tail_width_def eval_nat_numeral upt_rec)

subsection \<open>Scrolling the whole screen\<close>

lemma push_rows_fold: "push_rows ss (Some r) = Some (fold push_line_slot ss r)"
proof -
  have "(\<lambda>(line, w) r. snd (push_owned line w r)) = (push_line_slot :: cell slot \<Rightarrow> cell ring \<Rightarrow> cell ring)"
    by (auto simp: push_line_slot_def push_line_wrap_def push_owned_def fun_eq_iff)
  then show ?thesis by (simp add: push_rows_def)
qed

lemma put_cursor_fields [simp]:
  "sc_wraps (put_cursor x y s) = sc_wraps s" "sc_back (put_cursor x y s) = sc_back s" "sc_scroll (put_cursor x y s) = sc_scroll s"
  "erase_pen (put_cursor x y s) = erase_pen s" "scr_width (put_cursor x y s) = scr_width s" "scr_height (put_cursor x y s) = scr_height s"
  by (simp_all add: put_cursor_def erase_pen_def scr_width_def scr_height_def)

text \<open>
  C19. A scroll of the whole screen loses nothing: the rows that leave at the top enter the scrollback
  in order, each with the way it ended, and only the limit of the scrollback drops old lines; the other
  rows move up with the way they end, blank rows in the current background follow them, and the cursor
  stays where it is.
\<close>

theorem scroll_up_feeds_scrollback:
  assumes "screen_ok w h s" "sc_scroll s = bounds s" "sc_back s = Some r" "0 < n"
    and "k = nat (min n h)" and "s' = scroll_up ops n s"
  shows "sc_rows s' = drop k (sc_rows s) @ replicate k (replicate (nat w) (erase_pen s)) \<and>
    sc_wraps s' = drop k (sc_wraps s) @ replicate k hard_break \<and> sc_cur s' = sc_cur s \<and>
    (\<exists>r'. sc_back s' = Some r' \<and> ring_inv r' \<and> contents r' = lastn (rg_max r) (contents r @ take k (zip (sc_rows s) (sc_wraps s))))"
proof -
  note d = screen_okD [OF assms(1)] and size = screen_size [OF assms(1)]
  let ?x = "cu_x (sc_cur s)" and ?y = "cu_y (sc_cur s)"
  have c: "0 \<le> ?x" "?x < w" "0 \<le> ?y" "?y < h" using d(5) by (auto simp: in_bounds_def)
  have rows: "length (sc_rows s) = nat h" "\<And>l. l \<in> set (sc_rows s) \<Longrightarrow> length l = nat w"
    using d(3) by (auto simp: grid_dims_def)
  have wl: "length (sc_wraps s) = nat h" using d(4) by simp
  have kh: "k \<le> nat h" by (simp add: assms(5))
  define t where "t = put_cursor ?x 0 s"
  have t: "set_cursor ?x 0 True s = t"
    using c d(1,2) by (simp add: set_cursor_def t_def assms(2) size vt_clamp_id)
  have tok: "screen_ok w h t" unfolding t_def using c d(2) by (intro ok_cursor [OF assms(1)]) auto
  define leaving where "leaving = map (\<lambda>i. (sc_rows t ! i, line_wrap_at (int i) t)) [0..<k]"
  have lv: "leaving = take k (zip (sc_rows s) (sc_wraps s))"
    by (rule nth_equalityI) (use kh rows(1) wl in \<open>auto simp: leaving_def t_def line_wrap_at_def\<close>)
  have blanks: "map (\<lambda>l. replicate (length l) (erase_pen t)) (take k (sc_rows t)) = replicate k (replicate (nat w) (erase_pen s))"
    by (rule nth_equalityI) (use kh rows in \<open>auto simp: t_def\<close>)
  define u where "u = t\<lparr>sc_rows := drop k (sc_rows s) @ replicate k (replicate (nat w) (erase_pen s)),
    sc_back := Some (fold push_line_slot leaving r), sc_wraps := drop k (sc_wraps s) @ replicate k hard_break\<rparr>"
  have rot: "rotate_up n True t = Some u"
  proof -
    have k': "nat (min n (int (length (sc_rows t)))) = k" using rows(1) d(2) by (simp add: t_def assms(5))
    have "sc_back t = Some r" "sc_rows s \<noteq> []" using rows(1) d(2) by (auto simp: t_def assms(3))
    then show ?thesis
      using rows(1) wl d(1,2) unfolding rotate_up_def Let_def k' leaving_def [symmetric] blanks
      by (simp add: u_def push_rows_fold size assms(2)) (simp add: t_def size assms(2))
  qed
  have save: "(sc_back s \<noteq> None \<and> vr_y0 (sc_scroll s) = 0 \<and> vr_x0 (sc_scroll s) = 0 \<and>
      vr_x1 (sc_scroll s) - vr_x0 (sc_scroll s) = scr_width s) = True"
    by (simp add: assms(2,3) size)
  have uok: "screen_ok w h u" by (rule rotate_up_ok [OF tok rot])
  have s': "s' = set_cursor ?x ?y False u"
    using assms(4) unfolding assms(6) scroll_up_def Let_def save t rot by simp
  also have "\<dots> = put_cursor ?x ?y u"
    using c d(1,2) by (simp add: set_cursor_def screen_size [OF uok] vt_clamp_id)
  finally have s': "s' = put_cursor ?x ?y u" .
  have inv: "ring_inv r" using d(7) by (simp add: assms(3) back_ok_def)
  have "l \<noteq> []" if "l \<in> set (sc_rows s)" for l using rows(2) [OF that] d(1) by auto
  then have "\<forall>l\<in>set leaving. fst l \<noteq> []" unfolding lv by (auto dest!: in_set_takeD set_zip_leftD)
  then have "filter (\<lambda>l. fst l \<noteq> []) leaving = leaving" by simp
  then have "contents (fold push_line_slot leaving r) = lastn (rg_max r) (contents r @ leaving)"
    using ring_log.run_log [OF inv, of leaving] by simp
  moreover have "sc_cur s' = sc_cur s" unfolding s' u_def t_def by (simp add: put_cursor_def)
  ultimately show ?thesis
    using ring_log.run_inv [OF inv, of leaving] unfolding s' lv by (simp add: u_def lv)
qed

theorem scroll_up_feeds_scrollback_witness:
  "sc_rows (scroll_up row_buffer 3 wide_screen) = [replicate 4 (erase_pen wide_screen)]"
proof -
  have b: "sc_scroll wide_screen = bounds wide_screen"
    unfolding screen_size(3) [OF wide_screen_ok] by (simp add: wide_screen_def new_screen_def put_cursor_def vt_rect_def Let_def)
  have r: "sc_back wide_screen = Some (new_scrollback 0)" by (simp add: wide_screen_def new_screen_def put_cursor_def Let_def)
  show ?thesis
    using scroll_up_feeds_scrollback [OF wide_screen_ok b r _ refl refl, of 3 row_buffer]
    by (simp add: wide_screen_def put_cursor_def)
qed

subsection \<open>Printing a run of text\<close>

definition prints_plain :: "'t emulator \<Rightarrow> bool" where
  "prints_plain e \<longleftrightarrow> \<not> mode_set Insert_Replace e \<and> em_charsets e = replicate 4 US_ASCII \<and> em_gsingle e \<le> 1"

definition text_cell :: "'t emulator \<Rightarrow> string \<Rightarrow> cell" where
  "text_cell e c = \<lparr>c_content = c, c_width = 1, c_style = cu_pen (sc_cur (scr e)), c_url = cu_link (sc_cur (scr e))\<rparr>"

lemma map_charset_plain:
  assumes "prints_plain e" "emulator_ok w h e"
  shows "map_charset cell e = (cell, e)"
proof -
  have "nat (em_gl e) < 4" "nat (em_gr e) < 4" using assms(2) by (auto simp: emulator_ok_def sets_ok_def)
  then have "replicate 4 US_ASCII ! nat (em_gl e) = US_ASCII" "replicate 4 US_ASCII ! nat (em_gr e) = US_ASCII"
    by (simp_all only: nth_replicate)
  then have "pick_charset c e = (US_ASCII, e)" for c using assms(1) by (simp add: pick_charset_def prints_plain_def)
  then show ?thesis by (auto simp: map_charset_def charset_char_def split: list.split)
qed

lemma on_scr_fields [simp]:
  "em_modes (on_scr f e) = em_modes e" "em_charsets (on_scr f e) = em_charsets e" "em_gsingle (on_scr f e) = em_gsingle e"
  "em_phantom (on_scr f e) = em_phantom e" "em_on_alt (on_scr f e) = em_on_alt e"
  by (simp_all add: on_scr_def)

lemma step_fields [simp]:
  "em_modes (set_phantom b e) = em_modes e" "em_charsets (set_phantom b e) = em_charsets e" "em_gsingle (set_phantom b e) = em_gsingle e"
  "em_phantom (set_phantom b e) = b"
  "em_modes (record_last c v e) = em_modes e" "em_charsets (record_last c v e) = em_charsets e"
  "em_gsingle (record_last c v e) = em_gsingle e"
  by (simp_all add: set_phantom_def record_last_def)

lemma prepared_cursor [simp]:
  "sc_cur (put_cell ops x y c s) = sc_cur s" "scr_width (s\<lparr>sc_cur := cu\<rparr>) = scr_width s"
  by (simp_all add: put_cell_def set_cell_def prepare_cell_def on_row_def scr_width_def)

lemma handle_plain:
  assumes "emulator_ok w h e" "prints_plain e" "\<not> em_phantom e" "cur_x e + 1 \<le> w"
  shows "handle_grapheme ops c 1 e = write_cell ops (cur_x e) (cur_y e) (text_cell e c) c 1 e"
  using assms map_charset_plain [OF assms(2,1)] em_size [OF assms(1)]
  by (simp add: handle_grapheme_def Let_def text_cell_def)

lemma write_plain:
  assumes "\<not> mode_set Insert_Replace e" "c_width cell = 1"
  shows "\<exists>e3. write_cell ops x y cell c v e = advance_after_print x y 1 (mode_set Auto_Wrap e) e3 \<and>
    scr e3 = put_cell ops x y cell (scr e) \<and> em_modes e3 = em_modes e \<and> em_charsets e3 = em_charsets e \<and> em_gsingle e3 = em_gsingle e"
  using assms by (auto simp: write_cell_def Let_def put_cell_def mode_set_def)

lemma grapheme_step:
  assumes "emulator_ok w h e" "rows_paired (scr e)" "prints_plain e" "\<not> em_phantom e" "cur_x e + 1 \<le> w"
    and "buf_dims ops" "buf_sets ops" "e1 = handle_grapheme ops c 1 e"
  shows "emulator_ok w h e1" "rows_paired (scr e1)" "prints_plain e1" "text_cell e1 = text_cell e" "em_modes e1 = em_modes e"
    "cur_y e1 = cur_y e" "cur_x e1 = min (cur_x e + 1) (w - 1)" "em_phantom e1 = (cur_x e + 1 = w \<and> mode_set Auto_Wrap e)"
    "\<exists>row. sc_rows (scr e1) = (sc_rows (scr e))[nat (cur_y e) := row] \<and> row ! nat (cur_x e) = text_cell e c \<and>
       (\<forall>n<nat w. c_width (sc_rows (scr e) ! nat (cur_y e) ! n) = 1 \<longrightarrow> n \<noteq> nat (cur_x e) \<longrightarrow> row ! n = sc_rows (scr e) ! nat (cur_y e) ! n)"
proof -
  let ?x = "nat (cur_x e)" and ?y = "nat (cur_y e)" and ?c = "text_cell e c"
  have s: "screen_ok w h (scr e)" by (rule scr_ok [OF assms(1)])
  have c: "0 \<le> cur_x e" "cur_x e < w" "0 \<le> cur_y e" "cur_y e < h"
    using screen_okD(5) [OF s] by (auto simp: in_bounds_def cur_x_def cur_y_def)
  then have xy: "int ?x = cur_x e" "int ?y = cur_y e" by simp_all
  have one: "c_width ?c = 1" by (simp add: text_cell_def)
  have ni: "\<not> mode_set Insert_Replace e" using assms(3) by (simp add: prints_plain_def)
  obtain e3 where e3: "write_cell ops (cur_x e) (cur_y e) ?c c 1 e = advance_after_print (cur_x e) (cur_y e) 1 (mode_set Auto_Wrap e) e3"
    "scr e3 = put_cell ops (cur_x e) (cur_y e) ?c (scr e)" "em_modes e3 = em_modes e" "em_charsets e3 = em_charsets e" "em_gsingle e3 = em_gsingle e"
    using write_plain [OF ni one] by blast
  have e1: "e1 = advance_after_print (cur_x e) (cur_y e) 1 (mode_set Auto_Wrap e) e3"
    unfolding assms(8) handle_plain [OF assms(1,3,4,5)] by (rule e3(1))
  show ok: "emulator_ok w h e1" unfolding assms(8) by (rule handle_grapheme_ok [OF assms(6,1)])
  obtain row where row: "sc_rows (put_cell ops (cur_x e) (cur_y e) ?c (scr e)) = (sc_rows (scr e))[?y := row]" "length row = nat w"
    "locally_whole row" "row ! ?x = ?c"
    "\<forall>n<length row. c_width (sc_rows (scr e) ! ?y ! n) = 1 \<longrightarrow> \<not> (?x \<le> n \<and> n < ?x + nat (c_width ?c)) \<longrightarrow> row ! n = sc_rows (scr e) ! ?y ! n"
  proof -
    have "c_width ?c \<in> {1, 2}" "?x + nat (c_width ?c) \<le> nat w" "?y < nat h" using c one by auto
    from put_cell_row [OF s assms(2,7) this] show thesis unfolding xy using that by blast
  qed
  have rows: "sc_rows (scr e1) = (sc_rows (scr e))[?y := row]"
    using row(1) e3(2) by (simp add: e1 advance_after_print_def Let_def)
  show "rows_paired (scr e1)"
    using assms(2) row(3) by (auto simp: rows_paired_def rows dest!: set_update_subset_insert [THEN subsetD])
  show modes: "em_modes e1 = em_modes e" using e3(3) by (simp add: e1 advance_after_print_def Let_def)
  show "prints_plain e1" using assms(3) e3 modes by (simp add: prints_plain_def mode_set_def e1 advance_after_print_def Let_def)
  have cur: "sc_cur (scr e3) = sc_cur (scr e)" using e3(2) by simp
  show "text_cell e1 = text_cell e"
    using cur by (simp add: fun_eq_iff text_cell_def e1 advance_after_print_def Let_def set_cursor_def put_cursor_def)
  have rl: "\<And>l. l \<in> set (sc_rows (scr e)) \<Longrightarrow> length l = nat w" "length (sc_rows (scr e)) = nat h"
    using screen_okD(3) [OF s] by (auto simp: grid_dims_def)
  have "length l = nat w" if "l \<in> set (sc_rows (scr e3))" for l
    using that rl(1) row(1,2) e3(2) by (auto dest!: set_update_subset_insert [THEN subsetD])
  moreover have "length (sc_rows (scr e3)) = nat h" using row(1) e3(2) rl(2) by simp
  ultimately have "grid_dims w h (sc_rows (scr e3))" using c by (auto simp: grid_dims_def)
  from grid_size [OF this] have size: "scr_width (scr e3) = w" "scr_height (scr e3) = h" using c by (simp_all add: scr_width_def scr_height_def)
  show "cur_y e1 = cur_y e" "cur_x e1 = min (cur_x e + 1) (w - 1)" "em_phantom e1 = (cur_x e + 1 = w \<and> mode_set Auto_Wrap e)"
    using c assms(5) by (auto simp: e1 advance_after_print_def Let_def em_width_def size cur_x_def cur_y_def set_cursor_def put_cursor_def
        vt_clamp_id)
  show "\<exists>row. sc_rows (scr e1) = (sc_rows (scr e))[?y := row] \<and> row ! ?x = ?c \<and>
       (\<forall>n<nat w. c_width (sc_rows (scr e) ! ?y ! n) = 1 \<longrightarrow> n \<noteq> ?x \<longrightarrow> row ! n = sc_rows (scr e) ! ?y ! n)"
    using rows row(2,4,5) one by (intro exI [of _ row]) auto
qed

lemma print_run:
  assumes "emulator_ok w h e" "rows_paired (scr e)" "prints_plain e" "\<not> em_phantom e" "cur_x e + int (length cs) \<le> w"
    and "buf_dims ops" "buf_sets ops" "cs \<noteq> []" "e' = fold (\<lambda>c. handle_grapheme ops c 1) cs e"
  shows "(\<forall>i<length cs. sc_rows (scr e') ! nat (cur_y e) ! (nat (cur_x e) + i) = text_cell e (cs ! i)) \<and>
    cur_y e' = cur_y e \<and> cur_x e' = min (cur_x e + int (length cs)) (w - 1) \<and>
    em_phantom e' = (cur_x e + int (length cs) = w \<and> mode_set Auto_Wrap e) \<and>
    (\<forall>j. j \<noteq> nat (cur_y e) \<longrightarrow> sc_rows (scr e') ! j = sc_rows (scr e) ! j) \<and>
    (\<forall>n<nat w. c_width (sc_rows (scr e) ! nat (cur_y e) ! n) = 1 \<longrightarrow> (n < nat (cur_x e) \<or> nat (cur_x e) + length cs \<le> n) \<longrightarrow>
       sc_rows (scr e') ! nat (cur_y e) ! n = sc_rows (scr e) ! nat (cur_y e) ! n)"
  using assms
proof (induction cs arbitrary: e)
  case (Cons c cs)
  let ?x = "nat (cur_x e)" and ?y = "nat (cur_y e)"
  define e1 where "e1 = handle_grapheme ops c 1 e"
  have fits: "cur_x e + 1 \<le> w" using Cons.prems(5) by simp
  note step = grapheme_step [OF Cons.prems(1-4) fits Cons.prems(6,7) e1_def]
  have s: "screen_ok w h (scr e)" by (rule scr_ok [OF Cons.prems(1)])
  have x: "0 \<le> cur_x e" "0 \<le> cur_y e" "cur_y e < h" using screen_okD(5) [OF s] by (auto simp: in_bounds_def cur_x_def cur_y_def)
  have y: "?y < length (sc_rows (scr e))" using x screen_okD(3) [OF s] by (auto simp: grid_dims_def)
  obtain row where row: "sc_rows (scr e1) = (sc_rows (scr e))[?y := row]" "row ! ?x = text_cell e c"
    "\<And>n. n < nat w \<Longrightarrow> c_width (sc_rows (scr e) ! ?y ! n) = 1 \<Longrightarrow> n \<noteq> ?x \<Longrightarrow> row ! n = sc_rows (scr e) ! ?y ! n"
    using step(9) by blast
  have rowy: "sc_rows (scr e1) ! ?y = row" using row(1) y by simp
  show ?case
  proof (cases "cs = []")
    case True
    then show ?thesis using Cons.prems(9) step(6,7,8) row rowy y by (auto simp: e1_def [symmetric])
  next
    case False
    have room: "cur_x e + 1 < w" using Cons.prems(5) False by (cases cs) auto
    then have cx: "cur_x e1 = cur_x e + 1" "\<not> em_phantom e1" using step(7,8) by auto
    have fit1: "cur_x e1 + int (length cs) \<le> w" using Cons.prems(5) cx by simp
    have last: "e' = fold (\<lambda>c. handle_grapheme ops c 1) cs e1" using Cons.prems(9) by (simp add: e1_def)
    note ih = Cons.IH [OF step(1-3) cx(2) fit1 Cons.prems(6,7) False last]
    have nx: "nat (cur_x e1) = Suc ?x" using cx x by simp
    have cell: "sc_rows (scr e') ! ?y ! (?x + i) = text_cell e ((c # cs) ! i)" if "i < length (c # cs)" for i
    proof (cases i)
      case 0
      have "c_width (sc_rows (scr e1) ! ?y ! ?x) = 1" using rowy row(2) by (simp add: text_cell_def)
      then have "sc_rows (scr e') ! ?y ! ?x = row ! ?x" using ih room x nx rowy by (simp add: step(6))
      with 0 row(2) show ?thesis by simp
    next
      case (Suc j)
      then have "sc_rows (scr e') ! ?y ! (Suc ?x + j) = text_cell e1 (cs ! j)" using ih that nx by (simp add: step(6))
      with Suc step(4) show ?thesis by simp
    qed
    have other: "sc_rows (scr e') ! ?y ! n = sc_rows (scr e) ! ?y ! n"
      if n: "n < nat w" "c_width (sc_rows (scr e) ! ?y ! n) = 1" "n < ?x \<or> ?x + length (c # cs) \<le> n" for n
    proof -
      have k: "row ! n = sc_rows (scr e) ! ?y ! n" using row(3) [OF n(1,2)] n(3) by auto
      have "c_width (row ! n) = 1" using n(2) k by simp
      moreover have "n < nat (cur_x e1) \<or> nat (cur_x e1) + length cs \<le> n" using n(3) nx by auto
      ultimately have "sc_rows (scr e') ! ?y ! n = row ! n"
        using ih n(1) rowy unfolding step(6) by blast
      with k show ?thesis by simp
    qed
    have rows: "sc_rows (scr e') ! j = sc_rows (scr e) ! j" if "j \<noteq> ?y" for j
      using ih that row(1) by (simp add: step(6))
    have "mode_set Auto_Wrap e1 = mode_set Auto_Wrap e" using step(5) by (simp add: mode_set_def)
    then have fin: "cur_y e' = cur_y e" "cur_x e' = min (cur_x e + int (length (c # cs))) (w - 1)"
      "em_phantom e' = (cur_x e + int (length (c # cs)) = w \<and> mode_set Auto_Wrap e)"
      using ih cx(1) by (simp_all add: step(6) add.assoc)
    show ?thesis using cell other rows fin by blast
  qed
qed simp

text \<open>
  C21. A run of narrow text is written cell by cell. Printing clusters from the cursor on, no further
  than the end of the row, puts each in its place with the current pen and link; the cursor ends after
  the last one, or on the last column with a wrap pending (in auto-wrap mode) when the text fills the
  row. Outside the run the other rows are untouched, and so is every narrow cell of the cursor's row.
\<close>

theorem printed_run_stands_in_its_row:
  assumes "emulator_ok w h e" "rows_paired (scr e)" "prints_plain e" "\<not> em_phantom e" "cur_x e + int (length cs) \<le> w"
    and "buf_dims ops" "buf_sets ops" "cs \<noteq> []" "e' = fold (\<lambda>c. handle_grapheme ops c 1) cs e"
  shows "(\<forall>i<length cs. sc_rows (scr e') ! nat (cur_y e) ! (nat (cur_x e) + i) = text_cell e (cs ! i)) \<and>
    cur_y e' = cur_y e \<and> cur_x e' = min (cur_x e + int (length cs)) (w - 1) \<and>
    em_phantom e' = (cur_x e + int (length cs) = w \<and> mode_set Auto_Wrap e) \<and>
    (\<forall>j. j \<noteq> nat (cur_y e) \<longrightarrow> sc_rows (scr e') ! j = sc_rows (scr e) ! j) \<and>
    (\<forall>n<nat w. c_width (sc_rows (scr e) ! nat (cur_y e) ! n) = 1 \<longrightarrow> (n < nat (cur_x e) \<or> nat (cur_x e) + length cs \<le> n) \<longrightarrow>
       sc_rows (scr e') ! nat (cur_y e) ! n = sc_rows (scr e) ! nat (cur_y e) ! n)"
  by (rule print_run [OF assms])

theorem printed_run_stands_in_its_row_witness:
  "sc_rows (scr (fold (\<lambda>c. handle_grapheme row_buffer c 1) [''o'', ''k''] (new_emulator row_buffer eight_tabs 4 1))) ! 0 ! 1 =
   text_cell (new_emulator row_buffer eight_tabs 4 1) ''k''"
proof -
  let ?e = "new_emulator row_buffer eight_tabs 4 1"
  have e: "emulator_ok 4 1 ?e" by (rule new_emulator_ok [OF row_buffer_dims]) simp_all
  have r: "sc_rows (scr ?e) = [replicate 4 empty_cell]"
    by (simp add: scr_def new_emulator_def new_screen_def Let_def row_buffer_def)
  have p: "rows_paired (scr ?e)"
    unfolding rows_paired_def r by (auto simp: locally_whole_def empty_cell_def)
  have f: "prints_plain ?e" "\<not> em_phantom ?e"
    by (simp_all add: prints_plain_def mode_set_def new_emulator_def default_modes_def)
  have c: "cur_x ?e = 0" "cur_y ?e = 0"
    by (simp_all add: cur_x_def cur_y_def scr_def new_emulator_def new_screen_def Let_def home_cursor_def)
  have "\<forall>i<2. sc_rows (scr (fold (\<lambda>c. handle_grapheme row_buffer c 1) [''o'', ''k''] ?e)) ! 0 ! i = text_cell ?e ([''o'', ''k''] ! i)"
    using printed_run_stands_in_its_row [OF e p f, of "[''o'', ''k'']", OF _ row_buffer_dims row_buffer_sets _ refl]
    unfolding c by simp
  then show ?thesis by simp
qed

end
