(* ===== verification/VtReflowText.thy ===== *)
theory VtReflowText
  imports VtReflowInv
begin

text \<open>
  A new width keeps the text of a terminal: the logical lines of the end of the scrollback and the
  screen, read together, are the same before and after.
\<close>

subsection \<open>Reading rows with more or less of their blank end\<close>

definition same_text :: "src_row \<Rightarrow> src_row \<Rightarrow> bool" where
  "same_text a b \<longleftrightarrow> fst a = fst b \<and> (snd a = snd b \<or> \<not> wrapped (snd (fst a)) \<and>
     trimmed_len (fst (fst a)) \<le> snd a \<and> trimmed_len (fst (fst a)) \<le> snd b)"

lemma group_rows_same: "list_all2 same_text src1 src2 \<Longrightarrow> list_all2 (list_all2 same_text) (group_rows src1) (group_rows src2)"
proof (induction src1 arbitrary: src2 rule: group_rows.induct)
  case (2 s)
  then show ?case by (auto simp: list_all2_Cons1)
next
  case (3 s t ss)
  obtain s' t' ss' where e: "src2 = s' # t' # ss'" "same_text s s'" "list_all2 same_text (t # ss) (t' # ss')"
    using "3.prems" by (auto simp: list_all2_Cons1)
  have w: "wrapped (snd (fst s')) = wrapped (snd (fst s))" using e(2) by (simp add: same_text_def)
  have ih: "list_all2 (list_all2 same_text) (group_rows (t # ss)) (group_rows (t' # ss'))"
    using "3.IH" e(3) by (cases "wrapped (snd (fst s))") blast+
  show ?case
  proof (cases "wrapped (snd (fst s))")
    case True
    then show ?thesis using ih w e(1,2) by (auto split: list.splits)
  next
    case False
    then show ?thesis using ih w e(1,2) by simp
  qed
qed simp

lemma trim_longer: "trimmed_len r \<le> n \<Longrightarrow> trim_row (xs @ take n r) = trim_row (xs @ r)"
  using trim_trim [of xs "take n r"] trim_trim [of xs r] trim_take [of r n] by simp

lemma logical_text_same:
  assumes "hard_line l" "list_all2 same_text l l'"
  shows "logical_text l' = logical_text l"
proof -
  obtain ks s where l: "l = ks @ [s]" using assms(1) by (cases l rule: rev_cases) (auto simp: hard_line_def)
  then obtain ks' s' where l': "l' = ks' @ [s']" "list_all2 same_text ks ks'" "same_text s s'"
    using assms(2) by (auto simp: list_all2_append1 list_all2_Cons1)
  have "\<forall>k\<in>set ks. wrapped (snd (fst k))" using assms(1) l by (simp add: hard_line_def)
  with l'(2) have "map src_text ks' = map src_text ks"
    by (induction ks ks' rule: list_all2_induct) (auto simp: same_text_def src_text_def)
  moreover have "trim_row (xs @ src_text s') = trim_row (xs @ src_text s)" for xs
    using l'(3) by (auto simp: same_text_def src_text_def trim_longer)
  ultimately show ?thesis by (simp add: l l'(1) logical_text_def)
qed

lemma document_extended:
  assumes "rs \<noteq> []" "\<not> wrapped (snd (last rs))"
  shows "map logical_text (group_rows (zip rs (content_lens rs ext n))) = document rs"
proof -
  let ?a = "with_content rs" and ?b = "zip rs (content_lens rs ext n)"
  have len: "length (content_lens rs ext n) = length rs" by (simp add: content_lens_def Let_def)
  have "same_text (?a ! i) (?b ! i)" if "i < length rs" for i
  proof -
    have "content_lens rs ext n ! i = content_len (rs ! i) \<or>
        \<not> wrapped (snd (rs ! i)) \<and> content_len (rs ! i) \<le> content_lens rs ext n ! i"
      using that by (auto simp: content_lens_def Let_def nth_list_update split: if_splits)
    moreover have "\<not> wrapped (snd (rs ! i)) \<Longrightarrow> content_len (rs ! i) = trimmed_len (fst (rs ! i))"
      by (simp add: content_len_def)
    ultimately show ?thesis using that len by (auto simp: same_text_def with_content_def)
  qed
  then have "list_all2 same_text ?a ?b" using len by (simp add: list_all2_conv_all_nth with_content_def)
  then have g: "list_all2 (list_all2 same_text) (group_rows ?a) (group_rows ?b)" by (rule group_rows_same)
  have "snd (fst (last ?a)) = snd (last rs)" using assms(1) by (simp add: with_content_def last_map)
  then have "\<forall>l\<in>set (group_rows ?a). hard_line l"
    using group_rows_hard [of ?a] assms by (auto simp: with_content_def)
  moreover have "list_all2 (list_all2 same_text) ls ls' \<Longrightarrow> \<forall>l\<in>set ls. hard_line l \<Longrightarrow> map logical_text ls' = map logical_text ls"
    for ls ls' by (induction ls ls' rule: list_all2_induct) (auto simp: logical_text_same)
  ultimately have "map logical_text (group_rows ?b) = map logical_text (group_rows ?a)" using g by blast
  then show ?thesis by (simp add: document_def)
qed

lemma document_append:
  assumes "xs = [] \<or> \<not> wrapped (snd (last xs))"
  shows "document (xs @ ys) = document xs @ document ys"
proof (cases "xs = []")
  case False
  let ?a = "with_content xs"
  have "snd (fst (last ?a)) = snd (last xs)" "?a \<noteq> []" using False by (simp_all add: with_content_def last_map)
  then have h: "concat (group_rows ?a) = ?a" "\<forall>l\<in>set (group_rows ?a). hard_line l"
    using group_rows_hard [of ?a] assms False by auto
  have "group_rows (concat ls @ b) = ls @ group_rows b" if "\<forall>l\<in>set ls. hard_line l" for ls b
    using that by (induction ls) (simp_all add: group_hard_line)
  from this [OF h(2), of "with_content ys"] h(1) show ?thesis by (simp add: document_def with_content_def)
qed (simp add: document_def with_content_def)

lemma document_blank: "document (replicate k (replicate v empty_cell, hard_break)) = replicate k []"
proof (induction k)
  case (Suc k)
  have "document [(replicate v empty_cell, hard_break)] = [[]]"
    using trim_blanks [of "replicate v empty_cell" "[]"]
    by (simp add: document_def with_content_def content_len_def wrapped_def logical_text_def src_text_def trim_row_def)
  then show ?case using Suc document_append [of "[(replicate v empty_cell, hard_break)]" "replicate k (replicate v empty_cell, hard_break)"]
    by (simp add: wrapped_def)
qed (simp add: document_def with_content_def)

subsection \<open>The claim\<close>

text \<open>What a new width lays out, the rows with their content, the layout, and the row the screen starts at.\<close>

definition laid_rows :: "int \<Rightarrow> int \<Rightarrow> screen \<Rightarrow> rows" where
  "laid_rows w h s = lines_from (tail_of w h (sc_back s)) (sc_back s) @ zip (sc_rows s) (sc_wraps s)"

definition source_row :: "int \<Rightarrow> int \<Rightarrow> int \<Rightarrow> screen \<Rightarrow> int" where
  "source_row w h y s = int (length (lines_from (tail_of w h (sc_back s)) (sc_back s))) + vt_clamp y 0 (scr_height s - 1)"

definition laid_src :: "int \<Rightarrow> int \<Rightarrow> screen \<Rightarrow> src_row list" where
  "laid_src w h s = (let rs = laid_rows w h s
     in zip rs (content_lens rs (source_row w h (cu_y (sc_cur s)) s) (nat (cu_x (sc_cur s)))))"

definition layout_at :: "int \<Rightarrow> int \<Rightarrow> screen \<Rightarrow> reflower" where
  "layout_at w h s = new_reflower (laid_rows w h s) w (source_row w h (cu_y (sc_cur s)) s) (nat (cu_x (sc_cur s)))"

definition top_row :: "int \<Rightarrow> int \<Rightarrow> screen \<Rightarrow> nat" where
  "top_row w h s = (let rs = laid_rows w h s; r = layout_at w h s
     in screen_top h (fst (locate r (length rs) (source_row w h (cu_y (sc_cur s)) s) (cu_x (sc_cur s))))
          (fst (locate r (length rs) (int (length (lines_from (tail_of w h (sc_back s)) (sc_back s)))) 0))
          (vt_clamp (cu_y (sc_cur s)) 0 (scr_height s - 1)))"

lemma reflow_resize_rows:
  assumes "sc_back s = Some sb" "(at_end, s2) = reflow_resize w h s" "t = top_row w h s" "tail = tail_of w h (Some sb)"
    and "out = build (t - rg_max sb) (min (t + nat h) (rf_total (layout_at w h s))) t (layout_at w h s)" "kept = t - (t - rg_max sb)"
  shows "sc_rows s2 = map fst (fill_rows w h (drop kept out))" "sc_wraps s2 = map snd (fill_rows w h (drop kept out))"
    "sc_back s2 = Some (store_kept w tail (tail + t - (t - rg_max sb) - rg_max sb) (take kept out) sb)"
proof -
  let ?r = "layout_at w h s" and ?n = "length (laid_rows w h s)"
  obtain t1 t2 t3 where tp: "locate ?r ?n (int (length (lines_from (tail_of w h (sc_back s)) (sc_back s)))) 0 = (t1, t2, t3)"
    by (metis prod_cases3)
  obtain cy cx ae where cy: "locate ?r ?n (source_row w h (cu_y (sc_cur s)) s) (cu_x (sc_cur s)) = (cy, cx, ae)" by (metis prod_cases3)
  obtain sy sx s3 where sy: "locate ?r ?n (source_row w h (cu_y (sc_saved s)) s) (cu_x (sc_saved s)) = (sy, sx, s3)" by (metis prod_cases3)
  have t: "t = screen_top h cy t1 (vt_clamp (cu_y (sc_cur s)) 0 (scr_height s - 1))"
    unfolding assms(3) top_row_def Let_def tp cy by simp
  have top: "keep_from t (sc_back s) = t - rg_max sb" by (simp add: keep_from_def assms(1))
  have "s2 = snd (reflow_resize w h s)" using assms(2) by (metis snd_conv)
  note e = this [unfolded reflow_resize_def Let_def laid_rows_def [symmetric] source_row_def [symmetric] layout_at_def [symmetric]
      tp cy sy case_prod_conv t [symmetric] top assms(5) [symmetric] assms(6) [symmetric]]
  show "sc_rows s2 = map fst (fill_rows w h (drop kept out))" "sc_wraps s2 = map snd (fill_rows w h (drop kept out))"
    unfolding e by simp_all
  show "sc_back s2 = Some (store_kept w tail (tail + t - (t - rg_max sb) - rg_max sb) (take kept out) sb)"
    unfolding e assms(4) by (simp add: assms(1) dropped_lines_def)
qed

text \<open>
  C5. A new width keeps the text of a terminal. When every cluster is whole and fits the new width, when
  the scrollback has room for the lines that leave the screen and nothing below the cursor is pushed off
  the bottom, then the logical lines of the laid out part of the scrollback and the screen are the same
  after the resize as before, followed by empty lines for the rows left over; the older lines of the
  scrollback are untouched.
\<close>

theorem new_width_keeps_text:
  assumes "screen_ok w' h' s" "sc_back s = Some sb" "1 \<le> w" "1 \<le> h" "(at_end, s2) = reflow_resize w h s"
    and "sound_src (nat w) (laid_src w h s)" "tail = tail_of w h (Some sb)"
    and "tail + top_row w h s \<le> rg_max sb" "rf_total (layout_at w h s) \<le> top_row w h s + nat h"
  shows "\<exists>sb2. sc_back s2 = Some sb2 \<and> take tail (contents sb2) = take tail (contents sb) \<and>
    document (drop tail (contents sb2) @ zip (sc_rows s2) (sc_wraps s2)) =
    document (drop tail (contents sb) @ zip (sc_rows s) (sc_wraps s)) @
      replicate (nat h - (rf_total (layout_at w h s) - top_row w h s)) []"
proof -
  define t where "t = top_row w h s"
  define r where "r = layout_at w h s"
  define rs where "rs = laid_rows w h s"
  define out where "out = build (t - rg_max sb) (min (t + nat h) (rf_total r)) t r"
  have z: "t - rg_max sb = 0" "min (t + nat h) (rf_total r) = rf_total r" using assms(8,9) by (simp_all add: t_def r_def)
  have out0: "out = build 0 (rf_total r) t r" unfolding out_def z ..
  have rs: "rs = drop tail (contents sb) @ zip (sc_rows s) (sc_wraps s)"
    by (simp add: rs_def laid_rows_def lines_from_def assms(2,7))
  have src: "laid_src w h s = zip rs (content_lens rs (source_row w h (cu_y (sc_cur s)) s) (nat (cu_x (sc_cur s))))"
    by (simp add: laid_src_def rs_def Let_def)
  obtain gs n where gs: "lay_lines (nat w) 0 0 (group_rows (laid_src w h s)) = (gs, n)" by fastforce
  have w: "nat (max w 1) = nat w" using assms(3) by simp
  have r: "r = \<lparr>rf_width = nat w, rf_lines = gs, rf_total = n\<rparr>"
    unfolding r_def layout_at_def new_reflower_def w rs_def [symmetric] src [symmetric] Let_def gs by simp
  have out1: "out = concat (map (line_out (nat w) 0 n t) gs)"
    unfolding out0 r by (simp add: lay_whole_build [OF assms(6) gs])
  note whole = lay_whole [OF assms(6) gs out1]
  have ne: "laid_src w h s \<noteq> []" "\<not> wrapped (snd (fst (last (laid_src w h s))))" using assms(6) by (simp_all add: sound_src_def)
  have len: "length (content_lens rs e m) = length rs" for e m by (simp add: content_lens_def Let_def)
  have last: "rs \<noteq> []" "\<not> wrapped (snd (last rs))"
    using ne len by (auto simp: src last_zip)
  have doc: "document out = document rs"
    using whole document_extended [OF last] unfolding src by simp
  have t: "t \<le> length out" "length out = n"
  proof -
    show "length out = n" using whole by blast
    have "t \<le> fst (locate r (length rs) (source_row w h (cu_y (sc_cur s)) s) (cu_x (sc_cur s)))"
    proof -
      have "0 \<le> vt_clamp (cu_y (sc_cur s)) 0 (scr_height s - 1)"
        using vt_clamp_range [of 0 "scr_height s - 1"] screen_okD(2) [OF assms(1)] screen_size(2) [OF assms(1)] by simp
      from screen_top_le [OF assms(4) this] show ?thesis by (simp add: t_def top_row_def Let_def r_def rs_def)
    qed
    moreover obtain a b c where abc: "locate r (length rs) (source_row w h (cu_y (sc_cur s)) s) (cu_x (sc_cur s)) = (a, b, c)"
      by (metis prod_cases3)
    moreover have "a < rf_total r"
      using locate_range [OF last(1) _ _ abc] screen_okD(5) [OF assms(1)]
      by (auto simp: r_def layout_at_def rs_def in_bounds_def)
    ultimately show "t \<le> length out" using \<open>length out = n\<close> r by simp
  qed
  note rows = reflow_resize_rows [OF assms(2,5) t_def assms(7) out_def [unfolded r_def] refl, unfolded z diff_zero]
  define sb2 where "sb2 = store_kept w tail (tail + t - rg_max sb) (take t out) sb"
  have back2: "sc_back s2 = Some sb2" using rows(3) by (simp add: sb2_def)
  have inv: "ring_inv sb" using screen_okD(7) [OF assms(1)] by (simp add: assms(2) back_ok_def)
  have tl: "rg_pending sb \<le> tail" "tail \<le> ring_len sb"
    using tail_starts_a_line [OF inv _ refl, of h w] assms(4) by (simp_all add: assms(7) tail_of_def)
  have c2: "contents sb2 = take tail (contents sb) @ take t out"
  proof -
    obtain d q where q: "replace_tail (int tail) (take t out) sb = (d, q)" by fastforce
    have f: "tail = nat (min (max (int tail) 0) (int (ring_len sb)))" using tl by simp
    have "contents q = lastn (rg_max sb) (take tail (contents sb) @ take t out)"
      using replace_tail_result [OF inv q f tl(1)] by simp
    also have "\<dots> = take tail (contents sb) @ take t out"
      using assms(8) t(1) tl(2) by (intro lastn_all) (simp add: t_def)
    finally have "contents q = take tail (contents sb) @ take t out" .
    moreover have "contents sb2 = contents q"
      by (simp add: sb2_def store_kept_def q contents_def ring_range_def ring_slot_def [abs_def] ring_len_def ring_size_def)
    ultimately show ?thesis by simp
  qed
  have lt: "length (take tail (contents sb)) = tail" using tl by simp
  have shown: "zip (sc_rows s2) (sc_wraps s2) = drop t out @ replicate (nat h - (n - t)) (replicate (nat w) empty_cell, hard_break)"
    unfolding rows(1,2) using t by (simp add: zip_map_fst_snd fill_rows_def)
  have "document (drop tail (contents sb2) @ zip (sc_rows s2) (sc_wraps s2)) =
      document (out @ replicate (nat h - (n - t)) (replicate (nat w) empty_cell, hard_break))"
    unfolding shown c2 using lt by (simp add: append_assoc [symmetric] del: append_assoc)
  also have "\<dots> = document rs @ replicate (nat h - (n - t)) []"
    using document_append [of out] whole doc document_blank by auto
  finally have "document (drop tail (contents sb2) @ zip (sc_rows s2) (sc_wraps s2)) = document rs @ replicate (nat h - (n - t)) []" .
  moreover have "take tail (contents sb2) = take tail (contents sb)" using lt by (simp add: c2)
  ultimately show ?thesis using back2 by (simp add: rs r_def [symmetric] r t_def [symmetric])
qed

definition text_cells :: "string \<Rightarrow> row" where
  "text_cells = map (\<lambda>c. empty_cell\<lparr>c_content := [c]\<rparr>)"

definition text_screen :: screen where
  "text_screen =
     \<lparr>sc_rows = [text_cells ''abcd'', text_cells ''e   ''], sc_cur = home_cursor\<lparr>cu_x := 1, cu_y := 1\<rparr>, sc_saved = home_cursor,
      sc_state = nothing_saved, sc_phantom = False, sc_scroll = vt_rect 0 0 4 2, sc_back = Some (new_scrollback 3),
      sc_wraps = [soft_wrap 0, hard_break]\<rparr>"

lemma text_screen_ok: "screen_ok 4 2 text_screen"
  by (simp add: text_screen_def screen_ok_def grid_dims_def text_cells_def in_bounds_def home_cursor_def margins_ok_def vt_rect_def
      back_ok_def new_scrollback_inv state_ok_def nothing_saved_def sets_ok_def)

theorem new_width_keeps_text_witness:
  "\<exists>sb2. sc_back (snd (reflow_resize 2 3 text_screen)) = Some sb2 \<and>
     document (contents sb2 @ zip (sc_rows (snd (reflow_resize 2 3 text_screen))) (sc_wraps (snd (reflow_resize 2 3 text_screen)))) =
     document (zip (sc_rows text_screen) (sc_wraps text_screen))"
proof -
  have layout: "top_row 2 3 text_screen = 0" "rf_total (layout_at 2 3 text_screen) = 3"
    "tail_of 2 3 (Some (new_scrollback 3) :: cell ring option) = 0" by code_simp+
  have sound: "sound_src (nat 2) (laid_src 2 3 text_screen)" by code_simp
  have b: "sc_back text_screen = Some (new_scrollback 3)" by (simp add: text_screen_def)
  have m: "rg_max (new_scrollback 3 :: cell ring) = 3" by (simp add: new_scrollback_def Let_def)
  show ?thesis
    using new_width_keeps_text [OF text_screen_ok b _ _ prod.collapse sound refl]
    by (simp add: layout m new_scrollback_inv)
qed

end
