(* ===== verification/Spec2Isabelle.thy ===== *)
theory Spec2Isabelle
  imports BspRefine ScrollingPositions Tiling ReflowSpec DaemonHistory SessionMerge AgentHoldSpec TapeExecutor TapeSession TapePlayer VtRows VtReflowText
begin

text \<open>
  A verification library for tuios, a terminal multiplexer. The program keeps windows in sessions that a
  daemon owns, lays the windows of a workspace out on a screen, runs a virtual terminal in each, and can
  record and replay what a user does as a tape. The library models the parts that decide something:
  where a window goes, what a terminal shows and remembers, which state of a session survives, what a
  tape means.

  Layouts (\<^verbatim>\<open>internal/layout\<close>).
  \<^item> \<open>BspTree\<close>, \<open>BspLayout\<close>, \<open>BspResize\<close>, \<open>BspSerial\<close>: the binary layout tree of \<^verbatim>\<open>bsp.go\<close> as a value:
    \<^verbatim>\<open>ApplyLayout\<close>, \<^verbatim>\<open>CollectSplits\<close>, \<^verbatim>\<open>ResizeSplit\<close>, \<^verbatim>\<open>SyncRatiosFromGeometry\<close>, \<^verbatim>\<open>Clone\<close>, \<^verbatim>\<open>Serialize\<close>. Split
    ratios are \<^verbatim>\<open>float64\<close>; \<open>Float64\<close> writes out the rounding that the code's expressions need.
    The lemmas show that panes and separators partition the region, that a resize is local and lands
    where it was asked to, and that a saved tree is laid out as before.
  \<^item> \<open>BspHeap\<close>, \<open>BspRefine\<close>: the same tree as the pointer structure the code mutates, in a heap from
    addresses to nodes with an index of windows; \<open>None\<close> is a dereferenced nil. Insertion, removal,
    rotation and swap are refined to operations of the value tree, along any history.
  \<^item> \<open>WindowRegistry\<close>: the contract the tree and the strip share, a set of windows, as a locale; both
    interpret it.
  \<^item> \<open>Scrolling\<close>, \<open>ScrollingInv\<close>, \<open>ScrollingPositions\<close>: the strip of columns of \<^verbatim>\<open>scrolling.go\<close>; an index out
    of range is \<open>None\<close>, shown not to happen.
  \<^item> \<open>Tiling\<close>: \<^verbatim>\<open>CalculateTilingLayout\<close> and the separators of \<^verbatim>\<open>tiling.go\<close>.

  The virtual terminal (\<^verbatim>\<open>internal/vt\<close>).
  \<^item> \<open>BoundedLog\<close>, \<open>Scrollback\<close>, \<open>ScrollbackInv\<close>: the ring of \<^verbatim>\<open>scrollback.go\<close> implements the locale of a
    history with a limit.
  \<^item> \<open>TermCell\<close>: the cell and its style, which the scrollback, the reflow and the screen share.
  \<^item> \<open>Reflow\<close>, \<open>ReflowText\<close>, \<open>ReflowSpec\<close>, \<open>ReflowShape\<close>: \<^verbatim>\<open>reflow.go\<close>: rows joined to logical lines and
    split at a new width; every logical line keeps its cells, and what is built has as many rows as asked
    for, each of the new width.
  \<^item> \<open>VtCells\<close>: a row as a sequence of runes of one or more columns, the repair of a row and the cutting
    of runes.
  \<^item> \<open>VtScreen\<close>: \<^verbatim>\<open>screen.go\<close>: the grid, the cursor, margins, wrap flags, shifts, scrolling and resizing.
    The library's cell buffer is the parameter \<open>ops\<close>.
  \<^item> \<open>VtReflow\<close>: a screen taken to a new width (\<^verbatim>\<open>reflowResize\<close>, \<^verbatim>\<open>settleReflow\<close>).
  \<^item> \<open>VtEmulator\<close>: \<^verbatim>\<open>emulator.go\<close> and the handlers of clusters, control characters, escape sequences and
    control sequences, one constructor of \<open>control\<close>, \<open>escape\<close> and \<open>csi\<close> per handler that changes the
    screen. Tab stops are the parameter \<open>tb\<close>, the segmentation of clusters the parameter \<open>seg\<close>, and the
    order in which a reset walks over the table of modes is an argument.
  \<^item> \<open>VtSafety\<close>, \<open>VtReflowInv\<close>, \<open>VtGuest\<close>: the invariant of a screen, kept by every operation and by a new
    width; that of the emulator, kept by whatever a guest sends and however its window is resized.
  \<^item> \<open>VtReflowText\<close>: a new width keeps the text of the scrollback and the screen.
  \<^item> \<open>VtRows\<close>: shifts and prints leave no half of a rune; a scroll of the whole screen feeds the
    scrollback in order (through the interpretation of the bounded log); a run of text stands in its row.

  Sessions (\<^verbatim>\<open>internal/session\<close>).
  \<^item> \<open>SessionState\<close>, \<open>SessionEvents\<close>: the state of a session and the lifecycle events that describe a change
    of it (\<^verbatim>\<open>state_events.go\<close>); a subscriber that replays them stays in step.
  \<^item> \<open>DaemonSession\<close>, \<open>DaemonWindows\<close>, \<open>DaemonHistory\<close>: the window operations of \<^verbatim>\<open>session.go\<close> and
    \<^verbatim>\<open>session_ops.go\<close>, and the coherence of the state along any history of them.
  \<^item> \<open>SessionMerge\<close>: client snapshots, stale and current (\<^verbatim>\<open>state_merge.go\<close>).
  \<^item> \<open>AgentClaims\<close>, \<open>AgentTimers\<close>, \<open>AgentHolds\<close>, \<open>AgentSpec\<close>, \<open>AgentHoldSpec\<close>: the reported state of a coding agent
    in a window: ranked sources, loans of a visible prompt, stalls, detection, and quiet states that are
    held back until a timer fires. Clocks are arguments; what the registry of agents answers is a
    parameter.

  Tapes (\<^verbatim>\<open>internal/tape\<close>).
  \<^item> \<open>TapeLexer\<close>, \<open>TapeTokens\<close>, \<open>TapeParser\<close>: bytes to tokens to commands. The lexer ends because every step
    lowers \<open>left\<close>, the bytes still unread, and the parser because every command consumes a token.
  \<^item> \<open>TapeDuration\<close>: \<^verbatim>\<open>time.Duration\<close>'s printing and parsing, which tapes rely on.
  \<^item> \<open>TapeExecutor\<close>: what each command asks of the program, \<open>Inl\<close> its error.
  \<^item> \<open>TapeRecorder\<close>, \<open>TapeTyping\<close>, \<open>TapeLines\<close>, \<open>TapeReplay\<close>, \<open>TapeSession\<close>: a recorded session, printed as a
    tape and parsed again, gives the recorded commands. \<open>TapePlayer\<close>: stepping through a tape, key
    combinations, and the header of a project's tape. Whether a rune is printable (\<^verbatim>\<open>strconv.IsPrint\<close>) is
    the parameter \<open>pr\<close>.

  \<open>Prelude\<close> holds the lists, maps and arithmetic they share.

  Integers are \<^verbatim>\<open>int\<close>: the sizes of a screen, the counts of a sequence and the positions in a tape stay far
  below the machine's range, which the code relies on as well. Ratios and durations, where rounding and
  range matter, are modelled at their width. No definition needs fuel: loops are recursions on data or
  have a measure.

  Not modelled. Locks, channels and goroutines: each operation is one step of the state it locks, and
  the histories interleave such steps. Drawing, callbacks and damage records. In the terminal: the byte
  parser, which is a library, reports to the guest, colours, OSC strings, graphics, keyboard protocols,
  and the semantic markers, which a reflow moves with their lines. In the session: sockets, processes, PTYs, persistence, the command protocol. The application model
  (\<^verbatim>\<open>internal/app\<close>), input, configuration, themes, servers and commands, which are glue between these
  parts, libraries and the outside.
\<close>

end
